(* ===== verification/Prelude.thy ===== *)
theory Prelude
  imports "HOL-Library.Word" "HOL-Library.While_Combinator" "HOL-Library.Sublist"
begin

text \<open>
  Shared vocabulary of the development: the machine types of the 64-bit targets the code is
  built for (CKB-VM is \<open>riscv64\<close>), what a Rust computation can do instead of returning
  (\<open>fault\<close>), sequencing of fallible computations, \<open>while\<close> loops over a mutable
  state, slice indexing with its bounds checks, and checked \<open>usize\<close> arithmetic.

  A \<open>usize\<close> is a \<^typ>\<open>nat\<close>; every operation of the source that can leave the
  64-bit range is written with the check (or the saturation) that Rust performs there. The
  workspace profile sets \<^verbatim>\<open>overflow-checks = true\<close>, so an overflowing \<open>+\<close>, \<open>-\<close>
  or \<open><<\<close> panics.
\<close>

section \<open>Machine types\<close>

type_synonym u8 = "8 word"
type_synonym u16 = "16 word"
type_synonym u32 = "32 word"
type_synonym u64 = "64 word"
type_synonym u128 = "128 word"

text \<open>
  A signed integer of Rust has the same bits as the unsigned one of its width; its value is
  read with \<^const>\<open>sint\<close>. A float is the bit pattern that \<open>from_bits\<close> transmutes.
\<close>

type_synonym i8 = "8 word"
type_synonym i16 = "16 word"
type_synonym i32 = "32 word"
type_synonym i64 = "64 word"
type_synonym i128 = "128 word"

datatype f32 = F32 (f32_to_bits: u32)
datatype f64 = F64 (f64_to_bits: u64)

type_synonym usize = nat

definition usize_max :: usize where
  "usize_max = 2 ^ 64 - 1"

definition isize_max :: usize where
  "isize_max = 2 ^ 63 - 1"

lemma isize_max_less_usize_max: "isize_max < usize_max"
  by (simp add: isize_max_def usize_max_def)

section \<open>Faults\<close>

record try_get_error =
  requested :: usize
  available :: usize

text \<open>Why a panic happened. The messages are kept as far as the source distinguishes them.\<close>

datatype panic =
    Panic_advance try_get_error
  | Panic_does_not_fit usize usize
  | Assert_failed string
  | Arith_overflow
  | Slice_index
  | Expect_failed string

text \<open>
  \<open>Panic\<close> unwinds, \<open>Abort\<close> ends the process, \<open>UB\<close> is undefined behaviour (an
  access the memory model has no meaning for) and \<open>Diverges\<close> is a loop that never ends.
\<close>

datatype fault = Panic panic | Abort | UB string | Diverges

type_synonym 'a res = "fault + 'a"

text \<open>Rust's own \<open>Result\<close>, as a value that a computation returns.\<close>

datatype ('a, 'e) result = Ok 'a | Err 'e

named_theorems rust_simps \<open>unfolding rules of the Rust primitives\<close>

fun res_bind :: "'e + 'a \<Rightarrow> ('a \<Rightarrow> 'e + 'b) \<Rightarrow> 'e + 'b" where
  "res_bind (Inl e) f = Inl e"
| "res_bind (Inr x) f = f x"

lemma res_bind_eq_Inr [simp]:
  "res_bind m f = Inr y \<longleftrightarrow> (\<exists>x. m = Inr x \<and> f x = Inr y)"
  by (cases m) auto

lemma res_bind_eq_Inl:
  "res_bind m f = Inl e \<longleftrightarrow> m = Inl e \<or> (\<exists>x. m = Inr x \<and> f x = Inl e)"
  by (cases m) auto

lemma res_bind_assoc: "res_bind (res_bind m f) g = res_bind m (\<lambda>x. res_bind (f x) g)"
  by (cases m) auto

lemma res_bind_Inr_right [simp]: "res_bind m Inr = m"
  by (cases m) auto

lemma res_bind_cong [fundef_cong]:
  "m = m' \<Longrightarrow> (\<And>x. m' = Inr x \<Longrightarrow> f x = g x) \<Longrightarrow> res_bind m f = res_bind m' g"
  by (cases m') auto

text \<open>\<open>assert!(c, msg)\<close>\<close>

definition rust_assert :: "bool \<Rightarrow> string \<Rightarrow> unit res" where
  "rust_assert c msg = (if c then Inr () else Inl (Panic (Assert_failed msg)))"

text \<open>\<open>r.unwrap_or_else(|e| h(e))\<close> on a \<open>Result\<close>, where \<open>h\<close> may panic.\<close>

fun unwrap_or_else :: "('a, 'e) result \<Rightarrow> ('e \<Rightarrow> 'a res) \<Rightarrow> 'a res" where
  "unwrap_or_else (Ok x) h = Inr x"
| "unwrap_or_else (Err e) h = h e"

section \<open>While loops\<close>

text \<open>
  \<open>rust_while c f s\<close> is \<open>while c(s) { s = f(s)? }\<close>: the loop ends when the condition
  fails or when the body faults; a run that does neither is \<open>Diverges\<close>.
\<close>

definition rust_while :: "('s \<Rightarrow> bool) \<Rightarrow> ('s \<Rightarrow> 's res) \<Rightarrow> 's \<Rightarrow> 's res" where
  "rust_while c f s =
     (case while_option (\<lambda>r. case r of Inl _ \<Rightarrow> False | Inr t \<Rightarrow> c t)
             (\<lambda>r. res_bind r f) (Inr s) of
        None \<Rightarrow> Inl Diverges
      | Some r \<Rightarrow> r)"

lemma rust_while_unfold:
  "rust_while c f s = (if c s then res_bind (f s) (rust_while c f) else Inr s)"
proof (cases "c s")
  case True
  then show ?thesis
    unfolding rust_while_def
    by (subst while_option_unfold) (cases "f s"; simp add: while_option_unfold [of _ _ "Inl _"])
next
  case False
  then show ?thesis
    by (simp add: rust_while_def while_option_unfold)
qed

lemma rust_while_stop [simp]: "\<not> c s \<Longrightarrow> rust_while c f s = Inr s"
  by (simp add: rust_while_unfold)

text \<open>
  Total correctness of a loop: an invariant that the body keeps without faulting, and a
  measure that it decreases. The loop then returns a state that satisfies the invariant
  and not the condition.
\<close>

lemma rust_while_rule:
  assumes "P s"
    and "\<And>s. P s \<Longrightarrow> c s \<Longrightarrow> \<exists>t. f s = Inr t \<and> P t \<and> (m t :: nat) < m s"
  shows "\<exists>t. rust_while c f s = Inr t \<and> P t \<and> \<not> c t"
  using assms(1)
proof (induction "m s" arbitrary: s rule: less_induct)
  case less
  show ?case
  proof (cases "c s")
    case True
    with assms(2) [OF less.prems] obtain t where "f s = Inr t" "P t" "m t < m s" by auto
    with less.hyps [of t] True show ?thesis by (simp add: rust_while_unfold [of c f s])
  next
    case False
    with less.prems show ?thesis by simp
  qed
qed

section \<open>Slices\<close>

text \<open>\<open>&xs[..n]\<close>, \<open>&xs[n..]\<close>, \<open>&xs[a..b]\<close> and \<open>xs[i]\<close> panic out of range.\<close>

definition slice_to :: "'a list \<Rightarrow> usize \<Rightarrow> 'a list res" where
  "slice_to xs n = (if n \<le> length xs then Inr (take n xs) else Inl (Panic Slice_index))"

definition slice_from :: "'a list \<Rightarrow> usize \<Rightarrow> 'a list res" where
  "slice_from xs n = (if n \<le> length xs then Inr (drop n xs) else Inl (Panic Slice_index))"

definition slice_range :: "'a list \<Rightarrow> usize \<Rightarrow> usize \<Rightarrow> 'a list res" where
  "slice_range xs a b =
     (if a \<le> b \<and> b \<le> length xs then Inr (take (b - a) (drop a xs)) else Inl (Panic Slice_index))"

definition slice_nth :: "'a list \<Rightarrow> usize \<Rightarrow> 'a res" where
  "slice_nth xs i = (if i < length xs then Inr (xs ! i) else Inl (Panic Slice_index))"

text \<open>\<open>xs.get(..n)\<close>\<close>

definition slice_get_to :: "'a list \<Rightarrow> usize \<Rightarrow> 'a list option" where
  "slice_get_to xs n = (if n \<le> length xs then Some (take n xs) else None)"

text \<open>\<open>dst.copy_from_slice(src)\<close> returns the new contents of \<open>dst\<close>.\<close>

definition copy_from_slice :: "'a list \<Rightarrow> 'a list \<Rightarrow> 'a list res" where
  "copy_from_slice dst src = (if length dst = length src then Inr src else Inl (Panic Slice_index))"

section \<open>Checked arithmetic\<close>

definition usize_add :: "usize \<Rightarrow> usize \<Rightarrow> usize res" where
  "usize_add a b = (if a + b \<le> usize_max then Inr (a + b) else Inl (Panic Arith_overflow))"

definition usize_sub :: "usize \<Rightarrow> usize \<Rightarrow> usize res" where
  "usize_sub a b = (if b \<le> a then Inr (a - b) else Inl (Panic Arith_overflow))"

definition checked_add :: "usize \<Rightarrow> usize \<Rightarrow> usize option" where
  "checked_add a b = (if a + b \<le> usize_max then Some (a + b) else None)"

definition checked_sub :: "usize \<Rightarrow> usize \<Rightarrow> usize option" where
  "checked_sub a b = (if b \<le> a then Some (a - b) else None)"

definition saturating_add :: "usize \<Rightarrow> usize \<Rightarrow> usize" where
  "saturating_add a b = min (a + b) usize_max"

lemmas slice_defs [rust_simps] =
  slice_to_def slice_from_def slice_range_def slice_nth_def slice_get_to_def copy_from_slice_def

lemmas arith_defs [rust_simps] =
  usize_add_def usize_sub_def checked_add_def checked_sub_def saturating_add_def

section \<open>List lemmas\<close>

lemma prefix_take_eq: "prefix xs ys \<Longrightarrow> n \<le> length xs \<Longrightarrow> take n ys = take n xs"
  by (auto simp: prefix_def)

lemma prefix_length_eq_take: "prefix xs ys \<longleftrightarrow> xs = take (length xs) ys"
  by (metis append_eq_conv_conj append_take_drop_id prefix_def)

lemma take_drop_append: "take m xs @ take n (drop m xs) = take (m + n) xs"
  by (simp add: take_add)

lemma prefix_take_mono: "prefix xs ys \<Longrightarrow> prefix (take n xs) (take n ys)"
  by (auto simp: prefix_def)

lemma drop_take_append_drop: "m \<le> n \<Longrightarrow> drop m (take n xs) @ drop n xs = drop m xs"
  by (metis append_take_drop_id drop_drop drop_take le_add_diff_inverse2)

lemma hd_conv_take1: "xs \<noteq> [] \<Longrightarrow> take 1 xs = [hd xs]"
  by (cases xs) auto

end
