(* ===== verification/Endian.thy ===== *)
theory Endian
  imports Prelude
begin

text \<open>
  Conversions between integers and byte arrays (\<open>from_be_bytes\<close>, \<open>to_le_bytes\<close>, ... of
  the Rust standard library), over the value of the bytes as a natural number, and the
  round trips that every reader and writer of the development rests on.
\<close>

fun le_val :: "u8 list \<Rightarrow> nat" where
  "le_val [] = 0"
| "le_val (b # bs) = unat b + 256 * le_val bs"

fun le_digits :: "nat \<Rightarrow> nat \<Rightarrow> u8 list" where
  "le_digits 0 v = []"
| "le_digits (Suc n) v = word_of_nat (v mod 256) # le_digits n (v div 256)"

definition be_val :: "u8 list \<Rightarrow> nat" where
  "be_val bs = le_val (rev bs)"

definition from_le_bytes :: "u8 list \<Rightarrow> 'a::len word" where
  "from_le_bytes bs = word_of_nat (le_val bs)"

definition from_be_bytes :: "u8 list \<Rightarrow> 'a::len word" where
  "from_be_bytes bs = from_le_bytes (rev bs)"

text \<open>\<open>size_bytes\<close> is \<open>size_of\<close>: the number of bytes of an integer type.\<close>

definition size_bytes :: "'a::len word \<Rightarrow> usize" where
  "size_bytes w = LENGTH('a) div 8"

definition to_le_bytes :: "'a::len word \<Rightarrow> u8 list" where
  "to_le_bytes w = le_digits (size_bytes w) (unat w)"

definition to_be_bytes :: "'a::len word \<Rightarrow> u8 list" where
  "to_be_bytes w = rev (to_le_bytes w)"

text \<open>\<open>cfg!(target_endian = "big")\<close> is the first argument of the native-endian versions.\<close>

definition from_ne_bytes :: "bool \<Rightarrow> u8 list \<Rightarrow> 'a::len word" where
  "from_ne_bytes big bs = (if big then from_be_bytes bs else from_le_bytes bs)"

definition to_ne_bytes :: "bool \<Rightarrow> 'a::len word \<Rightarrow> u8 list" where
  "to_ne_bytes big w = (if big then to_be_bytes w else to_le_bytes w)"

section \<open>Values and digits\<close>

lemma size_bytes_simps [simp]:
  "size_bytes (a :: u8) = 1" "size_bytes (b :: u16) = 2" "size_bytes (c :: u32) = 4"
  "size_bytes (d :: u64) = 8" "size_bytes (e :: u128) = 16"
  by (simp_all add: size_bytes_def)

lemma le_val_append: "le_val (xs @ ys) = le_val xs + 256 ^ length xs * le_val ys"
  by (induction xs) (auto simp: algebra_simps)

lemma unat_word_less: "unat (w :: 'a::len word) < 2 ^ LENGTH('a)"
  by (rule unsigned_less)

lemma unat_u8_less: "unat (b :: u8) < 256"
  using unat_word_less [of b] by simp

lemma le_val_less: "le_val bs < 256 ^ length bs"
proof (induction bs)
  case Nil
  then show ?case by simp
next
  case (Cons b bs)
  have "unat b < 256" by (rule unat_u8_less)
  with Cons show ?case by (simp add: algebra_simps) 
qed

lemma le_val_zeros [simp]: "le_val (replicate n 0) = 0"
  by (induction n) auto

lemma length_le_digits [simp]: "length (le_digits n v) = n"
  by (induction n v rule: le_digits.induct) auto

lemma unat_digit [simp]: "unat (word_of_nat (v mod 256) :: u8) = v mod 256"
  by (simp add: unat_of_nat take_bit_eq_mod)

lemma le_val_digits: "le_val (le_digits n v) = v mod 256 ^ n"
proof (induction n v rule: le_digits.induct)
  case (1 v)
  then show ?case by simp
next
  case (2 n v)
  then show ?case by (simp add: mod_mult2_eq)
qed

lemma le_digits_val: "length bs = n \<Longrightarrow> le_digits n (le_val bs) = bs"
proof (induction bs arbitrary: n)
  case Nil
  then show ?case by simp
next
  case (Cons b bs)
  have b: "unat b < 256" by (rule unat_u8_less)
  from Cons obtain m where "n = Suc m" "length bs = m" by auto
  with Cons.IH b show ?case by simp
qed

lemma le_digits_take: "m \<le> n \<Longrightarrow> take m (le_digits n v) = le_digits m v"
proof (induction n v arbitrary: m rule: le_digits.induct)
  case (1 v)
  then show ?case by simp
next
  case (2 n v)
  then show ?case by (cases m) auto
qed

section \<open>Round trips\<close>

lemma length_to_le_bytes [simp]: "length (to_le_bytes w) = size_bytes w"
  by (simp add: to_le_bytes_def)

lemma length_to_be_bytes [simp]: "length (to_be_bytes w) = size_bytes w"
  by (simp add: to_be_bytes_def)

lemma length_to_ne_bytes [simp]: "length (to_ne_bytes big w) = size_bytes w"
  by (simp add: to_ne_bytes_def)

lemma unat_from_le_bytes:
  assumes "8 * length bs \<le> LENGTH('a)"
  shows "unat (from_le_bytes bs :: 'a::len word) = le_val bs"
proof -
  have "(256::nat) ^ length bs = 2 ^ (8 * length bs)"
    by (simp add: power_mult)
  also have "\<dots> \<le> 2 ^ LENGTH('a)"
    using assms by simp
  finally have "le_val bs < 2 ^ LENGTH('a)"
    using le_val_less [of bs] by simp
  then show ?thesis
    by (simp add: from_le_bytes_def unat_of_nat take_bit_eq_mod)
qed

lemma unat_from_be_bytes:
  "8 * length bs \<le> LENGTH('a) \<Longrightarrow> unat (from_be_bytes bs :: 'a::len word) = be_val bs"
  by (simp add: from_be_bytes_def be_val_def unat_from_le_bytes)

lemma pow256_size_bytes:
  "LENGTH('a) mod 8 = 0 \<Longrightarrow> (256::nat) ^ size_bytes (w :: 'a::len word) = 2 ^ LENGTH('a)"
proof -
  assume "LENGTH('a) mod 8 = 0"
  then have "LENGTH('a) = 8 * (LENGTH('a) div 8)" by presburger
  then have "(2::nat) ^ LENGTH('a) = (2 ^ 8) ^ (LENGTH('a) div 8)"
    by (metis power_mult)
  then show ?thesis by (simp add: size_bytes_def)
qed

lemma from_to_le_bytes [simp]:
  assumes "LENGTH('a) mod 8 = 0"
  shows "from_le_bytes (to_le_bytes (w :: 'a::len word)) = w"
  using assms pow256_size_bytes [of w] unat_word_less [of w]
  by (simp add: from_le_bytes_def to_le_bytes_def le_val_digits)

lemma from_to_be_bytes [simp]:
  "LENGTH('a) mod 8 = 0 \<Longrightarrow> from_be_bytes (to_be_bytes (w :: 'a::len word)) = w"
  by (simp add: from_be_bytes_def to_be_bytes_def)

lemma from_to_ne_bytes [simp]:
  "LENGTH('a) mod 8 = 0 \<Longrightarrow> from_ne_bytes big (to_ne_bytes big (w :: 'a::len word)) = w"
  by (simp add: from_ne_bytes_def to_ne_bytes_def)

lemma to_from_le_bytes:
  assumes "8 * length bs = LENGTH('a)"
  shows "to_le_bytes (from_le_bytes bs :: 'a::len word) = bs"
proof -
  from assms have "LENGTH('a) div 8 = length bs" by presburger
  with assms show ?thesis
    by (simp add: to_le_bytes_def unat_from_le_bytes size_bytes_def le_digits_val)
qed

lemma to_from_be_bytes:
  "8 * length bs = LENGTH('a) \<Longrightarrow> to_be_bytes (from_be_bytes bs :: 'a::len word) = bs"
  by (simp add: to_be_bytes_def from_be_bytes_def to_from_le_bytes)

end
