(* ===== verification/Lock.thy ===== *)
theory Lock
  imports Endian
begin

text \<open>
  The on-chain lock script, \<^verbatim>\<open>contracts/dillithium-lock/src/main.rs\<close>: the error codes,
  \<open>blake2b_256\<close>, \<open>parse_witness\<close> and \<open>program_entry\<close>, and what makes them correct.

  The script calls code that is not part of the repository: the CKB syscalls (\<open>ckb_std\<close>),
  the hash (\<open>blake2b_ref\<close>) and ML-DSA-65 (\<open>fips204\<close>). These are the fields of
  \<open>lock_env\<close>, an argument of the definitions.
\<close>

section \<open>The environment of the script\<close>

datatype source = Input | Output | CellDep | HeaderDep | GroupInput | GroupOutput

record script =
  script_args :: "u8 list"

record witness_args =
  witness_lock :: "u8 list option"

record ('pk, 'err) lock_env =
  load_script :: "(script, 'err) result"
  load_tx_hash :: "(u8 list, 'err) result"
  load_witness_args :: "usize \<Rightarrow> source \<Rightarrow> (witness_args, 'err) result"
  blake2b :: "usize \<Rightarrow> u8 list \<Rightarrow> u8 list \<Rightarrow> u8 list"
  pk_len :: usize
  sig_len :: usize
  pk_try_from_bytes :: "u8 list \<Rightarrow> ('pk, 'err) result"
  pk_verify :: "'pk \<Rightarrow> u8 list \<Rightarrow> u8 list \<Rightarrow> u8 list \<Rightarrow> bool"

section \<open>Constants\<close>

text \<open>\<open>b"ckb-default-hash"\<close>\<close>

definition CKB_PERSONALIZATION :: "u8 list" where
  "CKB_PERSONALIZATION = map (\<lambda>c. word_of_nat (of_char c)) ''ckb-default-hash''"

definition ERR_INVALID_ARGS_LENGTH :: i8 where "ERR_INVALID_ARGS_LENGTH = 1"
definition ERR_INVALID_WITNESS :: i8 where "ERR_INVALID_WITNESS = 2"
definition ERR_PUBKEY_HASH_MISMATCH :: i8 where "ERR_PUBKEY_HASH_MISMATCH = 3"
definition ERR_INVALID_PUBKEY :: i8 where "ERR_INVALID_PUBKEY = 4"
definition ERR_INVALID_SIGNATURE :: i8 where "ERR_INVALID_SIGNATURE = 5"
definition ERR_SIGNATURE_VERIFICATION :: i8 where "ERR_SIGNATURE_VERIFICATION = 6"

lemmas err_defs =
  ERR_INVALID_ARGS_LENGTH_def ERR_INVALID_WITNESS_def ERR_PUBKEY_HASH_MISMATCH_def
  ERR_INVALID_PUBKEY_def ERR_INVALID_SIGNATURE_def ERR_SIGNATURE_VERIFICATION_def

section \<open>Operations\<close>

definition blake2b_256 :: "('pk, 'err) lock_env \<Rightarrow> u8 list \<Rightarrow> u8 list" where
  "blake2b_256 env data = blake2b env 32 CKB_PERSONALIZATION data"

text \<open>\<open>xs.try_into()\<close> to an array of \<open>n\<close> elements.\<close>

definition array_try_into :: "usize \<Rightarrow> 'a list \<Rightarrow> 'a list option" where
  "array_try_into n xs = (if length xs = n then Some xs else None)"

definition parse_witness :: "u8 list \<Rightarrow> (u8 list \<times> u8 list) option res" where
  "parse_witness data =
     (if length data < 8 then Inr None
      else res_bind (slice_range data 0 4) (\<lambda>len_field.
        case array_try_into 4 len_field of
          None \<Rightarrow> Inr None
        | Some len_array \<Rightarrow>
          let pubkey_len = unat (from_le_bytes len_array :: u32) in
          res_bind (usize_add 4 pubkey_len) (\<lambda>pubkey_end.
          res_bind (usize_add pubkey_end 4) (\<lambda>sig_start.
          if length data < sig_start then Inr None
          else
            res_bind (slice_range data 4 pubkey_end) (\<lambda>raw_pubkey.
            res_bind (slice_range data pubkey_end sig_start) (\<lambda>sig_field.
            case array_try_into 4 sig_field of
              None \<Rightarrow> Inr None
            | Some sig_array \<Rightarrow>
              let sig_len = unat (from_le_bytes sig_array :: u32) in
              res_bind (usize_add sig_start sig_len) (\<lambda>sig_end.
              if length data < sig_end then Inr None
              else
                res_bind (slice_range data sig_start sig_end) (\<lambda>raw_sig.
                Inr (Some (raw_pubkey, raw_sig))))))))))"

definition program_entry :: "('pk, 'err) lock_env \<Rightarrow> i8 res" where
  "program_entry env =
     (case load_script env of
        Err _ \<Rightarrow> Inr ERR_INVALID_ARGS_LENGTH
      | Ok script \<Rightarrow>
        let args_raw = script_args script in
        if length args_raw \<noteq> 32 then Inr ERR_INVALID_ARGS_LENGTH
        else case load_tx_hash env of
          Err _ \<Rightarrow> Inr ERR_INVALID_WITNESS
        | Ok tx_hash \<Rightarrow>
        (case load_witness_args env 0 GroupInput of
          Err _ \<Rightarrow> Inr ERR_INVALID_WITNESS
        | Ok witness_args \<Rightarrow>
        (case witness_lock witness_args of
          None \<Rightarrow> Inr ERR_INVALID_WITNESS
        | Some lock_field \<Rightarrow>
        res_bind (parse_witness lock_field) (\<lambda>parsed.
        case parsed of
          None \<Rightarrow> Inr ERR_INVALID_WITNESS
        | Some (raw_pubkey, raw_sig) \<Rightarrow>
        let pubkey_hash = blake2b_256 env raw_pubkey in
        if pubkey_hash \<noteq> args_raw then Inr ERR_PUBKEY_HASH_MISMATCH
        else if length raw_pubkey \<noteq> pk_len env then Inr ERR_INVALID_PUBKEY
        else case array_try_into (pk_len env) raw_pubkey of
          None \<Rightarrow> Inr ERR_INVALID_PUBKEY
        | Some pubkey_array \<Rightarrow>
        (case pk_try_from_bytes env pubkey_array of
          Err _ \<Rightarrow> Inr ERR_INVALID_PUBKEY
        | Ok public_key \<Rightarrow>
        if length raw_sig \<noteq> sig_len env then Inr ERR_INVALID_SIGNATURE
        else case array_try_into (sig_len env) raw_sig of
          None \<Rightarrow> Inr ERR_INVALID_SIGNATURE
        | Some sig_array \<Rightarrow>
        if \<not> pk_verify env public_key tx_hash sig_array [] then Inr ERR_SIGNATURE_VERIFICATION
        else Inr 0)))))"

section \<open>What the script promises\<close>

text \<open>
  The format as the README writes it: \<open>[u32 pubkey_len LE | pubkey | u32 sig_len LE | sig]\<close>.
\<close>

definition witness_format :: "u8 list \<Rightarrow> u8 list \<Rightarrow> u8 list" where
  "witness_format pk sig =
     to_le_bytes (word_of_nat (length pk) :: u32) @ pk @
     to_le_bytes (word_of_nat (length sig) :: u32) @ sig"

definition u32_sized :: "'a list \<Rightarrow> bool" where
  "u32_sized xs \<longleftrightarrow> length xs < 2 ^ 32"

text \<open>The parts of a witness: the data starts with the encoding of a public key and a signature.\<close>

definition witness_parts :: "u8 list \<Rightarrow> u8 list \<Rightarrow> u8 list \<Rightarrow> bool" where
  "witness_parts data pk sig \<longleftrightarrow>
     u32_sized pk \<and> u32_sized sig \<and> prefix (witness_format pk sig) data"

text \<open>
  The README's four steps and its table of error codes, as a relation: the inputs the script
  has loaded when it reaches the signature step, and one rule per way to end.
\<close>

definition loaded :: "('pk, 'err) lock_env \<Rightarrow> u8 list \<Rightarrow> u8 list \<Rightarrow> u8 list \<Rightarrow> bool" where
  "loaded env args tx_hash lock \<longleftrightarrow>
     (\<exists>s w. load_script env = Ok s \<and> args = script_args s \<and> length args = 32 \<and>
        load_tx_hash env = Ok tx_hash \<and> load_witness_args env 0 GroupInput = Ok w \<and>
        witness_lock w = Some lock)"

inductive lock_verdict :: "('pk, 'err) lock_env \<Rightarrow> i8 \<Rightarrow> bool" for env where
  no_script: "load_script env = Err e \<Longrightarrow> lock_verdict env 1"
| bad_args: "load_script env = Ok s \<Longrightarrow> length (script_args s) \<noteq> 32 \<Longrightarrow> lock_verdict env 1"
| no_tx_hash: "load_script env = Ok s \<Longrightarrow> length (script_args s) = 32 \<Longrightarrow>
    load_tx_hash env = Err e \<Longrightarrow> lock_verdict env 2"
| no_witness: "load_script env = Ok s \<Longrightarrow> length (script_args s) = 32 \<Longrightarrow>
    load_tx_hash env = Ok h \<Longrightarrow> load_witness_args env 0 GroupInput = Err e \<Longrightarrow> lock_verdict env 2"
| no_lock: "load_script env = Ok s \<Longrightarrow> length (script_args s) = 32 \<Longrightarrow>
    load_tx_hash env = Ok h \<Longrightarrow> load_witness_args env 0 GroupInput = Ok w \<Longrightarrow>
    witness_lock w = None \<Longrightarrow> lock_verdict env 2"
| malformed: "loaded env args h lock \<Longrightarrow> \<nexists>pk sig. witness_parts lock pk sig \<Longrightarrow> lock_verdict env 2"
| hash_mismatch: "loaded env args h lock \<Longrightarrow> witness_parts lock pk sig \<Longrightarrow>
    blake2b_256 env pk \<noteq> args \<Longrightarrow> lock_verdict env 3"
| pubkey_size: "loaded env args h lock \<Longrightarrow> witness_parts lock pk sig \<Longrightarrow>
    blake2b_256 env pk = args \<Longrightarrow> length pk \<noteq> pk_len env \<Longrightarrow> lock_verdict env 4"
| pubkey_decode: "loaded env args h lock \<Longrightarrow> witness_parts lock pk sig \<Longrightarrow>
    blake2b_256 env pk = args \<Longrightarrow> length pk = pk_len env \<Longrightarrow>
    pk_try_from_bytes env pk = Err e \<Longrightarrow> lock_verdict env 4"
| sig_size: "loaded env args h lock \<Longrightarrow> witness_parts lock pk sig \<Longrightarrow>
    blake2b_256 env pk = args \<Longrightarrow> length pk = pk_len env \<Longrightarrow>
    pk_try_from_bytes env pk = Ok key \<Longrightarrow> length sig \<noteq> sig_len env \<Longrightarrow> lock_verdict env 5"
| sig_wrong: "loaded env args h lock \<Longrightarrow> witness_parts lock pk sig \<Longrightarrow>
    blake2b_256 env pk = args \<Longrightarrow> length pk = pk_len env \<Longrightarrow>
    pk_try_from_bytes env pk = Ok key \<Longrightarrow> length sig = sig_len env \<Longrightarrow>
    \<not> pk_verify env key h sig [] \<Longrightarrow> lock_verdict env 6"
| accepted: "loaded env args h lock \<Longrightarrow> witness_parts lock pk sig \<Longrightarrow>
    blake2b_256 env pk = args \<Longrightarrow> length pk = pk_len env \<Longrightarrow>
    pk_try_from_bytes env pk = Ok key \<Longrightarrow> length sig = sig_len env \<Longrightarrow>
    pk_verify env key h sig [] \<Longrightarrow> lock_verdict env 0"

text \<open>Where the two lengths of a witness lie, as the parser reads them.\<close>

definition pubkey_len_of :: "u8 list \<Rightarrow> nat" where
  "pubkey_len_of data = unat (from_le_bytes (take 4 data) :: u32)"

definition sig_len_of :: "u8 list \<Rightarrow> nat" where
  "sig_len_of data = unat (from_le_bytes (take 4 (drop (4 + pubkey_len_of data) data)) :: u32)"

section \<open>Parsing the witness\<close>

lemma unat_length_u32 [simp]: "u32_sized xs \<Longrightarrow> unat (word_of_nat (length xs) :: u32) = length xs"
  by (simp add: u32_sized_def unat_of_nat take_bit_eq_mod)

lemma from_to_le_u32: "from_le_bytes (to_le_bytes (w :: u32)) = w"
  by simp

lemma to_from_le_u32: "length bs = 4 \<Longrightarrow> to_le_bytes (from_le_bytes bs :: u32) = bs"
  by (simp add: to_from_le_bytes)

lemma unat_u32_bound: "unat (w :: u32) < 2 ^ 32"
  using unat_word_less [of w] by simp

lemma length_witness_format [simp]: "length (witness_format pk sig) = 8 + length pk + length sig"
  by (simp add: witness_format_def)

text \<open>No sum of header sizes and two 32-bit lengths leaves the 64-bit range.\<close>

lemma usize_add_u32 [simp]:
  "usize_add 4 (unat (w :: u32)) = Inr (4 + unat w)"
  "usize_add (4 + unat (w :: u32)) 4 = Inr (8 + unat w)"
  "usize_add (8 + unat (w :: u32)) (unat (v :: u32)) = Inr (8 + unat w + unat v)"
  using unat_u32_bound [of w] unat_u32_bound [of v] by (simp_all add: usize_add_def usize_max_def)

lemma parse_witness_eq:
  "parse_witness data =
     Inr (if 8 + pubkey_len_of data \<le> length data \<and>
             8 + pubkey_len_of data + sig_len_of data \<le> length data
          then Some (take (pubkey_len_of data) (drop 4 data),
                     take (sig_len_of data) (drop (8 + pubkey_len_of data) data))
          else None)"
  by (auto simp: parse_witness_def array_try_into_def pubkey_len_of_def sig_len_of_def Let_def
      slice_range_def)

lemma split_witness:
  assumes "8 + m \<le> length data" "8 + m + n \<le> length data"
  shows "data = take 4 data @ take m (drop 4 data) @ take 4 (drop (4 + m) data) @
           take n (drop (8 + m) data) @ drop (8 + m + n) data"
proof -
  have "drop (4 + m) data = take 4 (drop (4 + m) data) @ drop (8 + m) data"
    by (metis append_take_drop_id drop_drop add.assoc add.commute numeral_Bit0)
  moreover have "drop 4 data = take m (drop 4 data) @ drop (4 + m) data"
    by (metis append_take_drop_id drop_drop add.commute)
  moreover have "drop (8 + m) data = take n (drop (8 + m) data) @ drop (8 + m + n) data"
    by (metis append_take_drop_id drop_drop add.commute)
  ultimately show ?thesis
    by (metis append_take_drop_id)
qed

lemma parse_witness_format:
  assumes "u32_sized pk" "u32_sized sig"
  shows "parse_witness (witness_format pk sig @ rest) = Inr (Some (pk, sig))"
proof -
  let ?d = "witness_format pk sig @ rest"
  from assms have m: "pubkey_len_of ?d = length pk"
    by (simp add: pubkey_len_of_def witness_format_def)
  with assms have "sig_len_of ?d = length sig"
    by (simp add: sig_len_of_def witness_format_def)
  with m show ?thesis
    by (simp add: parse_witness_eq) (simp add: witness_format_def)
qed

lemma parse_witness_Some_format:
  assumes "parse_witness data = Inr (Some (pk, sig))"
  shows "u32_sized pk \<and> u32_sized sig \<and> prefix (witness_format pk sig) data"
proof -
  let ?m = "pubkey_len_of data" and ?n = "sig_len_of data"
  from assms have bounds: "8 + ?m \<le> length data" "8 + ?m + ?n \<le> length data"
    and pk: "pk = take ?m (drop 4 data)" and sig: "sig = take ?n (drop (8 + ?m) data)"
    by (auto simp: parse_witness_eq split: if_splits)
  from bounds pk sig have len: "length pk = ?m" "length sig = ?n" by auto
  have "?m < 2 ^ 32" "?n < 2 ^ 32"
    using unat_u32_bound by (auto simp: pubkey_len_of_def sig_len_of_def)
  with len have sized: "u32_sized pk" "u32_sized sig" by (auto simp: u32_sized_def)
  have "to_le_bytes (word_of_nat (length pk) :: u32) = take 4 data"
    unfolding len pubkey_len_of_def using bounds by (simp add: to_from_le_u32)
  moreover have "to_le_bytes (word_of_nat (length sig) :: u32) = take 4 (drop (4 + ?m) data)"
    unfolding len sig_len_of_def using bounds by (simp add: to_from_le_u32)
  ultimately have "data = witness_format pk sig @ drop (8 + ?m + ?n) data"
    using split_witness [OF bounds] pk sig by (simp add: witness_format_def)
  with sized show ?thesis by (metis prefixI)
qed


lemma parse_witness_Some_iff:
  "parse_witness data = Inr (Some (pk, sig)) \<longleftrightarrow> witness_parts data pk sig"
proof
  assume "witness_parts data pk sig"
  then show "parse_witness data = Inr (Some (pk, sig))"
    by (auto simp: witness_parts_def prefix_def parse_witness_format)
qed (simp add: witness_parts_def parse_witness_Some_format)

lemma parse_witness_None_iff:
  "parse_witness data = Inr None \<longleftrightarrow> (\<nexists>pk sig. witness_parts data pk sig)"
  by (auto simp: parse_witness_eq parse_witness_Some_iff [symmetric] split: if_splits)

lemma witness_parts_unique:
  "witness_parts data pk sig \<Longrightarrow> witness_parts data pk' sig' \<Longrightarrow> pk' = pk \<and> sig' = sig"
  by (simp add: parse_witness_Some_iff [symmetric])

text \<open>
  C1. The witness parser is exactly the documented format: it returns a public key and a
  signature if and only if the data starts with their encoding (32-bit little-endian length
  before each). Bytes after the encoding are ignored, not refused.
\<close>

theorem parse_witness_accepts:
  "parse_witness data = Inr (Some (pk, sig)) \<longleftrightarrow>
     length pk < 2 ^ 32 \<and> length sig < 2 ^ 32 \<and>
     (\<exists>rest. data = to_le_bytes (word_of_nat (length pk) :: u32) @ pk @
        to_le_bytes (word_of_nat (length sig) :: u32) @ sig @ rest)"
  unfolding parse_witness_Some_iff witness_parts_def u32_sized_def prefix_def witness_format_def
  by simp

text \<open>
  C2. The witness parser never panics: on any byte string it returns, without an index out of
  range and without an overflow of the offsets it adds up, although overflow checks are on.
\<close>

theorem parse_witness_no_fault: "\<exists>r. parse_witness data = Inr r"
  by (simp add: parse_witness_eq)

section \<open>The entry point\<close>

lemma program_entry_malformed:
  assumes "loaded env args h lock" "\<nexists>pk sig. witness_parts lock pk sig"
  shows "program_entry env = Inr 2"
proof -
  from assms(2) have "parse_witness lock = Inr None" by (simp add: parse_witness_None_iff)
  with assms(1) show ?thesis by (auto simp: program_entry_def loaded_def err_defs)
qed

lemma program_entry_parsed:
  assumes "loaded env args h lock" "witness_parts lock pk sig"
  shows "program_entry env = Inr (
    if blake2b_256 env pk \<noteq> args then 3
    else if length pk \<noteq> pk_len env then 4
    else case pk_try_from_bytes env pk of
      Err _ \<Rightarrow> 4
    | Ok key \<Rightarrow>
      if length sig \<noteq> sig_len env then 5
      else if pk_verify env key h sig [] then 0 else 6)"
proof -
  from assms(1) obtain s w where l: "load_script env = Ok s" "args = script_args s"
    "length args = 32" "load_tx_hash env = Ok h" "load_witness_args env 0 GroupInput = Ok w"
    "witness_lock w = Some lock" by (auto simp: loaded_def)
  from assms(2) have "parse_witness lock = Inr (Some (pk, sig))"
    by (simp add: parse_witness_Some_iff)
  with l show ?thesis
    by (simp add: program_entry_def err_defs array_try_into_def split: result.split)
qed

lemma program_entry_not_loaded:
  assumes "load_script env = Ok s" "length (script_args s) = 32"
  shows "load_tx_hash env = Err e \<Longrightarrow> program_entry env = Inr 2"
    and "load_tx_hash env = Ok h \<Longrightarrow> load_witness_args env 0 GroupInput = Err e \<Longrightarrow>
      program_entry env = Inr 2"
    and "load_tx_hash env = Ok h \<Longrightarrow> load_witness_args env 0 GroupInput = Ok w \<Longrightarrow>
      witness_lock w = None \<Longrightarrow> program_entry env = Inr 2"
  using assms by (simp_all add: program_entry_def err_defs)

lemma lock_verdict_sound: "lock_verdict env c \<Longrightarrow> program_entry env = Inr c"
  by (induction rule: lock_verdict.induct)
    (simp_all add: program_entry_malformed program_entry_parsed program_entry_not_loaded,
     simp_all add: program_entry_def err_defs)

lemma loaded_verdict: "loaded env args h lock \<Longrightarrow> \<exists>c. lock_verdict env c"
proof (cases "\<exists>pk sig. witness_parts lock pk sig")
  case True
  moreover assume "loaded env args h lock"
  ultimately obtain pk sig where w: "loaded env args h lock" "witness_parts lock pk sig" by blast
  show ?thesis
  proof (cases "pk_try_from_bytes env pk")
    case (Ok key)
    show ?thesis
    proof (cases "blake2b_256 env pk = args \<and> length pk = pk_len env")
      case True
      with w Ok show ?thesis
        by (cases "length sig = sig_len env"; cases "pk_verify env key h sig []")
          (auto intro: accepted sig_size sig_wrong)
    qed (use w in \<open>auto intro: hash_mismatch pubkey_size\<close>)
  next
    case (Err e)
    with w show ?thesis
      by (cases "blake2b_256 env pk = args"; cases "length pk = pk_len env")
        (auto intro: hash_mismatch pubkey_size pubkey_decode)
  qed
qed (auto intro: malformed)

lemma lock_verdict_total: "\<exists>c. lock_verdict env c"
proof (cases "load_script env")
  case (Ok s)
  show ?thesis
  proof (cases "length (script_args s) = 32")
    case len: True
    show ?thesis
    proof (cases "\<exists>h w lock. load_tx_hash env = Ok h \<and>
        load_witness_args env 0 GroupInput = Ok w \<and> witness_lock w = Some lock")
      case True
      with Ok len have "\<exists>h lock. loaded env (script_args s) h lock"
        by (auto simp: loaded_def)
      then show ?thesis using loaded_verdict by blast
    next
      case False
      with Ok len show ?thesis
        by (cases "load_tx_hash env"; cases "load_witness_args env 0 GroupInput")
          (auto intro: no_tx_hash no_witness no_lock)
    qed
  qed (use Ok in \<open>auto intro: bad_args\<close>)
qed (auto intro: no_script)

text \<open>
  C3. The entry point implements the documented verdict: for every environment it returns
  code \<open>c\<close> exactly when the README's steps and error table give \<open>c\<close>. In particular it
  always returns one code, never panics, and the checks are made in the documented order.
\<close>

theorem program_entry_verdict: "program_entry env = Inr c \<longleftrightarrow> lock_verdict env c"
  using lock_verdict_sound lock_verdict_total by (metis sum.inject(2))

text \<open>
  C4. The script unlocks a cell (exit code 0) exactly when the first group-input witness holds
  a public key whose personalised Blake2b-256 digest is the 32-byte script argument, the key
  has the ML-DSA-65 size and decodes, and the signature has the ML-DSA-65 size and verifies
  over the transaction hash with an empty context.
\<close>

theorem program_entry_unlocks:
  "program_entry env = Inr 0 \<longleftrightarrow>
     (\<exists>s h w lock pk sig rest key.
        load_script env = Ok s \<and> length (script_args s) = 32 \<and> load_tx_hash env = Ok h \<and>
        load_witness_args env 0 GroupInput = Ok w \<and> witness_lock w = Some lock \<and>
        length pk < 2 ^ 32 \<and> length sig < 2 ^ 32 \<and> lock = witness_format pk sig @ rest \<and>
        blake2b env 32 CKB_PERSONALIZATION pk = script_args s \<and> length pk = pk_len env \<and>
        pk_try_from_bytes env pk = Ok key \<and> length sig = sig_len env \<and>
        pk_verify env key h sig [])" (is "_ \<longleftrightarrow> ?spec")
proof
  assume "program_entry env = Inr 0"
  then have "lock_verdict env 0"
    using lock_verdict_sound lock_verdict_total by (metis sum.inject(2))
  then obtain args h lock pk sig key where
    l: "loaded env args h lock" and p: "witness_parts lock pk sig"
    and c: "blake2b_256 env pk = args" "length pk = pk_len env"
      "pk_try_from_bytes env pk = Ok key" "length sig = sig_len env" "pk_verify env key h sig []"
    by (cases rule: lock_verdict.cases) auto
  from p obtain rest where "length pk < 2 ^ 32" "length sig < 2 ^ 32"
    "lock = witness_format pk sig @ rest"
    by (auto simp: witness_parts_def u32_sized_def prefix_def)
  with l c show ?spec
    unfolding loaded_def blake2b_256_def by metis
next
  assume ?spec
  then obtain s h w lock pk sig rest key where
    a: "load_script env = Ok s" "length (script_args s) = 32" "load_tx_hash env = Ok h"
      "load_witness_args env 0 GroupInput = Ok w" "witness_lock w = Some lock"
    and b: "length pk < 2 ^ 32" "length sig < 2 ^ 32" "lock = witness_format pk sig @ rest"
    and c: "blake2b env 32 CKB_PERSONALIZATION pk = script_args s" "length pk = pk_len env"
      "pk_try_from_bytes env pk = Ok key" "length sig = sig_len env" "pk_verify env key h sig []"
    by blast
  from a have l: "loaded env (script_args s) h lock" by (auto simp: loaded_def)
  from b have p: "witness_parts lock pk sig" by (simp add: witness_parts_def u32_sized_def)
  show "program_entry env = Inr 0"
    by (rule lock_verdict_sound [OF accepted [OF l p c(1) [folded blake2b_256_def] c(2-5)]])
qed

end
