(* ===== verification/Sdk.thy ===== *)
theory Sdk
  imports Lock
begin

text \<open>
  The off-chain half of the protocol, from the TypeScript SDK: \<^verbatim>\<open>sdk/src/witness.ts\<close> builds
  and parses the witness, \<^verbatim>\<open>sdk/src/hash.ts\<close> derives the lock arguments. A thrown error is
  the left value of a sum. \<open>hashPubkey\<close> lives in the WASM module and is an argument.
  JavaScript numbers stay below \<open>2 ^ 53\<close> here, so they are natural numbers.
\<close>

type_synonym 'a js = "string + 'a"

definition LOCK_ARGS_LEN :: nat where "LOCK_ARGS_LEN = 32"
definition PUBLIC_KEY_LEN :: nat where "PUBLIC_KEY_LEN = 1952"
definition SIGNATURE_LEN :: nat where "SIGNATURE_LEN = 3309"

lemmas sdk_consts = LOCK_ARGS_LEN_def PUBLIC_KEY_LEN_def SIGNATURE_LEN_def

text \<open>\<open>output.set(src, offset)\<close> on a typed array\<close>

definition typed_array_set :: "u8 list \<Rightarrow> u8 list \<Rightarrow> nat \<Rightarrow> u8 list js" where
  "typed_array_set output src offset =
     (if offset + length src \<le> length output
      then Inr (take offset output @ src @ drop (offset + length src) output)
      else Inl ''RangeError'')"

text \<open>\<open>view.setUint32(offset, value, true)\<close> and \<open>view.getUint32(offset, true)\<close>\<close>

definition writeU32LE :: "u8 list \<Rightarrow> nat \<Rightarrow> nat \<Rightarrow> u8 list js" where
  "writeU32LE view offset value = typed_array_set view (to_le_bytes (word_of_nat value :: u32)) offset"

definition getUint32LE :: "u8 list \<Rightarrow> nat \<Rightarrow> nat js" where
  "getUint32LE view offset =
     (if offset + 4 \<le> length view
      then Inr (unat (from_le_bytes (take 4 (drop offset view)) :: u32))
      else Inl ''RangeError'')"

text \<open>\<open>input.slice(a, b)\<close> clamps its bounds.\<close>

definition typed_array_slice :: "u8 list \<Rightarrow> nat \<Rightarrow> nat \<Rightarrow> u8 list" where
  "typed_array_slice input a b = take (b - a) (drop a input)"

definition buildWitnessLock :: "u8 list \<Rightarrow> u8 list \<Rightarrow> u8 list js" where
  "buildWitnessLock publicKeyBytes signatureBytes =
     (if length publicKeyBytes \<noteq> PUBLIC_KEY_LEN then Inl ''public key size''
      else if length signatureBytes \<noteq> SIGNATURE_LEN then Inl ''signature size''
      else
        let output = replicate (4 + length publicKeyBytes + 4 + length signatureBytes) 0 in
        res_bind (writeU32LE output 0 (length publicKeyBytes)) (\<lambda>output.
        res_bind (typed_array_set output publicKeyBytes 4) (\<lambda>output.
        res_bind (writeU32LE output (4 + length publicKeyBytes) (length signatureBytes)) (\<lambda>output.
        typed_array_set output signatureBytes (8 + length publicKeyBytes)))))"

definition parseWitnessLock :: "u8 list \<Rightarrow> (u8 list \<times> u8 list) js" where
  "parseWitnessLock input =
     (if length input < 8 then Inl ''witness lock is too short''
      else
        res_bind (getUint32LE input 0) (\<lambda>publicKeyLen.
        let publicKeyStart = 4; publicKeyEnd = publicKeyStart + publicKeyLen in
        if length input < publicKeyEnd + 4 then Inl ''missing the signature length field''
        else
          res_bind (getUint32LE input publicKeyEnd) (\<lambda>signatureLen.
          let signatureStart = publicKeyEnd + 4; signatureEnd = signatureStart + signatureLen in
          if length input \<noteq> signatureEnd then Inl ''length does not match encoded contents''
          else
            let publicKey = typed_array_slice input publicKeyStart publicKeyEnd;
                signature = typed_array_slice input signatureStart signatureEnd in
            if length publicKey \<noteq> PUBLIC_KEY_LEN then Inl ''public key size''
            else if length signature \<noteq> SIGNATURE_LEN then Inl ''signature size''
            else Inr (publicKey, signature))))"

definition computeLockArgs :: "(u8 list \<Rightarrow> u8 list) \<Rightarrow> u8 list \<Rightarrow> u8 list js" where
  "computeLockArgs hashPubkey publicKey =
     (let output = hashPubkey publicKey in
      if length output \<noteq> LOCK_ARGS_LEN then Inl ''lock args size'' else Inr output)"

section \<open>The builder and the parser\<close>

definition sdk_sized :: "u8 list \<Rightarrow> u8 list \<Rightarrow> bool" where
  "sdk_sized pk sig \<longleftrightarrow> length pk = PUBLIC_KEY_LEN \<and> length sig = SIGNATURE_LEN"

lemma sdk_sized_u32: "sdk_sized pk sig \<Longrightarrow> u32_sized pk \<and> u32_sized sig"
  by (simp add: sdk_sized_def u32_sized_def sdk_consts)

lemma buildWitnessLock_eq:
  "buildWitnessLock pk sig = Inr w \<longleftrightarrow> sdk_sized pk sig \<and> w = witness_format pk sig"
  by (auto simp: buildWitnessLock_def sdk_sized_def writeU32LE_def typed_array_set_def Let_def
      witness_format_def drop_replicate)

lemma getUint32LE_lengths:
  "8 \<le> length w \<Longrightarrow> getUint32LE w 0 = Inr (pubkey_len_of w)"
  "8 + pubkey_len_of w \<le> length w \<Longrightarrow> getUint32LE w (4 + pubkey_len_of w) = Inr (sig_len_of w)"
  by (simp_all add: getUint32LE_def pubkey_len_of_def sig_len_of_def)

text \<open>The SDK's parser is the contract's, with the exact length and the key sizes required.\<close>

lemma parseWitnessLock_parts:
  "parseWitnessLock w = Inr (pk, sig) \<longleftrightarrow>
     parse_witness w = Inr (Some (pk, sig)) \<and>
     length w = 8 + pubkey_len_of w + sig_len_of w \<and> sdk_sized pk sig"
proof (cases "8 + pubkey_len_of w \<le> length w")
  case True
  then have "8 \<le> length w" by simp
  note len = getUint32LE_lengths(1) [OF this] getUint32LE_lengths(2) [OF True]
  show ?thesis
  proof (cases "length w = 8 + pubkey_len_of w + sig_len_of w")
    case exact: True
    have "parseWitnessLock w =
      (let p = take (pubkey_len_of w) (drop 4 w); s = take (sig_len_of w) (drop (8 + pubkey_len_of w) w)
       in if length p \<noteq> PUBLIC_KEY_LEN then Inl ''public key size''
          else if length s \<noteq> SIGNATURE_LEN then Inl ''signature size'' else Inr (p, s))"
      using len exact by (simp add: parseWitnessLock_def typed_array_slice_def)
    with exact show ?thesis
      by (auto simp: parse_witness_eq sdk_sized_def Let_def)
  next
    case False
    with True len have "parseWitnessLock w = Inl ''length does not match encoded contents''"
      by (simp add: parseWitnessLock_def)
    with False show ?thesis by simp
  qed
next
  case False
  then have "\<exists>e. parseWitnessLock w = Inl e"
    by (cases "length w < 8") (simp_all add: parseWitnessLock_def getUint32LE_lengths)
  with False show ?thesis by (auto simp: parse_witness_eq)
qed

lemma parse_witness_exact:
  assumes "parse_witness w = Inr (Some (pk, sig))"
  shows "length w = 8 + pubkey_len_of w + sig_len_of w \<longleftrightarrow> w = witness_format pk sig"
proof -
  from assms have "length pk = pubkey_len_of w" "length sig = sig_len_of w"
    by (auto simp: parse_witness_eq split: if_splits)
  moreover from assms obtain rest where "w = witness_format pk sig @ rest"
    using parse_witness_Some_format prefix_def by blast
  ultimately show ?thesis by auto
qed

lemma parseWitnessLock_iff:
  "parseWitnessLock w = Inr (pk, sig) \<longleftrightarrow> w = witness_format pk sig \<and> sdk_sized pk sig"
proof
  assume "parseWitnessLock w = Inr (pk, sig)"
  then show "w = witness_format pk sig \<and> sdk_sized pk sig"
    using parse_witness_exact by (auto simp: parseWitnessLock_parts)
next
  assume *: "w = witness_format pk sig \<and> sdk_sized pk sig"
  then have "parse_witness w = Inr (Some (pk, sig))"
    using parse_witness_format [of pk sig "[]"] sdk_sized_u32 by auto
  with * parse_witness_exact [OF this] show "parseWitnessLock w = Inr (pk, sig)"
    by (simp only: parseWitnessLock_parts simp_thms)
qed

text \<open>
  C5. End to end: a witness that the SDK builds for a public key and a signature, in a cell
  whose lock arguments the SDK computed for that key, is accepted by the on-chain script
  exactly when the signature verifies over the transaction hash; otherwise the script answers
  6. The off-chain hash is assumed to be the on-chain one, and the sizes those of ML-DSA-65.
\<close>

theorem sdk_witness_unlocks:
  assumes build: "buildWitnessLock pk sig = Inr w"
    and args: "computeLockArgs hashPubkey pk = Inr args"
    and hash: "hashPubkey pk = blake2b env 32 CKB_PERSONALIZATION pk"
    and sizes: "pk_len env = PUBLIC_KEY_LEN" "sig_len env = SIGNATURE_LEN"
    and key: "pk_try_from_bytes env pk = Ok key"
    and tx: "load_script env = Ok \<lparr>script_args = args\<rparr>" "load_tx_hash env = Ok tx_hash"
      "load_witness_args env 0 GroupInput = Ok \<lparr>witness_lock = Some w\<rparr>"
  shows "program_entry env = Inr (if pk_verify env key tx_hash sig [] then 0 else 6)"
proof -
  from build have w: "w = witness_format pk sig" and sized: "sdk_sized pk sig"
    by (simp_all add: buildWitnessLock_eq)
  then have "witness_parts w pk sig"
    by (simp add: witness_parts_def sdk_sized_u32)
  moreover from args hash have "args = blake2b_256 env pk" "length args = 32"
    by (auto simp: computeLockArgs_def blake2b_256_def sdk_consts Let_def split: if_splits)
  moreover from tx \<open>length args = 32\<close> have "loaded env args tx_hash w"
    by (simp add: loaded_def)
  ultimately show ?thesis
    using sized sizes key by (simp add: program_entry_parsed sdk_sized_def)
qed

text \<open>
  An environment with a toy hash and a signature scheme that accepts one signature, where the
  hypotheses hold.
\<close>

definition toy_env :: "u8 list \<Rightarrow> u8 list \<Rightarrow> (u8 list, unit) lock_env" where
  "toy_env pk sig =
     \<lparr>load_script = Ok \<lparr>script_args = replicate 32 7\<rparr>,
      load_tx_hash = Ok (replicate 32 9),
      load_witness_args = (\<lambda>_ _. Ok \<lparr>witness_lock = Some (witness_format pk sig)\<rparr>),
      blake2b = (\<lambda>n _ _. replicate n 7),
      pk_len = 1952, sig_len = 3309,
      pk_try_from_bytes = Ok,
      pk_verify = (\<lambda>k m s ctx. k = pk \<and> m = replicate 32 9 \<and> s = sig \<and> ctx = [])\<rparr>"

theorem sdk_witness_unlocks_witness:
  "program_entry (toy_env (replicate 1952 1) (replicate 3309 2)) = Inr 0"
proof -
  let ?pk = "replicate 1952 1 :: u8 list" and ?sig = "replicate 3309 2 :: u8 list"
  have "program_entry (toy_env ?pk ?sig) =
      Inr (if pk_verify (toy_env ?pk ?sig) ?pk (replicate 32 9) ?sig [] then 0 else 6)"
    by (rule sdk_witness_unlocks [where w = "witness_format ?pk ?sig" and args = "replicate 32 7"
        and hashPubkey = "\<lambda>_. replicate 32 7"])
      (simp_all only: buildWitnessLock_eq, simp_all add: sdk_sized_def computeLockArgs_def
        toy_env_def sdk_consts)
  then show ?thesis by (simp add: toy_env_def)
qed

text \<open>
  C6. The SDK's witness parser is the exact inverse of its builder: a byte string parses to a
  pair if and only if building from that pair gives that byte string.
\<close>

theorem sdk_witness_roundtrip:
  "parseWitnessLock w = Inr (pk, sig) \<longleftrightarrow> buildWitnessLock pk sig = Inr w"
  by (auto simp: parseWitnessLock_iff buildWitnessLock_eq)

text \<open>
  C7. The contract's parser is laxer than the SDK's: a well-formed witness followed by any
  further bytes is still accepted on chain with the same key and signature, while the SDK
  refuses it, so the witness of a valid transaction is malleable.
\<close>

theorem contract_ignores_trailing_bytes:
  assumes "buildWitnessLock pk sig = Inr w" and "rest \<noteq> []"
  shows "parse_witness (w @ rest) = Inr (Some (pk, sig)) \<and> (\<exists>e. parseWitnessLock (w @ rest) = Inl e)"
proof
  from assms(1) have w: "w = witness_format pk sig" "sdk_sized pk sig"
    by (simp_all add: buildWitnessLock_eq)
  then show parsed: "parse_witness (w @ rest) = Inr (Some (pk, sig))"
    by (simp add: parse_witness_format sdk_sized_u32)
  have "parseWitnessLock (w @ rest) \<noteq> Inr (pk', sig')" for pk' sig'
    using parsed w assms(2) parse_witness_format [of pk' sig' "[]"] sdk_sized_u32 [of pk' sig']
    by (auto simp: parseWitnessLock_iff)
  then show "\<exists>e. parseWitnessLock (w @ rest) = Inl e"
    by (metis old.prod.exhaust sumE)
qed

theorem contract_ignores_trailing_bytes_witness:
  "parse_witness (witness_format (replicate 1952 1) (replicate 3309 2) @ [0]) =
     Inr (Some (replicate 1952 1, replicate 3309 2))"
  by (rule contract_ignores_trailing_bytes [THEN conjunct1])
    (simp_all only: buildWitnessLock_eq, simp_all add: sdk_sized_def sdk_consts)

end
