(* ===== verification/Buf.thy ===== *)
theory Buf
  imports Endian
begin

text \<open>
  The trait \<open>Buf\<close> (\<^verbatim>\<open>patches/bytes/src/buf/buf_impl.rs\<close>): a cursor into a sequence of
  bytes. A trait is a record of operations, the methods an implementation provides or
  overrides; the provided methods are definitions over that record, in the order of the source.
  A method that takes \<open>&mut self\<close> returns the new \<open>self\<close>.

  The contract of the trait, which the documentation states in prose, is the locale
  \<open>buf_core_contract\<close> (\<open>remaining\<close>, \<open>chunk\<close>, \<open>advance\<close>) and its extension
  \<open>buf_contract\<close> (\<open>copy_to_slice\<close>); everything about the provided methods is proved
  once, inside them.
\<close>

section \<open>The operations of an implementation\<close>

record 'b buf_core =
  remaining :: "'b \<Rightarrow> usize"
  chunk :: "'b \<Rightarrow> u8 list"
  advance :: "'b \<Rightarrow> usize \<Rightarrow> 'b res"

text \<open>
  \<open>copy_to_slice\<close> and \<open>chunks_vectored\<close> have a default that implementations override. A
  destination slice is passed with its contents and returned with the new ones.
\<close>

record 'b buf = "'b buf_core" +
  copy_to_slice :: "'b \<Rightarrow> u8 list \<Rightarrow> (u8 list \<times> 'b) res"
  chunks_vectored :: "'b \<Rightarrow> u8 list list \<Rightarrow> (u8 list list \<times> usize) res"

section \<open>Panics\<close>

definition panic_advance :: "try_get_error \<Rightarrow> 'a res" where
  "panic_advance error_info = Inl (Panic (Panic_advance error_info))"

definition panic_does_not_fit :: "usize \<Rightarrow> usize \<Rightarrow> 'a res" where
  "panic_does_not_fit sz nbytes = Inl (Panic (Panic_does_not_fit sz nbytes))"

section \<open>Provided methods\<close>

definition has_remaining :: "('b, 'z) buf_core_scheme \<Rightarrow> 'b \<Rightarrow> bool" where
  "has_remaining B b \<longleftrightarrow> remaining B b > 0"

text \<open>
  The state of the copy loop: the part of \<open>dst\<close> already written, the rest of \<open>dst\<close>, and
  the buffer.
\<close>

definition try_copy_step ::
  "('b, 'z) buf_core_scheme \<Rightarrow> u8 list \<times> u8 list \<times> 'b \<Rightarrow> (u8 list \<times> u8 list \<times> 'b) res" where
  "try_copy_step B = (\<lambda>(written, dst, b).
     let src = chunk B b; cnt = min (length src) (length dst) in
     res_bind (slice_to src cnt) (\<lambda>src_part.
     res_bind (slice_to dst cnt) (\<lambda>dst_part.
     res_bind (copy_from_slice dst_part src_part) (\<lambda>copied.
     res_bind (slice_from dst cnt) (\<lambda>dst_rest.
     res_bind (advance B b cnt) (\<lambda>b. Inr (written @ copied, dst_rest, b)))))))"

definition try_copy_to_slice ::
  "('b, 'z) buf_core_scheme \<Rightarrow> 'b \<Rightarrow> u8 list \<Rightarrow>
     ((unit, try_get_error) result \<times> u8 list \<times> 'b) res" where
  "try_copy_to_slice B b dst =
     (if remaining B b < length dst
      then Inr (Err \<lparr>requested = length dst, available = remaining B b\<rparr>, dst, b)
      else
        res_bind (rust_while (\<lambda>(written, dst, b). dst \<noteq> []) (try_copy_step B) ([], dst, b))
          (\<lambda>(written, dst, b). Inr (Ok (), written, b)))"

definition copy_to_slice_default ::
  "('b, 'z) buf_core_scheme \<Rightarrow> 'b \<Rightarrow> u8 list \<Rightarrow> (u8 list \<times> 'b) res" where
  "copy_to_slice_default B b dst =
     res_bind (try_copy_to_slice B b dst) (\<lambda>(r, dst, b).
     res_bind (unwrap_or_else r panic_advance) (\<lambda>_. Inr (dst, b)))"

definition chunks_vectored_default ::
  "('b, 'z) buf_core_scheme \<Rightarrow> 'b \<Rightarrow> u8 list list \<Rightarrow> (u8 list list \<times> usize) res" where
  "chunks_vectored_default B b dst =
     (if dst = [] then Inr (dst, 0)
      else if has_remaining B b then Inr (dst[0 := chunk B b], 1)
      else Inr (dst, 0))"

text \<open>The three arms of \<open>buf_try_get_impl!\<close> and of \<open>buf_get_impl!\<close>\<close>

definition buf_try_get_impl ::
  "('b, 'z) buf_scheme \<Rightarrow> usize \<Rightarrow> (u8 list \<Rightarrow> 'a) \<Rightarrow> 'b \<Rightarrow>
     (('a, try_get_error) result \<times> 'b) res" where
  "buf_try_get_impl B SIZE conv b =
     (if remaining B b < SIZE
      then Inr (Err \<lparr>requested = SIZE, available = remaining B b\<rparr>, b)
      else case map_option conv (slice_get_to (chunk B b) SIZE) of
        Some ret \<Rightarrow> res_bind (advance B b SIZE) (\<lambda>b. Inr (Ok ret, b))
      | None \<Rightarrow>
          res_bind (copy_to_slice B b (replicate SIZE 0)) (\<lambda>(buf, b). Inr (Ok (conv buf), b)))"

definition buf_try_get_le_impl ::
  "('b, 'z) buf_core_scheme \<Rightarrow> usize \<Rightarrow> usize \<Rightarrow> 'b \<Rightarrow>
     (('a::len word, try_get_error) result \<times> 'b) res" where
  "buf_try_get_le_impl B SIZE len_to_read b =
     (case slice_get_to (replicate SIZE 0) len_to_read of
        None \<Rightarrow> panic_does_not_fit SIZE len_to_read
      | Some subslice \<Rightarrow>
          res_bind (try_copy_to_slice B b subslice) (\<lambda>(r, subslice, b).
          case r of
            Err e \<Rightarrow> Inr (Err e, b)
          | Ok _ \<Rightarrow> Inr (Ok (from_le_bytes (subslice @ replicate (SIZE - len_to_read) 0)), b)))"

definition buf_try_get_be_impl ::
  "('b, 'z) buf_core_scheme \<Rightarrow> usize \<Rightarrow> usize \<Rightarrow> 'b \<Rightarrow>
     (('a::len word, try_get_error) result \<times> 'b) res" where
  "buf_try_get_be_impl B SIZE len_to_read b =
     (case checked_sub SIZE len_to_read of
        None \<Rightarrow> panic_does_not_fit SIZE len_to_read
      | Some slice_at \<Rightarrow>
          res_bind (slice_from (replicate SIZE 0) slice_at) (\<lambda>tail.
          res_bind (try_copy_to_slice B b tail) (\<lambda>(r, tail, b).
          case r of
            Err e \<Rightarrow> Inr (Err e, b)
          | Ok _ \<Rightarrow> Inr (Ok (from_be_bytes (replicate slice_at 0 @ tail)), b))))"

text \<open>\<open>.unwrap_or_else(|error| panic_advance(&error))\<close>\<close>

definition or_panic_advance ::
  "(('a, try_get_error) result \<times> 'b) res \<Rightarrow> ('a \<times> 'b) res" where
  "or_panic_advance m =
     res_bind m (\<lambda>(r, b). res_bind (unwrap_or_else r panic_advance) (\<lambda>v. Inr (v, b)))"

definition buf_get_impl ::
  "('b, 'z) buf_scheme \<Rightarrow> usize \<Rightarrow> (u8 list \<Rightarrow> 'a) \<Rightarrow> 'b \<Rightarrow> ('a \<times> 'b) res" where
  "buf_get_impl B SIZE conv b = or_panic_advance (buf_try_get_impl B SIZE conv b)"

definition buf_get_le_impl ::
  "('b, 'z) buf_core_scheme \<Rightarrow> usize \<Rightarrow> usize \<Rightarrow> 'b \<Rightarrow> ('a::len word \<times> 'b) res" where
  "buf_get_le_impl B SIZE len_to_read b = or_panic_advance (buf_try_get_le_impl B SIZE len_to_read b)"

definition buf_get_be_impl ::
  "('b, 'z) buf_core_scheme \<Rightarrow> usize \<Rightarrow> usize \<Rightarrow> 'b \<Rightarrow> ('a::len word \<times> 'b) res" where
  "buf_get_be_impl B SIZE len_to_read b = or_panic_advance (buf_try_get_be_impl B SIZE len_to_read b)"

text \<open>
  \<open>sign_extend\<close>: with overflow checks, \<open>8 - nbytes\<close> and a shift by 64 bits panic.
\<close>

definition sign_extend :: "u64 \<Rightarrow> usize \<Rightarrow> i64 res" where
  "sign_extend val nbytes =
     res_bind (usize_sub 8 nbytes) (\<lambda>d.
     let shift = d * 8 in
     if shift \<ge> 64 then Inl (Panic Arith_overflow)
     else Inr (signed_drop_bit shift (push_bit shift val)))"

definition get_u8 :: "('b, 'z) buf_core_scheme \<Rightarrow> 'b \<Rightarrow> (u8 \<times> 'b) res" where
  "get_u8 B b =
     (if remaining B b < 1 then panic_advance \<lparr>requested = 1, available = 0\<rparr>
      else
        res_bind (slice_nth (chunk B b) 0) (\<lambda>ret.
        res_bind (advance B b 1) (\<lambda>b. Inr (ret, b))))"

definition get_i8 :: "('b, 'z) buf_core_scheme \<Rightarrow> 'b \<Rightarrow> (i8 \<times> 'b) res" where
  "get_i8 B b =
     (if remaining B b < 1 then panic_advance \<lparr>requested = 1, available = 0\<rparr>
      else
        res_bind (slice_nth (chunk B b) 0) (\<lambda>ret.
        res_bind (advance B b 1) (\<lambda>b. Inr (ret, b))))"

definition try_get_u8 :: "('b, 'z) buf_core_scheme \<Rightarrow> 'b \<Rightarrow> ((u8, try_get_error) result \<times> 'b) res" where
  "try_get_u8 B b =
     (if remaining B b < 1
      then Inr (Err \<lparr>requested = 1, available = remaining B b\<rparr>, b)
      else
        res_bind (slice_nth (chunk B b) 0) (\<lambda>ret.
        res_bind (advance B b 1) (\<lambda>b. Inr (Ok ret, b))))"

definition try_get_i8 :: "('b, 'z) buf_core_scheme \<Rightarrow> 'b \<Rightarrow> ((i8, try_get_error) result \<times> 'b) res" where
  "try_get_i8 B b =
     (if remaining B b < 1
      then Inr (Err \<lparr>requested = 1, available = remaining B b\<rparr>, b)
      else
        res_bind (slice_nth (chunk B b) 0) (\<lambda>ret.
        res_bind (advance B b 1) (\<lambda>b. Inr (Ok ret, b))))"

definition get_u16 :: "('b, 'z) buf_scheme \<Rightarrow> 'b \<Rightarrow> (u16 \<times> 'b) res" where
  "get_u16 B b = buf_get_impl B 2 (from_be_bytes :: u8 list \<Rightarrow> u16) b"

definition get_u16_le :: "('b, 'z) buf_scheme \<Rightarrow> 'b \<Rightarrow> (u16 \<times> 'b) res" where
  "get_u16_le B b = buf_get_impl B 2 (from_le_bytes :: u8 list \<Rightarrow> u16) b"

definition get_u16_ne :: "bool \<Rightarrow> ('b, 'z) buf_scheme \<Rightarrow> 'b \<Rightarrow> (u16 \<times> 'b) res" where
  "get_u16_ne big B b = buf_get_impl B 2 (from_ne_bytes big :: u8 list \<Rightarrow> u16) b"

definition get_i16 :: "('b, 'z) buf_scheme \<Rightarrow> 'b \<Rightarrow> (i16 \<times> 'b) res" where
  "get_i16 B b = buf_get_impl B 2 (from_be_bytes :: u8 list \<Rightarrow> i16) b"

definition get_i16_le :: "('b, 'z) buf_scheme \<Rightarrow> 'b \<Rightarrow> (i16 \<times> 'b) res" where
  "get_i16_le B b = buf_get_impl B 2 (from_le_bytes :: u8 list \<Rightarrow> i16) b"

definition get_i16_ne :: "bool \<Rightarrow> ('b, 'z) buf_scheme \<Rightarrow> 'b \<Rightarrow> (i16 \<times> 'b) res" where
  "get_i16_ne big B b = buf_get_impl B 2 (from_ne_bytes big :: u8 list \<Rightarrow> i16) b"

definition get_u32 :: "('b, 'z) buf_scheme \<Rightarrow> 'b \<Rightarrow> (u32 \<times> 'b) res" where
  "get_u32 B b = buf_get_impl B 4 (from_be_bytes :: u8 list \<Rightarrow> u32) b"

definition get_u32_le :: "('b, 'z) buf_scheme \<Rightarrow> 'b \<Rightarrow> (u32 \<times> 'b) res" where
  "get_u32_le B b = buf_get_impl B 4 (from_le_bytes :: u8 list \<Rightarrow> u32) b"

definition get_u32_ne :: "bool \<Rightarrow> ('b, 'z) buf_scheme \<Rightarrow> 'b \<Rightarrow> (u32 \<times> 'b) res" where
  "get_u32_ne big B b = buf_get_impl B 4 (from_ne_bytes big :: u8 list \<Rightarrow> u32) b"

definition get_i32 :: "('b, 'z) buf_scheme \<Rightarrow> 'b \<Rightarrow> (i32 \<times> 'b) res" where
  "get_i32 B b = buf_get_impl B 4 (from_be_bytes :: u8 list \<Rightarrow> i32) b"

definition get_i32_le :: "('b, 'z) buf_scheme \<Rightarrow> 'b \<Rightarrow> (i32 \<times> 'b) res" where
  "get_i32_le B b = buf_get_impl B 4 (from_le_bytes :: u8 list \<Rightarrow> i32) b"

definition get_i32_ne :: "bool \<Rightarrow> ('b, 'z) buf_scheme \<Rightarrow> 'b \<Rightarrow> (i32 \<times> 'b) res" where
  "get_i32_ne big B b = buf_get_impl B 4 (from_ne_bytes big :: u8 list \<Rightarrow> i32) b"

definition get_u64 :: "('b, 'z) buf_scheme \<Rightarrow> 'b \<Rightarrow> (u64 \<times> 'b) res" where
  "get_u64 B b = buf_get_impl B 8 (from_be_bytes :: u8 list \<Rightarrow> u64) b"

definition get_u64_le :: "('b, 'z) buf_scheme \<Rightarrow> 'b \<Rightarrow> (u64 \<times> 'b) res" where
  "get_u64_le B b = buf_get_impl B 8 (from_le_bytes :: u8 list \<Rightarrow> u64) b"

definition get_u64_ne :: "bool \<Rightarrow> ('b, 'z) buf_scheme \<Rightarrow> 'b \<Rightarrow> (u64 \<times> 'b) res" where
  "get_u64_ne big B b = buf_get_impl B 8 (from_ne_bytes big :: u8 list \<Rightarrow> u64) b"

definition get_i64 :: "('b, 'z) buf_scheme \<Rightarrow> 'b \<Rightarrow> (i64 \<times> 'b) res" where
  "get_i64 B b = buf_get_impl B 8 (from_be_bytes :: u8 list \<Rightarrow> i64) b"

definition get_i64_le :: "('b, 'z) buf_scheme \<Rightarrow> 'b \<Rightarrow> (i64 \<times> 'b) res" where
  "get_i64_le B b = buf_get_impl B 8 (from_le_bytes :: u8 list \<Rightarrow> i64) b"

definition get_i64_ne :: "bool \<Rightarrow> ('b, 'z) buf_scheme \<Rightarrow> 'b \<Rightarrow> (i64 \<times> 'b) res" where
  "get_i64_ne big B b = buf_get_impl B 8 (from_ne_bytes big :: u8 list \<Rightarrow> i64) b"

definition get_u128 :: "('b, 'z) buf_scheme \<Rightarrow> 'b \<Rightarrow> (u128 \<times> 'b) res" where
  "get_u128 B b = buf_get_impl B 16 (from_be_bytes :: u8 list \<Rightarrow> u128) b"

definition get_u128_le :: "('b, 'z) buf_scheme \<Rightarrow> 'b \<Rightarrow> (u128 \<times> 'b) res" where
  "get_u128_le B b = buf_get_impl B 16 (from_le_bytes :: u8 list \<Rightarrow> u128) b"

definition get_u128_ne :: "bool \<Rightarrow> ('b, 'z) buf_scheme \<Rightarrow> 'b \<Rightarrow> (u128 \<times> 'b) res" where
  "get_u128_ne big B b = buf_get_impl B 16 (from_ne_bytes big :: u8 list \<Rightarrow> u128) b"

definition get_i128 :: "('b, 'z) buf_scheme \<Rightarrow> 'b \<Rightarrow> (i128 \<times> 'b) res" where
  "get_i128 B b = buf_get_impl B 16 (from_be_bytes :: u8 list \<Rightarrow> i128) b"

definition get_i128_le :: "('b, 'z) buf_scheme \<Rightarrow> 'b \<Rightarrow> (i128 \<times> 'b) res" where
  "get_i128_le B b = buf_get_impl B 16 (from_le_bytes :: u8 list \<Rightarrow> i128) b"

definition get_i128_ne :: "bool \<Rightarrow> ('b, 'z) buf_scheme \<Rightarrow> 'b \<Rightarrow> (i128 \<times> 'b) res" where
  "get_i128_ne big B b = buf_get_impl B 16 (from_ne_bytes big :: u8 list \<Rightarrow> i128) b"

definition get_uint :: "('b, 'z) buf_scheme \<Rightarrow> 'b \<Rightarrow> usize \<Rightarrow> (u64 \<times> 'b) res" where
  "get_uint B b nbytes = buf_get_be_impl B 8 nbytes b"

definition get_uint_le :: "('b, 'z) buf_scheme \<Rightarrow> 'b \<Rightarrow> usize \<Rightarrow> (u64 \<times> 'b) res" where
  "get_uint_le B b nbytes = buf_get_le_impl B 8 nbytes b"

definition get_uint_ne :: "bool \<Rightarrow> ('b, 'z) buf_scheme \<Rightarrow> 'b \<Rightarrow> usize \<Rightarrow> (u64 \<times> 'b) res" where
  "get_uint_ne big B b nbytes = (if big then get_uint B b nbytes else get_uint_le B b nbytes)"

definition get_int :: "('b, 'z) buf_scheme \<Rightarrow> 'b \<Rightarrow> usize \<Rightarrow> (i64 \<times> 'b) res" where
  "get_int B b nbytes =
     res_bind (get_uint B b nbytes) (\<lambda>(val, b).
     res_bind (sign_extend val nbytes) (\<lambda>r. Inr (r, b)))"

definition get_int_le :: "('b, 'z) buf_scheme \<Rightarrow> 'b \<Rightarrow> usize \<Rightarrow> (i64 \<times> 'b) res" where
  "get_int_le B b nbytes =
     res_bind (get_uint_le B b nbytes) (\<lambda>(val, b).
     res_bind (sign_extend val nbytes) (\<lambda>r. Inr (r, b)))"

definition get_int_ne :: "bool \<Rightarrow> ('b, 'z) buf_scheme \<Rightarrow> 'b \<Rightarrow> usize \<Rightarrow> (i64 \<times> 'b) res" where
  "get_int_ne big B b nbytes = (if big then get_int B b nbytes else get_int_le B b nbytes)"

definition get_f32 :: "('b, 'z) buf_scheme \<Rightarrow> 'b \<Rightarrow> (f32 \<times> 'b) res" where
  "get_f32 B b = res_bind (get_u32 B b) (\<lambda>(n, b). Inr (F32 n, b))"

definition get_f32_le :: "('b, 'z) buf_scheme \<Rightarrow> 'b \<Rightarrow> (f32 \<times> 'b) res" where
  "get_f32_le B b = res_bind (get_u32_le B b) (\<lambda>(n, b). Inr (F32 n, b))"

definition get_f32_ne :: "bool \<Rightarrow> ('b, 'z) buf_scheme \<Rightarrow> 'b \<Rightarrow> (f32 \<times> 'b) res" where
  "get_f32_ne big B b = res_bind (get_u32_ne big B b) (\<lambda>(n, b). Inr (F32 n, b))"

definition get_f64 :: "('b, 'z) buf_scheme \<Rightarrow> 'b \<Rightarrow> (f64 \<times> 'b) res" where
  "get_f64 B b = res_bind (get_u64 B b) (\<lambda>(n, b). Inr (F64 n, b))"

definition get_f64_le :: "('b, 'z) buf_scheme \<Rightarrow> 'b \<Rightarrow> (f64 \<times> 'b) res" where
  "get_f64_le B b = res_bind (get_u64_le B b) (\<lambda>(n, b). Inr (F64 n, b))"

definition get_f64_ne :: "bool \<Rightarrow> ('b, 'z) buf_scheme \<Rightarrow> 'b \<Rightarrow> (f64 \<times> 'b) res" where
  "get_f64_ne big B b = res_bind (get_u64_ne big B b) (\<lambda>(n, b). Inr (F64 n, b))"

definition try_get_u16 :: "('b, 'z) buf_scheme \<Rightarrow> 'b \<Rightarrow> ((u16, try_get_error) result \<times> 'b) res" where
  "try_get_u16 B b = buf_try_get_impl B 2 (from_be_bytes :: u8 list \<Rightarrow> u16) b"

definition try_get_u16_le :: "('b, 'z) buf_scheme \<Rightarrow> 'b \<Rightarrow> ((u16, try_get_error) result \<times> 'b) res" where
  "try_get_u16_le B b = buf_try_get_impl B 2 (from_le_bytes :: u8 list \<Rightarrow> u16) b"

definition try_get_u16_ne :: "bool \<Rightarrow> ('b, 'z) buf_scheme \<Rightarrow> 'b \<Rightarrow> ((u16, try_get_error) result \<times> 'b) res" where
  "try_get_u16_ne big B b = buf_try_get_impl B 2 (from_ne_bytes big :: u8 list \<Rightarrow> u16) b"

definition try_get_i16 :: "('b, 'z) buf_scheme \<Rightarrow> 'b \<Rightarrow> ((i16, try_get_error) result \<times> 'b) res" where
  "try_get_i16 B b = buf_try_get_impl B 2 (from_be_bytes :: u8 list \<Rightarrow> i16) b"

definition try_get_i16_le :: "('b, 'z) buf_scheme \<Rightarrow> 'b \<Rightarrow> ((i16, try_get_error) result \<times> 'b) res" where
  "try_get_i16_le B b = buf_try_get_impl B 2 (from_le_bytes :: u8 list \<Rightarrow> i16) b"

definition try_get_i16_ne :: "bool \<Rightarrow> ('b, 'z) buf_scheme \<Rightarrow> 'b \<Rightarrow> ((i16, try_get_error) result \<times> 'b) res" where
  "try_get_i16_ne big B b = buf_try_get_impl B 2 (from_ne_bytes big :: u8 list \<Rightarrow> i16) b"

definition try_get_u32 :: "('b, 'z) buf_scheme \<Rightarrow> 'b \<Rightarrow> ((u32, try_get_error) result \<times> 'b) res" where
  "try_get_u32 B b = buf_try_get_impl B 4 (from_be_bytes :: u8 list \<Rightarrow> u32) b"

definition try_get_u32_le :: "('b, 'z) buf_scheme \<Rightarrow> 'b \<Rightarrow> ((u32, try_get_error) result \<times> 'b) res" where
  "try_get_u32_le B b = buf_try_get_impl B 4 (from_le_bytes :: u8 list \<Rightarrow> u32) b"

definition try_get_u32_ne :: "bool \<Rightarrow> ('b, 'z) buf_scheme \<Rightarrow> 'b \<Rightarrow> ((u32, try_get_error) result \<times> 'b) res" where
  "try_get_u32_ne big B b = buf_try_get_impl B 4 (from_ne_bytes big :: u8 list \<Rightarrow> u32) b"

definition try_get_i32 :: "('b, 'z) buf_scheme \<Rightarrow> 'b \<Rightarrow> ((i32, try_get_error) result \<times> 'b) res" where
  "try_get_i32 B b = buf_try_get_impl B 4 (from_be_bytes :: u8 list \<Rightarrow> i32) b"

definition try_get_i32_le :: "('b, 'z) buf_scheme \<Rightarrow> 'b \<Rightarrow> ((i32, try_get_error) result \<times> 'b) res" where
  "try_get_i32_le B b = buf_try_get_impl B 4 (from_le_bytes :: u8 list \<Rightarrow> i32) b"

definition try_get_i32_ne :: "bool \<Rightarrow> ('b, 'z) buf_scheme \<Rightarrow> 'b \<Rightarrow> ((i32, try_get_error) result \<times> 'b) res" where
  "try_get_i32_ne big B b = buf_try_get_impl B 4 (from_ne_bytes big :: u8 list \<Rightarrow> i32) b"

definition try_get_u64 :: "('b, 'z) buf_scheme \<Rightarrow> 'b \<Rightarrow> ((u64, try_get_error) result \<times> 'b) res" where
  "try_get_u64 B b = buf_try_get_impl B 8 (from_be_bytes :: u8 list \<Rightarrow> u64) b"

definition try_get_u64_le :: "('b, 'z) buf_scheme \<Rightarrow> 'b \<Rightarrow> ((u64, try_get_error) result \<times> 'b) res" where
  "try_get_u64_le B b = buf_try_get_impl B 8 (from_le_bytes :: u8 list \<Rightarrow> u64) b"

definition try_get_u64_ne :: "bool \<Rightarrow> ('b, 'z) buf_scheme \<Rightarrow> 'b \<Rightarrow> ((u64, try_get_error) result \<times> 'b) res" where
  "try_get_u64_ne big B b = buf_try_get_impl B 8 (from_ne_bytes big :: u8 list \<Rightarrow> u64) b"

definition try_get_i64 :: "('b, 'z) buf_scheme \<Rightarrow> 'b \<Rightarrow> ((i64, try_get_error) result \<times> 'b) res" where
  "try_get_i64 B b = buf_try_get_impl B 8 (from_be_bytes :: u8 list \<Rightarrow> i64) b"

definition try_get_i64_le :: "('b, 'z) buf_scheme \<Rightarrow> 'b \<Rightarrow> ((i64, try_get_error) result \<times> 'b) res" where
  "try_get_i64_le B b = buf_try_get_impl B 8 (from_le_bytes :: u8 list \<Rightarrow> i64) b"

definition try_get_i64_ne :: "bool \<Rightarrow> ('b, 'z) buf_scheme \<Rightarrow> 'b \<Rightarrow> ((i64, try_get_error) result \<times> 'b) res" where
  "try_get_i64_ne big B b = buf_try_get_impl B 8 (from_ne_bytes big :: u8 list \<Rightarrow> i64) b"

definition try_get_u128 :: "('b, 'z) buf_scheme \<Rightarrow> 'b \<Rightarrow> ((u128, try_get_error) result \<times> 'b) res" where
  "try_get_u128 B b = buf_try_get_impl B 16 (from_be_bytes :: u8 list \<Rightarrow> u128) b"

definition try_get_u128_le :: "('b, 'z) buf_scheme \<Rightarrow> 'b \<Rightarrow> ((u128, try_get_error) result \<times> 'b) res" where
  "try_get_u128_le B b = buf_try_get_impl B 16 (from_le_bytes :: u8 list \<Rightarrow> u128) b"

definition try_get_u128_ne :: "bool \<Rightarrow> ('b, 'z) buf_scheme \<Rightarrow> 'b \<Rightarrow> ((u128, try_get_error) result \<times> 'b) res" where
  "try_get_u128_ne big B b = buf_try_get_impl B 16 (from_ne_bytes big :: u8 list \<Rightarrow> u128) b"

definition try_get_i128 :: "('b, 'z) buf_scheme \<Rightarrow> 'b \<Rightarrow> ((i128, try_get_error) result \<times> 'b) res" where
  "try_get_i128 B b = buf_try_get_impl B 16 (from_be_bytes :: u8 list \<Rightarrow> i128) b"

definition try_get_i128_le :: "('b, 'z) buf_scheme \<Rightarrow> 'b \<Rightarrow> ((i128, try_get_error) result \<times> 'b) res" where
  "try_get_i128_le B b = buf_try_get_impl B 16 (from_le_bytes :: u8 list \<Rightarrow> i128) b"

definition try_get_i128_ne :: "bool \<Rightarrow> ('b, 'z) buf_scheme \<Rightarrow> 'b \<Rightarrow> ((i128, try_get_error) result \<times> 'b) res" where
  "try_get_i128_ne big B b = buf_try_get_impl B 16 (from_ne_bytes big :: u8 list \<Rightarrow> i128) b"

definition try_get_uint :: "('b, 'z) buf_scheme \<Rightarrow> 'b \<Rightarrow> usize \<Rightarrow> ((u64, try_get_error) result \<times> 'b) res" where
  "try_get_uint B b nbytes = buf_try_get_be_impl B 8 nbytes b"

definition try_get_uint_le :: "('b, 'z) buf_scheme \<Rightarrow> 'b \<Rightarrow> usize \<Rightarrow> ((u64, try_get_error) result \<times> 'b) res" where
  "try_get_uint_le B b nbytes = buf_try_get_le_impl B 8 nbytes b"

definition try_get_uint_ne :: "bool \<Rightarrow> ('b, 'z) buf_scheme \<Rightarrow> 'b \<Rightarrow> usize \<Rightarrow> ((u64, try_get_error) result \<times> 'b) res" where
  "try_get_uint_ne big B b nbytes =
     (if big then try_get_uint B b nbytes else try_get_uint_le B b nbytes)"

definition try_get_int :: "('b, 'z) buf_scheme \<Rightarrow> 'b \<Rightarrow> usize \<Rightarrow> ((i64, try_get_error) result \<times> 'b) res" where
  "try_get_int B b nbytes = buf_try_get_be_impl B 8 nbytes b"

definition try_get_int_le :: "('b, 'z) buf_scheme \<Rightarrow> 'b \<Rightarrow> usize \<Rightarrow> ((i64, try_get_error) result \<times> 'b) res" where
  "try_get_int_le B b nbytes = buf_try_get_le_impl B 8 nbytes b"

definition try_get_int_ne :: "bool \<Rightarrow> ('b, 'z) buf_scheme \<Rightarrow> 'b \<Rightarrow> usize \<Rightarrow> ((i64, try_get_error) result \<times> 'b) res" where
  "try_get_int_ne big B b nbytes =
     (if big then try_get_int B b nbytes else try_get_int_le B b nbytes)"

definition try_get_f32 :: "('b, 'z) buf_scheme \<Rightarrow> 'b \<Rightarrow> ((f32, try_get_error) result \<times> 'b) res" where
  "try_get_f32 B b = res_bind (try_get_u32 B b) (\<lambda>(r, b).
     case r of Err e \<Rightarrow> Inr (Err e, b) | Ok n \<Rightarrow> Inr (Ok (F32 n), b))"

definition try_get_f32_le :: "('b, 'z) buf_scheme \<Rightarrow> 'b \<Rightarrow> ((f32, try_get_error) result \<times> 'b) res" where
  "try_get_f32_le B b = res_bind (try_get_u32_le B b) (\<lambda>(r, b).
     case r of Err e \<Rightarrow> Inr (Err e, b) | Ok n \<Rightarrow> Inr (Ok (F32 n), b))"

definition try_get_f32_ne :: "bool \<Rightarrow> ('b, 'z) buf_scheme \<Rightarrow> 'b \<Rightarrow> ((f32, try_get_error) result \<times> 'b) res" where
  "try_get_f32_ne big B b = res_bind (try_get_u32_ne big B b) (\<lambda>(r, b).
     case r of Err e \<Rightarrow> Inr (Err e, b) | Ok n \<Rightarrow> Inr (Ok (F32 n), b))"

definition try_get_f64 :: "('b, 'z) buf_scheme \<Rightarrow> 'b \<Rightarrow> ((f64, try_get_error) result \<times> 'b) res" where
  "try_get_f64 B b = res_bind (try_get_u64 B b) (\<lambda>(r, b).
     case r of Err e \<Rightarrow> Inr (Err e, b) | Ok n \<Rightarrow> Inr (Ok (F64 n), b))"

definition try_get_f64_le :: "('b, 'z) buf_scheme \<Rightarrow> 'b \<Rightarrow> ((f64, try_get_error) result \<times> 'b) res" where
  "try_get_f64_le B b = res_bind (try_get_u64_le B b) (\<lambda>(r, b).
     case r of Err e \<Rightarrow> Inr (Err e, b) | Ok n \<Rightarrow> Inr (Ok (F64 n), b))"

definition try_get_f64_ne :: "bool \<Rightarrow> ('b, 'z) buf_scheme \<Rightarrow> 'b \<Rightarrow> ((f64, try_get_error) result \<times> 'b) res" where
  "try_get_f64_ne big B b = res_bind (try_get_u64_ne big B b) (\<lambda>(r, b).
     case r of Err e \<Rightarrow> Inr (Err e, b) | Ok n \<Rightarrow> Inr (Ok (F64 n), b))"

text \<open>
  \<open>deref_forward_buf!\<close>: a \<open>&mut T\<close> or a \<open>Box<T>\<close> reads through to the \<open>T\<close>. The
  forwarded provided methods are those of the record, so the operations say it all.
\<close>

definition deref_forward_buf :: "'b buf \<Rightarrow> 'b buf" where
  "deref_forward_buf B =
     \<lparr>remaining = (\<lambda>b. remaining B b),
      chunk = (\<lambda>b. chunk B b),
      advance = (\<lambda>b cnt. advance B b cnt),
      copy_to_slice = (\<lambda>b dst. copy_to_slice B b dst),
      chunks_vectored = (\<lambda>b dst. chunks_vectored B b dst)\<rparr>"

section \<open>What reading means\<close>

text \<open>
  \<open>reads ok view n conv get\<close>: with at least \<open>n\<close> bytes left, \<open>get\<close> returns the next
  \<open>n\<close> bytes decoded by \<open>conv\<close> and consumes them; otherwise it panics, naming the bytes
  requested and available. \<open>try_reads\<close> returns the error instead and leaves the buffer alone.
\<close>

definition reads ::
  "('b \<Rightarrow> bool) \<Rightarrow> ('b \<Rightarrow> u8 list) \<Rightarrow> usize \<Rightarrow> (u8 list \<Rightarrow> 'a) \<Rightarrow> ('b \<Rightarrow> ('a \<times> 'b) res) \<Rightarrow> bool" where
  "reads ok view n conv get \<longleftrightarrow>
     (\<forall>b. ok b \<longrightarrow>
       (if n \<le> length (view b)
        then \<exists>b'. get b = Inr (conv (take n (view b)), b') \<and> ok b' \<and> view b' = drop n (view b)
        else get b = Inl (Panic (Panic_advance \<lparr>requested = n, available = length (view b)\<rparr>))))"

definition try_reads ::
  "('b \<Rightarrow> bool) \<Rightarrow> ('b \<Rightarrow> u8 list) \<Rightarrow> usize \<Rightarrow> (u8 list \<Rightarrow> 'a) \<Rightarrow>
     ('b \<Rightarrow> (('a, try_get_error) result \<times> 'b) res) \<Rightarrow> bool" where
  "try_reads ok view n conv get \<longleftrightarrow>
     (\<forall>b. ok b \<longrightarrow>
       (if n \<le> length (view b)
        then \<exists>b'. get b = Inr (Ok (conv (take n (view b))), b') \<and> ok b' \<and> view b' = drop n (view b)
        else get b = Inr (Err \<lparr>requested = n, available = length (view b)\<rparr>, b)))"

text \<open>The two's complement value of an \<open>n\<close>-byte integer\<close>

definition signed_value :: "usize \<Rightarrow> nat \<Rightarrow> int" where
  "signed_value n v = (if v < 2 ^ (8 * n - 1) then int v else int v - 2 ^ (8 * n))"

lemma readsI:
  assumes "\<And>b. ok b \<Longrightarrow> n \<le> length (view b) \<Longrightarrow>
      \<exists>b'. get b = Inr (conv (take n (view b)), b') \<and> ok b' \<and> view b' = drop n (view b)"
    and "\<And>b. ok b \<Longrightarrow> length (view b) < n \<Longrightarrow>
      get b = Inl (Panic (Panic_advance \<lparr>requested = n, available = length (view b)\<rparr>))"
  shows "reads ok view n conv get"
  using assms by (auto simp: reads_def not_le)

lemma try_readsI:
  assumes "\<And>b. ok b \<Longrightarrow> n \<le> length (view b) \<Longrightarrow>
      \<exists>b'. get b = Inr (Ok (conv (take n (view b))), b') \<and> ok b' \<and> view b' = drop n (view b)"
    and "\<And>b. ok b \<Longrightarrow> length (view b) < n \<Longrightarrow>
      get b = Inr (Err \<lparr>requested = n, available = length (view b)\<rparr>, b)"
  shows "try_reads ok view n conv get"
  using assms by (auto simp: try_reads_def not_le)

lemma readsD:
  "reads ok view n conv get \<Longrightarrow> ok b \<Longrightarrow> n \<le> length (view b) \<Longrightarrow>
    \<exists>b'. get b = Inr (conv (take n (view b)), b') \<and> ok b' \<and> view b' = drop n (view b)"
  by (auto simp: reads_def)

lemma try_readsD:
  "try_reads ok view n conv get \<Longrightarrow> ok b \<Longrightarrow> n \<le> length (view b) \<Longrightarrow>
    \<exists>b'. get b = Inr (Ok (conv (take n (view b))), b') \<and> ok b' \<and> view b' = drop n (view b)"
  by (auto simp: try_reads_def)

section \<open>The contract\<close>

text \<open>
  \<open>view b\<close> is the sequence of bytes the cursor has still to deliver. \<open>chunk\<close> is a prefix
  of it and empty only at the end; \<open>advance\<close> drops bytes and panics past the end.
\<close>

locale buf_core_contract =
  fixes B :: "('b, 'z) buf_core_scheme"
    and ok :: "'b \<Rightarrow> bool"
    and view :: "'b \<Rightarrow> u8 list"
  assumes remaining_view: "ok b \<Longrightarrow> remaining B b = length (view b)"
    and chunk_prefix: "ok b \<Longrightarrow> prefix (chunk B b) (view b)"
    and chunk_nonempty: "ok b \<Longrightarrow> view b \<noteq> [] \<Longrightarrow> chunk B b \<noteq> []"
    and advance_view: "ok b \<Longrightarrow> n \<le> length (view b) \<Longrightarrow>
      \<exists>b'. advance B b n = Inr b' \<and> ok b' \<and> view b' = drop n (view b)"
    and advance_past: "ok b \<Longrightarrow> length (view b) < n \<Longrightarrow> \<exists>p. advance B b n = Inl (Panic p)"
begin

lemma has_remaining_view: "ok b \<Longrightarrow> has_remaining B b \<longleftrightarrow> view b \<noteq> []"
  by (simp add: has_remaining_def remaining_view)

lemma length_chunk_le: "ok b \<Longrightarrow> length (chunk B b) \<le> length (view b)"
  by (simp add: chunk_prefix prefix_length_le)

lemma take_chunk: "ok b \<Longrightarrow> n \<le> length (chunk B b) \<Longrightarrow> take n (chunk B b) = take n (view b)"
  by (metis chunk_prefix prefix_take_eq)

lemma try_copy_step_view:
  assumes "ok b" "dst \<noteq> []" "length dst \<le> length (view b)"
  shows "\<exists>n b'. try_copy_step B (w, dst, b) = Inr (w @ take n (view b), drop n dst, b') \<and>
    0 < n \<and> n \<le> length dst \<and> ok b' \<and> view b' = drop n (view b)"
proof -
  let ?n = "min (length (chunk B b)) (length dst)"
  have "view b \<noteq> []" using assms by auto
  with assms chunk_nonempty have "chunk B b \<noteq> []" by simp
  with assms have n: "0 < ?n" "?n \<le> length dst" by auto
  with assms advance_view [of b ?n] obtain b' where
    "advance B b ?n = Inr b'" "ok b'" "view b' = drop ?n (view b)" by auto
  moreover have "take ?n (chunk B b) = take ?n (view b)" using assms take_chunk by simp
  ultimately show ?thesis using n
    by (intro exI [of _ ?n] exI [of _ b'])
      (simp add: try_copy_step_def slice_to_def slice_from_def copy_from_slice_def Let_def)
qed

text \<open>The copy loop ends, fills the destination with the next bytes and consumes them.\<close>

lemma try_copy_loop_view:
  assumes "ok b" "length dst \<le> length (view b)"
  shows "\<exists>b'. rust_while (\<lambda>(w, dst, b). dst \<noteq> []) (try_copy_step B) ([], dst, b) =
      Inr (take (length dst) (view b), [], b') \<and> ok b' \<and> view b' = drop (length dst) (view b)"
proof -
  let ?P = "\<lambda>(w, d, c). ok c \<and> length w + length d = length dst \<and>
    w = take (length w) (view b) \<and> view c = drop (length w) (view b)"
  have step: "\<exists>t. try_copy_step B s = Inr t \<and> ?P t \<and> length (fst (snd t)) < length (fst (snd s))"
    if "?P s" "case s of (w, d, c) \<Rightarrow> d \<noteq> []" for s
  proof -
    obtain w d c where s: "s = (w, d, c)" by (cases s) auto
    with that have P: "ok c" "length w + length d = length dst" "d \<noteq> []"
      "w = take (length w) (view b)" "view c = drop (length w) (view b)" by auto
    with assms have "length d \<le> length (view c)" by simp
    with P try_copy_step_view obtain n c' where
      n: "try_copy_step B (w, d, c) = Inr (w @ take n (view c), drop n d, c')" "0 < n"
        "n \<le> length d" "ok c'" "view c' = drop n (view c)" by blast
    have "length (take n (view c)) = n" using n(3) \<open>length d \<le> length (view c)\<close> by simp
    moreover from P n \<open>length (take n (view c)) = n\<close> have
      "w @ take n (view c) = take (length w + n) (view b)" by (metis take_add)
    ultimately show ?thesis using P n s by (simp add: add.commute)
  qed
  have "\<exists>t. rust_while (\<lambda>(w, dst, b). dst \<noteq> []) (try_copy_step B) ([], dst, b) = Inr t \<and>
      ?P t \<and> \<not> (case t of (w, d, c) \<Rightarrow> d \<noteq> [])"
    by (rule rust_while_rule [where m = "\<lambda>t. length (fst (snd t))"])
      (use assms step in auto)
  then show ?thesis by fastforce
qed

lemma try_copy_to_slice_view:
  "ok b \<Longrightarrow> length dst \<le> length (view b) \<Longrightarrow>
    \<exists>b'. try_copy_to_slice B b dst = Inr (Ok (), take (length dst) (view b), b') \<and>
      ok b' \<and> view b' = drop (length dst) (view b)"
  using try_copy_loop_view [of b dst] by (auto simp: try_copy_to_slice_def remaining_view)

lemma try_copy_to_slice_short:
  "ok b \<Longrightarrow> length (view b) < length dst \<Longrightarrow>
    try_copy_to_slice B b dst =
      Inr (Err \<lparr>requested = length dst, available = length (view b)\<rparr>, dst, b)"
  by (simp add: try_copy_to_slice_def remaining_view)

lemma copy_to_slice_default_view:
  "ok b \<Longrightarrow> length dst \<le> length (view b) \<Longrightarrow>
    \<exists>b'. copy_to_slice_default B b dst = Inr (take (length dst) (view b), b') \<and>
      ok b' \<and> view b' = drop (length dst) (view b)"
  using try_copy_to_slice_view [of b dst] by (auto simp: copy_to_slice_default_def)

lemma copy_to_slice_default_short:
  "ok b \<Longrightarrow> length (view b) < length dst \<Longrightarrow>
    copy_to_slice_default B b dst =
      Inl (Panic (Panic_advance \<lparr>requested = length dst, available = length (view b)\<rparr>))"
  by (simp add: copy_to_slice_default_def try_copy_to_slice_short panic_advance_def)

lemma get_u8_reads: "reads ok view 1 hd (get_u8 B)" "reads ok view 1 hd (get_i8 B)"
proof -
  show "reads ok view 1 hd (get_u8 B)"
  proof (rule readsI)
    fix b assume b: "ok b" "1 \<le> length (view b)"
    with advance_view [of b 1] obtain b' where
      b': "advance B b 1 = Inr b'" "ok b'" "view b' = drop 1 (view b)" by auto
    from b have "view b \<noteq> []" by auto
    with b chunk_nonempty have "chunk B b \<noteq> []" by simp
    then have "slice_nth (chunk B b) 0 = Inr (hd (view b))"
      using chunk_prefix [OF b(1)] by (cases "chunk B b") (auto simp: slice_nth_def prefix_def)
    with b b' \<open>view b \<noteq> []\<close>
    show "\<exists>b'. get_u8 B b = Inr (hd (take 1 (view b)), b') \<and> ok b' \<and> view b' = drop 1 (view b)"
      by (simp add: get_u8_def remaining_view)
  qed (simp add: get_u8_def remaining_view panic_advance_def)
  then show "reads ok view 1 hd (get_i8 B)"
    by (simp add: get_u8_def [abs_def] get_i8_def [abs_def])
qed

lemma try_get_u8_get:
  "\<not> remaining B b < 1 \<Longrightarrow> try_get_u8 B b = res_bind (get_u8 B b) (\<lambda>(v, b). Inr (Ok v, b))"
  by (simp add: try_get_u8_def get_u8_def res_bind_assoc)

lemma try_get_u8_reads: "try_reads ok view 1 hd (try_get_u8 B)" "try_reads ok view 1 hd (try_get_i8 B)"
proof -
  show "try_reads ok view 1 hd (try_get_u8 B)"
  proof (rule try_readsI)
    fix b assume b: "ok b" "1 \<le> length (view b)"
    with readsD [OF get_u8_reads(1)] obtain b' where
      "get_u8 B b = Inr (hd (take 1 (view b)), b')" "ok b'" "view b' = drop 1 (view b)" by blast
    moreover from b have "\<not> remaining B b < 1" by (auto simp: remaining_view)
    ultimately
    show "\<exists>b'. try_get_u8 B b = Inr (Ok (hd (take 1 (view b))), b') \<and> ok b' \<and> view b' = drop 1 (view b)"
      by (intro exI [of _ b']) (simp only: try_get_u8_get res_bind.simps prod.case simp_thms)
  qed (simp add: try_get_u8_def remaining_view)
  then show "try_reads ok view 1 hd (try_get_i8 B)"
    by (simp add: try_get_u8_def [abs_def] try_get_i8_def [abs_def])
qed

lemma try_get_le_reads:
  assumes "n \<le> SIZE"
  shows "try_reads ok view n (\<lambda>bs. word_of_nat (le_val bs) :: 'a::len word) (buf_try_get_le_impl B SIZE n)"
proof (rule try_readsI)
  fix b assume b: "ok b" "n \<le> length (view b)"
  with try_copy_to_slice_view [of b "replicate n 0"] assms
  show "\<exists>b'. buf_try_get_le_impl B SIZE n b = Inr (Ok (word_of_nat (le_val (take n (view b))) :: 'a word), b') \<and>
      ok b' \<and> view b' = drop n (view b)"
    by (auto simp: buf_try_get_le_impl_def slice_get_to_def min_def from_le_bytes_def le_val_append)
next
  fix b assume "ok b" "length (view b) < n"
  with try_copy_to_slice_short [of b "replicate n 0"] assms
  show "(buf_try_get_le_impl B SIZE n b :: (('a word, try_get_error) result \<times> 'b) res) =
      Inr (Err \<lparr>requested = n, available = length (view b)\<rparr>, b)"
    by (simp add: buf_try_get_le_impl_def slice_get_to_def min_def)
qed

lemma try_get_be_reads:
  assumes "n \<le> SIZE"
  shows "try_reads ok view n (\<lambda>bs. word_of_nat (be_val bs) :: 'a::len word) (buf_try_get_be_impl B SIZE n)"
proof (rule try_readsI)
  fix b assume b: "ok b" "n \<le> length (view b)"
  with try_copy_to_slice_view [of b "replicate n 0"] assms
  show "\<exists>b'. buf_try_get_be_impl B SIZE n b = Inr (Ok (word_of_nat (be_val (take n (view b))) :: 'a word), b') \<and>
      ok b' \<and> view b' = drop n (view b)"
    by (auto simp: buf_try_get_be_impl_def checked_sub_def slice_from_def from_be_bytes_def
        from_le_bytes_def be_val_def le_val_append)
next
  fix b assume "ok b" "length (view b) < n"
  with try_copy_to_slice_short [of b "replicate n 0"] assms
  show "(buf_try_get_be_impl B SIZE n b :: (('a word, try_get_error) result \<times> 'b) res) =
      Inr (Err \<lparr>requested = n, available = length (view b)\<rparr>, b)"
    by (simp add: buf_try_get_be_impl_def checked_sub_def slice_from_def)
qed

end

locale buf_contract = buf_core_contract B ok view
  for B :: "('b, 'z) buf_scheme" and ok :: "'b \<Rightarrow> bool" and view :: "'b \<Rightarrow> u8 list" +
  assumes copy_to_slice_view: "ok b \<Longrightarrow> length dst \<le> length (view b) \<Longrightarrow>
      \<exists>b'. copy_to_slice B b dst = Inr (take (length dst) (view b), b') \<and>
        ok b' \<and> view b' = drop (length dst) (view b)"
    and copy_to_slice_short: "ok b \<Longrightarrow> length (view b) < length dst \<Longrightarrow>
      copy_to_slice B b dst =
        Inl (Panic (Panic_advance \<lparr>requested = length dst, available = length (view b)\<rparr>))"
begin

text \<open>
  Both ways through \<open>buf_try_get_impl!\<close>, the value inside one chunk and the value that
  crosses chunks, read the same bytes.
\<close>

lemma try_get_reads: "try_reads ok view n conv (buf_try_get_impl B n conv)"
proof (rule try_readsI)
  fix b assume b: "ok b" and enough: "n \<le> length (view b)"
  show "\<exists>b'. buf_try_get_impl B n conv b = Inr (Ok (conv (take n (view b))), b') \<and>
      ok b' \<and> view b' = drop n (view b)"
  proof (cases "n \<le> length (chunk B b)")
    case True
    with b enough advance_view [OF b enough] take_chunk [OF b True] show ?thesis
      by (auto simp: buf_try_get_impl_def remaining_view slice_get_to_def)
  next
    case False
    with b enough copy_to_slice_view [OF b, of "replicate n 0"] show ?thesis
      by (auto simp: buf_try_get_impl_def remaining_view slice_get_to_def)
  qed
qed (simp add: buf_try_get_impl_def remaining_view)

end

section \<open>From fallible to panicking reads\<close>

lemma or_panic_reads:
  assumes "try_reads ok view n conv get"
  shows "reads ok view n conv (\<lambda>b. or_panic_advance (get b))"
proof (rule readsI)
  fix b assume "ok b" "n \<le> length (view b)"
  with try_readsD [OF assms]
  show "\<exists>b'. or_panic_advance (get b) = Inr (conv (take n (view b)), b') \<and> ok b' \<and> view b' = drop n (view b)"
    by (fastforce simp: or_panic_advance_def)
qed (use assms in \<open>simp add: try_reads_def or_panic_advance_def panic_advance_def\<close>)

lemma reads_map:
  assumes "reads ok view n conv get"
  shows "reads ok view n (\<lambda>bs. f (conv bs)) (\<lambda>b. res_bind (get b) (\<lambda>(v, b). Inr (f v, b)))"
proof (rule readsI)
  fix b assume "ok b" "n \<le> length (view b)"
  with readsD [OF assms]
  show "\<exists>b'. res_bind (get b) (\<lambda>(v, b). Inr (f v, b)) = Inr (f (conv (take n (view b))), b') \<and>
      ok b' \<and> view b' = drop n (view b)"
    by fastforce
qed (use assms in \<open>simp add: reads_def\<close>)

lemma try_reads_map:
  assumes "try_reads ok view n conv get"
  shows "try_reads ok view n (\<lambda>bs. f (conv bs)) (\<lambda>b. res_bind (get b) (\<lambda>(r, b).
    case r of Err e \<Rightarrow> Inr (Err e, b) | Ok v \<Rightarrow> Inr (Ok (f v), b)))"
proof (rule try_readsI)
  fix b assume "ok b" "n \<le> length (view b)"
  with try_readsD [OF assms]
  show "\<exists>b'. res_bind (get b) (\<lambda>(r, b).
      case r of Err e \<Rightarrow> Inr (Err e, b) | Ok v \<Rightarrow> Inr (Ok (f v), b)) =
        Inr (Ok (f (conv (take n (view b)))), b') \<and> ok b' \<and> view b' = drop n (view b)"
    by fastforce
qed (use assms in \<open>simp add: try_reads_def\<close>)


section \<open>Sign extension\<close>

lemma sint_sign_extend_bits:
  fixes val :: u64
  assumes "s < 64"
  shows "sint (signed_drop_bit s (push_bit s val)) = signed_take_bit (63 - s) (uint val)"
proof (rule bit_eqI)
  fix i
  show "bit (sint (signed_drop_bit s (push_bit s val))) i = bit (signed_take_bit (63 - s) (uint val)) i"
    using assms
    by (cases "i < 64 - s")
      (auto simp: bit_simps sint_signed_drop_bit_eq min_def not_less bit_uint_iff)
qed

lemma signed_take_bit_value:
  assumes "v < 2 ^ Suc m"
  shows "signed_take_bit m (int v) = (if v < 2 ^ m then int v else int v - 2 ^ Suc m)"
proof -
  have *: "signed_take_bit m (int v) = (int v + 2 ^ m) mod 2 ^ Suc m - 2 ^ m"
    by (simp add: signed_take_bit_eq_take_bit_shift take_bit_eq_mod)
  show ?thesis
  proof (cases "v < 2 ^ m")
    case True
    then have "int v < 2 ^ m" by simp
    then have "(int v + 2 ^ m) mod 2 ^ Suc m = int v + 2 ^ m"
      by (intro mod_pos_pos_trivial) auto
    with True * show ?thesis by simp
  next
    case False
    from assms have v: "int v < 2 ^ Suc m" by (metis of_nat_less_iff of_nat_numeral of_nat_power)
    moreover from False have "2 ^ m \<le> int v" by (metis not_less of_nat_le_iff of_nat_numeral of_nat_power)
    ultimately have "(int v + 2 ^ m - 2 ^ Suc m) mod 2 ^ Suc m = int v + 2 ^ m - 2 ^ Suc m"
      by (intro mod_pos_pos_trivial) auto
    then have "(int v + 2 ^ m) mod 2 ^ Suc m = int v + 2 ^ m - 2 ^ Suc m"
      by (simp only: minus_mod_self2)
    with False * show ?thesis by simp
  qed
qed

lemma sign_extend_value:
  assumes "0 < n" "n \<le> 8" "unat val < 2 ^ (8 * n)"
  shows "\<exists>r. sign_extend val n = Inr r \<and> sint r = signed_value n (unat val)"
proof -
  let ?s = "(8 - n) * 8"
  from assms obtain m where m: "8 * n = Suc m" by (cases n) auto
  with assms have s: "?s < 64" "63 - ?s = m" by auto
  have "sint (signed_drop_bit ?s (push_bit ?s val)) = signed_take_bit m (int (unat val))"
    using sint_sign_extend_bits [OF s(1)] s(2) by (simp only: uint_nat)
  also have "\<dots> = signed_value n (unat val)"
    using signed_take_bit_value [of "unat val" m] assms(3) by (simp only: signed_value_def m diff_Suc_1)
  finally show ?thesis
    using s(1) assms(2) by (simp add: sign_extend_def usize_sub_def Let_def)
qed

lemma sign_extend_zero: "sign_extend val 0 = Inl (Panic Arith_overflow)"
  by (simp add: sign_extend_def usize_sub_def)

section \<open>The typed reads\<close>

context buf_contract
begin

lemma get_reads: "reads ok view n conv (buf_get_impl B n conv)"
  using or_panic_reads [OF try_get_reads] by (simp add: buf_get_impl_def [abs_def])

lemma int_get_reads:
  "reads ok view 2 from_be_bytes (get_u16 B)"
  "reads ok view 2 from_le_bytes (get_u16_le B)"
  "reads ok view 2 (from_ne_bytes big) (get_u16_ne big B)"
  "reads ok view 2 from_be_bytes (get_i16 B)"
  "reads ok view 2 from_le_bytes (get_i16_le B)"
  "reads ok view 2 (from_ne_bytes big) (get_i16_ne big B)"
  "reads ok view 4 from_be_bytes (get_u32 B)"
  "reads ok view 4 from_le_bytes (get_u32_le B)"
  "reads ok view 4 (from_ne_bytes big) (get_u32_ne big B)"
  "reads ok view 4 from_be_bytes (get_i32 B)"
  "reads ok view 4 from_le_bytes (get_i32_le B)"
  "reads ok view 4 (from_ne_bytes big) (get_i32_ne big B)"
  "reads ok view 8 from_be_bytes (get_u64 B)"
  "reads ok view 8 from_le_bytes (get_u64_le B)"
  "reads ok view 8 (from_ne_bytes big) (get_u64_ne big B)"
  "reads ok view 8 from_be_bytes (get_i64 B)"
  "reads ok view 8 from_le_bytes (get_i64_le B)"
  "reads ok view 8 (from_ne_bytes big) (get_i64_ne big B)"
  "reads ok view 16 from_be_bytes (get_u128 B)"
  "reads ok view 16 from_le_bytes (get_u128_le B)"
  "reads ok view 16 (from_ne_bytes big) (get_u128_ne big B)"
  "reads ok view 16 from_be_bytes (get_i128 B)"
  "reads ok view 16 from_le_bytes (get_i128_le B)"
  "reads ok view 16 (from_ne_bytes big) (get_i128_ne big B)"
  by (simp_all add: get_reads
      get_u16_def [abs_def] get_u16_le_def [abs_def] get_u16_ne_def [abs_def]
      get_i16_def [abs_def] get_i16_le_def [abs_def] get_i16_ne_def [abs_def]
      get_u32_def [abs_def] get_u32_le_def [abs_def] get_u32_ne_def [abs_def]
      get_i32_def [abs_def] get_i32_le_def [abs_def] get_i32_ne_def [abs_def]
      get_u64_def [abs_def] get_u64_le_def [abs_def] get_u64_ne_def [abs_def]
      get_i64_def [abs_def] get_i64_le_def [abs_def] get_i64_ne_def [abs_def]
      get_u128_def [abs_def] get_u128_le_def [abs_def] get_u128_ne_def [abs_def]
      get_i128_def [abs_def] get_i128_le_def [abs_def] get_i128_ne_def [abs_def])

lemma int_try_get_reads:
  "try_reads ok view 2 from_be_bytes (try_get_u16 B)"
  "try_reads ok view 2 from_le_bytes (try_get_u16_le B)"
  "try_reads ok view 2 (from_ne_bytes big) (try_get_u16_ne big B)"
  "try_reads ok view 2 from_be_bytes (try_get_i16 B)"
  "try_reads ok view 2 from_le_bytes (try_get_i16_le B)"
  "try_reads ok view 2 (from_ne_bytes big) (try_get_i16_ne big B)"
  "try_reads ok view 4 from_be_bytes (try_get_u32 B)"
  "try_reads ok view 4 from_le_bytes (try_get_u32_le B)"
  "try_reads ok view 4 (from_ne_bytes big) (try_get_u32_ne big B)"
  "try_reads ok view 4 from_be_bytes (try_get_i32 B)"
  "try_reads ok view 4 from_le_bytes (try_get_i32_le B)"
  "try_reads ok view 4 (from_ne_bytes big) (try_get_i32_ne big B)"
  "try_reads ok view 8 from_be_bytes (try_get_u64 B)"
  "try_reads ok view 8 from_le_bytes (try_get_u64_le B)"
  "try_reads ok view 8 (from_ne_bytes big) (try_get_u64_ne big B)"
  "try_reads ok view 8 from_be_bytes (try_get_i64 B)"
  "try_reads ok view 8 from_le_bytes (try_get_i64_le B)"
  "try_reads ok view 8 (from_ne_bytes big) (try_get_i64_ne big B)"
  "try_reads ok view 16 from_be_bytes (try_get_u128 B)"
  "try_reads ok view 16 from_le_bytes (try_get_u128_le B)"
  "try_reads ok view 16 (from_ne_bytes big) (try_get_u128_ne big B)"
  "try_reads ok view 16 from_be_bytes (try_get_i128 B)"
  "try_reads ok view 16 from_le_bytes (try_get_i128_le B)"
  "try_reads ok view 16 (from_ne_bytes big) (try_get_i128_ne big B)"
  by (simp_all add: try_get_reads
      try_get_u16_def [abs_def] try_get_u16_le_def [abs_def]
      try_get_u16_ne_def [abs_def] try_get_i16_def [abs_def]
      try_get_i16_le_def [abs_def] try_get_i16_ne_def [abs_def]
      try_get_u32_def [abs_def] try_get_u32_le_def [abs_def]
      try_get_u32_ne_def [abs_def] try_get_i32_def [abs_def]
      try_get_i32_le_def [abs_def] try_get_i32_ne_def [abs_def]
      try_get_u64_def [abs_def] try_get_u64_le_def [abs_def]
      try_get_u64_ne_def [abs_def] try_get_i64_def [abs_def]
      try_get_i64_le_def [abs_def] try_get_i64_ne_def [abs_def]
      try_get_u128_def [abs_def] try_get_u128_le_def [abs_def]
      try_get_u128_ne_def [abs_def] try_get_i128_def [abs_def]
      try_get_i128_le_def [abs_def] try_get_i128_ne_def [abs_def])

lemma float_get_reads:
  "reads ok view 4 (\<lambda>bs. F32 (from_be_bytes bs)) (get_f32 B)"
  "reads ok view 4 (\<lambda>bs. F32 (from_le_bytes bs)) (get_f32_le B)"
  "reads ok view 4 (\<lambda>bs. F32 (from_ne_bytes big bs)) (get_f32_ne big B)"
  "reads ok view 8 (\<lambda>bs. F64 (from_be_bytes bs)) (get_f64 B)"
  "reads ok view 8 (\<lambda>bs. F64 (from_le_bytes bs)) (get_f64_le B)"
  "reads ok view 8 (\<lambda>bs. F64 (from_ne_bytes big bs)) (get_f64_ne big B)"
  unfolding get_f32_def [abs_def] get_f32_le_def [abs_def] get_f32_ne_def [abs_def]
    get_f64_def [abs_def] get_f64_le_def [abs_def] get_f64_ne_def [abs_def]
  by (rule reads_map, rule int_get_reads)+

lemma float_try_get_reads:
  "try_reads ok view 4 (\<lambda>bs. F32 (from_be_bytes bs)) (try_get_f32 B)"
  "try_reads ok view 4 (\<lambda>bs. F32 (from_le_bytes bs)) (try_get_f32_le B)"
  "try_reads ok view 4 (\<lambda>bs. F32 (from_ne_bytes big bs)) (try_get_f32_ne big B)"
  "try_reads ok view 8 (\<lambda>bs. F64 (from_be_bytes bs)) (try_get_f64 B)"
  "try_reads ok view 8 (\<lambda>bs. F64 (from_le_bytes bs)) (try_get_f64_le B)"
  "try_reads ok view 8 (\<lambda>bs. F64 (from_ne_bytes big bs)) (try_get_f64_ne big B)"
  unfolding try_get_f32_def [abs_def] try_get_f32_le_def [abs_def]
    try_get_f32_ne_def [abs_def] try_get_f64_def [abs_def]
    try_get_f64_le_def [abs_def] try_get_f64_ne_def [abs_def]
  by (rule try_reads_map, rule int_try_get_reads)+

lemma get_uint_reads:
  assumes "n \<le> 8"
  shows "reads ok view n (\<lambda>bs. word_of_nat (be_val bs)) (\<lambda>b. get_uint B b n)"
    and "reads ok view n (\<lambda>bs. word_of_nat (le_val bs)) (\<lambda>b. get_uint_le B b n)"
  using or_panic_reads [OF try_get_be_reads [OF assms]] or_panic_reads [OF try_get_le_reads [OF assms]]
  by (simp_all add: get_uint_def get_uint_le_def buf_get_be_impl_def buf_get_le_impl_def)

lemma try_get_uint_reads:
  assumes "n \<le> 8"
  shows "try_reads ok view n (\<lambda>bs. word_of_nat (be_val bs)) (\<lambda>b. try_get_uint B b n)"
    and "try_reads ok view n (\<lambda>bs. word_of_nat (le_val bs)) (\<lambda>b. try_get_uint_le B b n)"
    and "try_reads ok view n (\<lambda>bs. word_of_nat (be_val bs)) (\<lambda>b. try_get_int B b n)"
    and "try_reads ok view n (\<lambda>bs. word_of_nat (le_val bs)) (\<lambda>b. try_get_int_le B b n)"
  using try_get_be_reads [OF assms] try_get_le_reads [OF assms]
  by (simp_all add: try_get_uint_def try_get_uint_le_def try_get_int_def try_get_int_le_def)

end

lemma get_uint_too_wide:
  assumes "8 < n"
  shows "get_uint B b n = Inl (Panic (Panic_does_not_fit 8 n))"
    and "get_uint_le B b n = Inl (Panic (Panic_does_not_fit 8 n))"
    and "get_int B b n = Inl (Panic (Panic_does_not_fit 8 n))"
    and "get_int_le B b n = Inl (Panic (Panic_does_not_fit 8 n))"
  using assms
  by (simp_all add: get_int_def get_int_le_def get_uint_def get_uint_le_def buf_get_be_impl_def
      buf_get_le_impl_def or_panic_advance_def buf_try_get_be_impl_def buf_try_get_le_impl_def
      checked_sub_def slice_get_to_def panic_does_not_fit_def)

context buf_contract
begin

lemma unat_of_be_val: "length bs \<le> 8 \<Longrightarrow> unat (word_of_nat (be_val bs) :: u64) = be_val bs"
  using unat_from_be_bytes [of bs, where 'a = 64] by (simp add: from_be_bytes_def from_le_bytes_def be_val_def)

lemma unat_of_le_val: "length bs \<le> 8 \<Longrightarrow> unat (word_of_nat (le_val bs) :: u64) = le_val bs"
  using unat_from_le_bytes [of bs, where 'a = 64] by (simp add: from_le_bytes_def)

lemma signed_reads:
  assumes "reads ok view n conv get" "0 < n" "n \<le> 8"
    and "ok b" "n \<le> length (view b)"
    and "unat (conv (take n (view b)) :: u64) = v" "v < 256 ^ n"
  shows "\<exists>r b'. res_bind (get b) (\<lambda>(val, b). res_bind (sign_extend val n) (\<lambda>r. Inr (r, b))) = Inr (r, b') \<and>
    sint r = signed_value n v \<and> ok b' \<and> view b' = drop n (view b)"
proof -
  from readsD [OF assms(1,4,5)] obtain b' where
    get: "get b = Inr (conv (take n (view b)), b')" "ok b'" "view b' = drop n (view b)" by auto
  have "(256::nat) ^ n = 2 ^ (8 * n)" by (simp add: power_mult)
  with assms sign_extend_value [of n "conv (take n (view b))"] obtain r where
    "sign_extend (conv (take n (view b))) n = Inr r" "sint r = signed_value n v" by auto
  with get show ?thesis by auto
qed

lemma get_int_signed:
  assumes "ok b" "0 < n" "n \<le> 8" "n \<le> length (view b)"
  shows "\<exists>r b'. get_int B b n = Inr (r, b') \<and>
      sint r = signed_value n (be_val (take n (view b))) \<and> ok b' \<and> view b' = drop n (view b)"
    and "\<exists>r b'. get_int_le B b n = Inr (r, b') \<and>
      sint r = signed_value n (le_val (take n (view b))) \<and> ok b' \<and> view b' = drop n (view b)"
proof -
  have len: "length (take n (view b)) = n" using assms by simp
  have be: "be_val (take n (view b)) < 256 ^ n" and le: "le_val (take n (view b)) < 256 ^ n"
    using le_val_less [of "take n (view b)"] le_val_less [of "rev (take n (view b))"] len
    by (simp_all add: be_val_def)
  show "\<exists>r b'. get_int B b n = Inr (r, b') \<and>
      sint r = signed_value n (be_val (take n (view b))) \<and> ok b' \<and> view b' = drop n (view b)"
    using signed_reads [OF get_uint_reads(1) assms(2,3,1,4) unat_of_be_val be] assms(3) len
    by (simp add: get_int_def)
  show "\<exists>r b'. get_int_le B b n = Inr (r, b') \<and>
      sint r = signed_value n (le_val (take n (view b))) \<and> ok b' \<and> view b' = drop n (view b)"
    using signed_reads [OF get_uint_reads(2) assms(2,3,1,4) unat_of_le_val le] assms(3) len
    by (simp add: get_int_le_def)
qed

lemma get_int_zero_panics:
  "ok b \<Longrightarrow> get_int B b 0 = Inl (Panic Arith_overflow)"
  "ok b \<Longrightarrow> get_int_le B b 0 = Inl (Panic Arith_overflow)"
  using readsD [OF get_uint_reads(1) [of 0], of b] readsD [OF get_uint_reads(2) [of 0], of b]
  by (auto simp: get_int_def get_int_le_def sign_extend_zero)

end

section \<open>Several chunks at once\<close>

text \<open>
  What the documentation of \<open>chunks_vectored\<close> promises: no panic, the returned slices
  are the contents from the current position on, the other entries of \<open>dst\<close> are kept,
  something is returned unless nothing is left. (A slice of Rust has at most \<open>isize::MAX\<close>
  bytes, hence entries.)
\<close>

definition vectored_ok :: "u8 list \<Rightarrow> u8 list list \<Rightarrow> u8 list list \<Rightarrow> usize \<Rightarrow> bool" where
  "vectored_ok bytes dst dst' n \<longleftrightarrow>
     n \<le> length dst \<and> length dst' = length dst \<and> drop n dst' = drop n dst \<and>
     prefix (concat (take n dst')) bytes \<and>
     (n = 0 \<longrightarrow> dst = [] \<or> bytes = []) \<and> (\<forall>c \<in> set (take n dst'). c \<noteq> [])"

lemma vectored_okD:
  assumes "vectored_ok bytes dst dst' n"
  shows "n \<le> length dst" "length dst' = length dst" "drop n dst' = drop n dst"
    "prefix (concat (take n dst')) bytes" "n = 0 \<Longrightarrow> dst = [] \<or> bytes = []"
    "c \<in> set (take n dst') \<Longrightarrow> c \<noteq> []"
  using assms by (auto simp: vectored_ok_def)

locale buf_vectored = buf_contract B ok view
  for B :: "('b, 'z) buf_scheme" and ok :: "'b \<Rightarrow> bool" and view :: "'b \<Rightarrow> u8 list" +
  assumes chunks_vectored_ok: "ok b \<Longrightarrow> length dst \<le> isize_max \<Longrightarrow>
    \<exists>dst' n. chunks_vectored B b dst = Inr (dst', n) \<and> vectored_ok (view b) dst dst' n"

text \<open>
  A stronger promise, which \<open>Chain\<close> relies on without saying so: slices are left out
  only when \<open>dst\<close> is full.
\<close>

locale buf_complete = buf_vectored B ok view
  for B :: "('b, 'z) buf_scheme" and ok :: "'b \<Rightarrow> bool" and view :: "'b \<Rightarrow> u8 list" +
  assumes chunks_vectored_complete: "ok b \<Longrightarrow> length dst \<le> isize_max \<Longrightarrow>
    chunks_vectored B b dst = Inr (dst', n) \<Longrightarrow> n < length dst \<Longrightarrow> concat (take n dst') = view b"

context buf_core_contract
begin

lemma chunks_vectored_default_ok:
  assumes "ok b"
  shows "\<exists>dst' n. chunks_vectored_default B b dst = Inr (dst', n) \<and> vectored_ok (view b) dst dst' n"
  using assms chunk_prefix [OF assms] chunk_nonempty [OF assms]
  by (cases dst) (auto simp: chunks_vectored_default_def vectored_ok_def has_remaining_view)

lemma chunks_vectored_default_complete:
  assumes "ok b" "chunk B b = view b" "chunks_vectored_default B b dst = Inr (dst', n)" "n < length dst"
  shows "concat (take n dst') = view b"
  using assms
  by (cases dst) (auto simp: chunks_vectored_default_def has_remaining_view split: if_splits)

end

section \<open>Building an implementation\<close>

text \<open>
  An \<open>impl Buf\<close> block gives the required methods and overrides some provided ones:
  \<open>with_defaults\<close> fills in the provided ones, an override is a record update.
\<close>

definition with_defaults :: "'b buf_core \<Rightarrow> 'b buf" where
  "with_defaults C =
     \<lparr>remaining = remaining C, chunk = chunk C, advance = advance C,
      copy_to_slice = copy_to_slice_default C, chunks_vectored = chunks_vectored_default C\<rparr>"

lemma with_defaults_simps [simp]:
  "remaining (with_defaults C) = remaining C" "chunk (with_defaults C) = chunk C"
  "advance (with_defaults C) = advance C"
  "copy_to_slice (with_defaults C) = copy_to_slice_default C"
  "chunks_vectored (with_defaults C) = chunks_vectored_default C"
  by (simp_all add: with_defaults_def)

lemma buf_core_contract_cong:
  assumes "buf_core_contract C ok view"
    and "remaining D = remaining C" "chunk D = chunk C" "advance D = advance C"
  shows "buf_core_contract D ok view"
  using assms by (simp add: buf_core_contract_def)

lemma buf_contract_with_defaults:
  assumes "buf_core_contract C ok view"
    and "remaining D = remaining C" "chunk D = chunk C" "advance D = advance C"
    and "copy_to_slice D = copy_to_slice_default C"
  shows "buf_contract D ok view"
  using buf_core_contract_cong [OF assms(1-4)] assms(5)
    buf_core_contract.copy_to_slice_default_view [OF assms(1)]
    buf_core_contract.copy_to_slice_default_short [OF assms(1)]
  by (simp add: buf_contract_def buf_contract_axioms_def)

lemma buf_vectored_with_defaults:
  assumes "buf_core_contract C ok view"
  shows "buf_vectored (with_defaults C) ok view"
  using buf_contract_with_defaults [OF assms, of "with_defaults C"]
    buf_core_contract.chunks_vectored_default_ok [OF assms]
  by (simp add: buf_vectored_def buf_vectored_axioms_def)

lemma buf_complete_with_defaults:
  assumes "buf_core_contract C ok view" "\<And>b. ok b \<Longrightarrow> chunk C b = view b"
  shows "buf_complete (with_defaults C) ok view"
  using buf_vectored_with_defaults [OF assms(1)]
    buf_core_contract.chunks_vectored_default_complete [OF assms(1)] assms(2)
  by (auto simp: buf_complete_def buf_complete_axioms_def)

end
