(* ===== verification/Buf_Impls.thy ===== *)
theory Buf_Impls
  imports Buf
begin

text \<open>
  The implementations of \<open>Buf\<close> for types of the standard library: \<open>&[u8]\<close> and
  \<open>Cursor\<close> (\<^verbatim>\<open>buf_impl.rs\<close>) and \<open>VecDeque<u8>\<close> (\<^verbatim>\<open>vec_deque.rs\<close>). Each
  is a record of operations and an interpretation of the contract.
\<close>

section \<open>Byte slices\<close>

definition slice_advance :: "u8 list \<Rightarrow> usize \<Rightarrow> u8 list res" where
  "slice_advance s cnt =
     (if length s < cnt then panic_advance \<lparr>requested = cnt, available = length s\<rparr>
      else slice_from s cnt)"

definition slice_copy_to_slice :: "u8 list \<Rightarrow> u8 list \<Rightarrow> (u8 list \<times> u8 list) res" where
  "slice_copy_to_slice s dst =
     (if length s < length dst then panic_advance \<lparr>requested = length dst, available = length s\<rparr>
      else
        res_bind (slice_to s (length dst)) (\<lambda>src.
        res_bind (copy_from_slice dst src) (\<lambda>dst'.
        res_bind (slice_advance s (length dst)) (\<lambda>s. Inr (dst', s)))))"

definition slice_core :: "u8 list buf_core" where
  "slice_core = \<lparr>remaining = length, chunk = (\<lambda>s. s), advance = slice_advance\<rparr>"

definition slice_buf :: "u8 list buf" where
  "slice_buf = (with_defaults slice_core)\<lparr>copy_to_slice := slice_copy_to_slice\<rparr>"

interpretation slice_core: buf_core_contract slice_core "\<lambda>s. True" "\<lambda>s. s"
  by unfold_locales (auto simp: slice_core_def slice_advance_def slice_from_def panic_advance_def)

lemma slice_buf_complete: "buf_complete slice_buf (\<lambda>s. True) (\<lambda>s. s)"
proof -
  have "buf_complete (with_defaults slice_core) (\<lambda>s. True) (\<lambda>s. s)"
    by (rule buf_complete_with_defaults) (unfold_locales, simp add: slice_core_def)
  then show ?thesis
    by (auto simp: buf_complete_def buf_complete_axioms_def buf_vectored_def buf_vectored_axioms_def
        buf_contract_def buf_contract_axioms_def buf_core_contract_def slice_buf_def slice_core_def
        slice_copy_to_slice_def slice_advance_def panic_advance_def rust_simps)
qed

interpretation slice: buf_complete slice_buf "\<lambda>s. True" "\<lambda>s. s"
  by (rule slice_buf_complete)

section \<open>Cursors\<close>

text \<open>
  \<open>lib.rs\<close>: mixed \<open>u64\<close>/\<open>usize\<close> arithmetic. On a 64-bit target \<open>usize::try_from\<close>
  of a \<open>u64\<close> never fails; the other branch is kept as the source has it.
\<close>

definition usize_try_from :: "u64 \<Rightarrow> usize option" where
  "usize_try_from b = (if unat b \<le> usize_max then Some (unat b) else None)"

definition saturating_sub_usize_u64 :: "usize \<Rightarrow> u64 \<Rightarrow> usize" where
  "saturating_sub_usize_u64 a b = (case usize_try_from b of Some b \<Rightarrow> a - b | None \<Rightarrow> 0)"

definition min_u64_usize :: "u64 \<Rightarrow> usize \<Rightarrow> usize" where
  "min_u64_usize a b = (case usize_try_from a of Some a \<Rightarrow> min a b | None \<Rightarrow> b)"

lemma usize_try_from_Some: "usize_try_from b = Some (unat b)"
  using unat_word_less [of b] by (simp add: usize_try_from_def usize_max_def)

record cursor =
  get_ref :: "u8 list"
  position :: u64

definition cursor_remaining :: "cursor \<Rightarrow> usize" where
  "cursor_remaining c = saturating_sub_usize_u64 (length (get_ref c)) (position c)"

text \<open>\<open>&slice[pos..]\<close> with \<open>pos \<le> slice.len()\<close>: the index never panics (\<open>cursor_chunk_in_range\<close>).\<close>

definition cursor_chunk :: "cursor \<Rightarrow> u8 list" where
  "cursor_chunk c = drop (min_u64_usize (position c) (length (get_ref c))) (get_ref c)"

definition cursor_advance :: "cursor \<Rightarrow> usize \<Rightarrow> cursor res" where
  "cursor_advance c cnt =
     (let len = length (get_ref c); pos = position c;
          max_cnt = saturating_sub_usize_u64 len pos in
      if cnt > max_cnt then panic_advance \<lparr>requested = cnt, available = max_cnt\<rparr>
      else if unat pos + cnt < 2 ^ 64 then Inr (c\<lparr>position := pos + word_of_nat cnt\<rparr>)
      else Inl (Panic Arith_overflow))"

definition cursor_core :: "cursor buf_core" where
  "cursor_core = \<lparr>remaining = cursor_remaining, chunk = cursor_chunk, advance = cursor_advance\<rparr>"

definition cursor_buf :: "cursor buf" where
  "cursor_buf = with_defaults cursor_core"

lemma cursor_chunk_in_range:
  "slice_from (get_ref c) (min_u64_usize (position c) (length (get_ref c))) = Inr (cursor_chunk c)"
  by (simp add: slice_from_def min_u64_usize_def usize_try_from_Some cursor_chunk_def)

text \<open>The length of a slice is an \<open>isize\<close>; the position of a cursor is arbitrary.\<close>

definition cursor_ok :: "cursor \<Rightarrow> bool" where
  "cursor_ok c \<longleftrightarrow> length (get_ref c) \<le> isize_max"

definition cursor_view :: "cursor \<Rightarrow> u8 list" where
  "cursor_view c = drop (unat (position c)) (get_ref c)"

lemma cursor_advance_view:
  assumes "cursor_ok c" "n \<le> length (cursor_view c)"
  shows "\<exists>c'. cursor_advance c n = Inr c' \<and> cursor_ok c' \<and> cursor_view c' = drop n (cursor_view c)"
proof (cases "n = 0")
  case True
  then show ?thesis using assms unat_word_less [of "position c"]
    by (simp add: cursor_advance_def Let_def cursor_ok_def)
next
  case False
  with assms have le: "unat (position c) + n \<le> length (get_ref c)" by (simp add: cursor_view_def)
  with assms have small: "unat (position c) + n < 2 ^ 64"
    by (simp add: cursor_ok_def isize_max_def)
  then have "unat (position c + word_of_nat n) = unat (position c) + n"
    by (simp add: unat_word_ariths unat_of_nat take_bit_eq_mod)
  with le small assms show ?thesis
    by (simp add: cursor_advance_def Let_def cursor_ok_def cursor_view_def
        saturating_sub_usize_u64_def usize_try_from_Some add.commute)
qed

lemmas cursor_defs = cursor_remaining_def cursor_chunk_def cursor_view_def
  saturating_sub_usize_u64_def min_u64_usize_def usize_try_from_Some

lemma cursor_chunk_view: "cursor_chunk c = cursor_view c"
  by (simp add: cursor_defs min_def)

lemma cursor_remaining_view: "cursor_remaining c = length (cursor_view c)"
  by (simp add: cursor_defs)

lemma cursor_advance_past:
  "length (cursor_view c) < n \<Longrightarrow>
    cursor_advance c n = Inl (Panic (Panic_advance \<lparr>requested = n, available = length (cursor_view c)\<rparr>))"
  by (simp add: cursor_advance_def Let_def cursor_defs panic_advance_def)

interpretation cursor_core: buf_core_contract cursor_core cursor_ok cursor_view
  by unfold_locales
    (simp_all add: cursor_core_def cursor_chunk_view cursor_remaining_view cursor_advance_view
      cursor_advance_past)

interpretation cursor: buf_complete cursor_buf cursor_ok cursor_view
  unfolding cursor_buf_def
  by (rule buf_complete_with_defaults)
    (unfold_locales, simp add: cursor_core_def cursor_chunk_view)

section \<open>Ring buffers\<close>

text \<open>
  \<open>VecDeque<u8>\<close> of the standard library: a ring of \<open>capacity\<close> cells, the index of the
  first element and the number of elements. \<open>as_slices\<close> is the two contiguous parts in
  order, \<open>drain(..cnt)\<close> removes \<open>cnt\<close> elements at the front and panics past the end.
\<close>

record vec_deque =
  vd_ring :: "u8 list"
  vd_head :: usize
  vd_len :: usize

definition as_slices :: "vec_deque \<Rightarrow> u8 list \<times> u8 list" where
  "as_slices d =
     (if vd_head d + vd_len d \<le> length (vd_ring d)
      then (take (vd_len d) (drop (vd_head d) (vd_ring d)), [])
      else (drop (vd_head d) (vd_ring d), take (vd_head d + vd_len d - length (vd_ring d)) (vd_ring d)))"

definition drain_to :: "vec_deque \<Rightarrow> usize \<Rightarrow> vec_deque res" where
  "drain_to d cnt =
     (if cnt > vd_len d then Inl (Panic Slice_index)
      else Inr (d\<lparr>vd_head := (vd_head d + cnt) mod length (vd_ring d), vd_len := vd_len d - cnt\<rparr>))"

definition vec_deque_chunk :: "vec_deque \<Rightarrow> u8 list" where
  "vec_deque_chunk d = (let (s1, s2) = as_slices d in if s1 = [] then s2 else s1)"

definition vec_deque_chunks_vectored ::
  "vec_deque \<Rightarrow> u8 list list \<Rightarrow> (u8 list list \<times> usize) res" where
  "vec_deque_chunks_vectored d dst =
     (if vd_len d = 0 \<or> dst = [] then Inr (dst, 0)
      else
        let (s1, s2) = as_slices d; dst = dst[0 := s1] in
        if s2 = [] \<or> length dst = 1 then Inr (dst, 1)
        else Inr (dst[1 := s2], 2))"

definition vec_deque_core :: "vec_deque buf_core" where
  "vec_deque_core = \<lparr>remaining = vd_len, chunk = vec_deque_chunk, advance = drain_to\<rparr>"

definition vec_deque_buf :: "vec_deque buf" where
  "vec_deque_buf = (with_defaults vec_deque_core)\<lparr>chunks_vectored := vec_deque_chunks_vectored\<rparr>"

definition vec_deque_ok :: "vec_deque \<Rightarrow> bool" where
  "vec_deque_ok d \<longleftrightarrow> vd_len d \<le> length (vd_ring d) \<and> (vd_head d < length (vd_ring d) \<or> vd_ring d = [] \<and> vd_head d = 0)"

definition vec_deque_view :: "vec_deque \<Rightarrow> u8 list" where
  "vec_deque_view d = fst (as_slices d) @ snd (as_slices d)"

lemma mod_once: "i < n \<Longrightarrow> h < n \<Longrightarrow> (h + i) mod n = (if h + i < n then h + i else h + i - n)"
  for h i n :: nat
  by (simp add: le_mod_geq)

lemma vec_deque_view_nth:
  assumes "vec_deque_ok d"
  shows "vec_deque_view d = map (\<lambda>i. vd_ring d ! ((vd_head d + i) mod length (vd_ring d))) [0..<vd_len d]"
proof (intro nth_equalityI)
  show len: "length (vec_deque_view d) = length (map (\<lambda>i. vd_ring d ! ((vd_head d + i) mod length (vd_ring d))) [0..<vd_len d])"
    using assms by (auto simp: vec_deque_ok_def vec_deque_view_def as_slices_def)
  fix i assume "i < length (vec_deque_view d)"
  with len have i: "i < vd_len d" by simp
  with assms have "i < length (vd_ring d)" "vd_head d < length (vd_ring d)" by (auto simp: vec_deque_ok_def)
  with i show "vec_deque_view d ! i = map (\<lambda>i. vd_ring d ! ((vd_head d + i) mod length (vd_ring d))) [0..<vd_len d] ! i"
    by (auto simp: mod_once vec_deque_view_def as_slices_def nth_append add.commute)
qed

lemma length_vec_deque_view: "vec_deque_ok d \<Longrightarrow> length (vec_deque_view d) = vd_len d"
  by (simp add: vec_deque_view_nth)

lemma drain_to_view:
  assumes "vec_deque_ok d" "cnt \<le> vd_len d"
  shows "\<exists>d'. drain_to d cnt = Inr d' \<and> vec_deque_ok d' \<and> vec_deque_view d' = drop cnt (vec_deque_view d)"
proof -
  let ?d = "d\<lparr>vd_head := (vd_head d + cnt) mod length (vd_ring d), vd_len := vd_len d - cnt\<rparr>"
  have ok: "vec_deque_ok ?d" using assms
    by (cases "vd_ring d = []") (auto simp: vec_deque_ok_def)
  have "vec_deque_view ?d = drop cnt (vec_deque_view d)"
    unfolding vec_deque_view_nth [OF ok] vec_deque_view_nth [OF assms(1)]
    using assms by (intro nth_equalityI) (auto simp: mod_simps add.assoc)
  with ok assms show ?thesis by (simp add: drain_to_def)
qed

lemma as_slices_first_nonempty:
  "vec_deque_ok d \<Longrightarrow> 0 < vd_len d \<Longrightarrow> fst (as_slices d) \<noteq> []"
  by (auto simp: vec_deque_ok_def as_slices_def)

interpretation vec_deque_core: buf_core_contract vec_deque_core vec_deque_ok vec_deque_view
proof unfold_locales
  fix d assume ok: "vec_deque_ok d"
  show "prefix (chunk vec_deque_core d) (vec_deque_view d)"
    by (auto simp: vec_deque_core_def vec_deque_chunk_def vec_deque_view_def split: prod.split)
  show "vec_deque_view d \<noteq> [] \<Longrightarrow> chunk vec_deque_core d \<noteq> []"
    by (auto simp: vec_deque_core_def vec_deque_chunk_def vec_deque_view_def split: prod.split)
qed (use drain_to_view in \<open>auto simp: vec_deque_core_def length_vec_deque_view drain_to_def\<close>)

lemma vec_deque_chunks_vectored_ok:
  assumes "vec_deque_ok d"
  shows "\<exists>dst' n. vec_deque_chunks_vectored d dst = Inr (dst', n) \<and> vectored_ok (vec_deque_view d) dst dst' n"
proof (cases "vd_len d = 0 \<or> dst = []")
  case True
  then show ?thesis using length_vec_deque_view [OF assms]
    by (auto simp: vec_deque_chunks_vectored_def vectored_ok_def)
next
  case False
  then obtain x xs where dst: "dst = x # xs" by (cases dst) auto
  from False assms as_slices_first_nonempty have "fst (as_slices d) \<noteq> []" by simp
  with False dst show ?thesis
    by (cases xs) (auto simp: vec_deque_chunks_vectored_def vectored_ok_def vec_deque_view_def Let_def
        split: prod.split)
qed

lemma vec_deque_chunks_vectored_complete:
  assumes "vec_deque_ok d" "vec_deque_chunks_vectored d dst = Inr (dst', n)" "n < length dst"
  shows "concat (take n dst') = vec_deque_view d"
  using assms length_vec_deque_view [OF assms(1)]
  by (cases dst; cases "tl dst")
    (auto simp: vec_deque_chunks_vectored_def vec_deque_view_def Let_def split: prod.splits if_splits)

interpretation vec_deque: buf_complete vec_deque_buf vec_deque_ok vec_deque_view
proof -
  have "buf_contract vec_deque_buf vec_deque_ok vec_deque_view"
    by (rule buf_contract_with_defaults [of vec_deque_core])
      (unfold_locales, simp_all add: vec_deque_buf_def)
  then show "buf_complete vec_deque_buf vec_deque_ok vec_deque_view"
    using vec_deque_chunks_vectored_ok vec_deque_chunks_vectored_complete
    by (auto simp: buf_complete_def buf_complete_axioms_def buf_vectored_def buf_vectored_axioms_def
        vec_deque_buf_def)
qed

end
