(* ===== verification/Buf_Adapters.thy ===== *)
theory Buf_Adapters
  imports Buf_Impls
begin

text \<open>
  The adapters over readers: \<open>Chain\<close> (\<^verbatim>\<open>chain.rs\<close>), \<open>Take\<close> (\<^verbatim>\<open>take.rs\<close>),
  \<open>IntoIter\<close> (\<^verbatim>\<open>iter.rs\<close>) and \<open>Reader\<close> (\<^verbatim>\<open>reader.rs\<close>). An adapter takes the
  operations of its parts as arguments; that it meets the contract when its parts do is proved
  once, so that any nesting of adapters over the concrete readers meets it.
\<close>

section \<open>Chain\<close>

record ('a, 'b) chain =
  chain_a :: 'a
  chain_b :: 'b

definition chain_remaining ::
  "('a, 'y) buf_core_scheme \<Rightarrow> ('b, 'z) buf_core_scheme \<Rightarrow> ('a, 'b) chain \<Rightarrow> usize" where
  "chain_remaining A B c = saturating_add (remaining A (chain_a c)) (remaining B (chain_b c))"

definition chain_chunk ::
  "('a, 'y) buf_core_scheme \<Rightarrow> ('b, 'z) buf_core_scheme \<Rightarrow> ('a, 'b) chain \<Rightarrow> u8 list" where
  "chain_chunk A B c =
     (if has_remaining A (chain_a c) then chunk A (chain_a c) else chunk B (chain_b c))"

definition chain_advance ::
  "('a, 'y) buf_core_scheme \<Rightarrow> ('b, 'z) buf_core_scheme \<Rightarrow> ('a, 'b) chain \<Rightarrow> usize \<Rightarrow>
     ('a, 'b) chain res" where
  "chain_advance A B c cnt =
     (let a_rem = remaining A (chain_a c);
          advance_b = (\<lambda>c cnt. res_bind (advance B (chain_b c) cnt) (\<lambda>b. Inr (c\<lparr>chain_b := b\<rparr>))) in
      if a_rem \<noteq> 0 then
        if a_rem \<ge> cnt then
          res_bind (advance A (chain_a c) cnt) (\<lambda>a. Inr (c\<lparr>chain_a := a\<rparr>))
        else
          res_bind (advance A (chain_a c) a_rem) (\<lambda>a.
          res_bind (usize_sub cnt a_rem) (\<lambda>cnt. advance_b (c\<lparr>chain_a := a\<rparr>) cnt))
      else advance_b c cnt)"

text \<open>The second part writes to \<open>&mut dst[n..]\<close>; the first \<open>n\<close> entries stay.\<close>

definition chain_chunks_vectored ::
  "('a, 'y) buf_scheme \<Rightarrow> ('b, 'z) buf_scheme \<Rightarrow> ('a, 'b) chain \<Rightarrow> u8 list list \<Rightarrow>
     (u8 list list \<times> usize) res" where
  "chain_chunks_vectored A B c dst =
     res_bind (chunks_vectored A (chain_a c) dst) (\<lambda>(dst, n).
     res_bind (slice_from dst n) (\<lambda>rest.
     res_bind (chunks_vectored B (chain_b c) rest) (\<lambda>(rest, m).
     res_bind (usize_add n m) (\<lambda>k. Inr (take n dst @ rest, k)))))"

definition chain_core ::
  "('a, 'y) buf_core_scheme \<Rightarrow> ('b, 'z) buf_core_scheme \<Rightarrow> ('a, 'b) chain buf_core" where
  "chain_core A B =
     \<lparr>remaining = chain_remaining A B, chunk = chain_chunk A B, advance = chain_advance A B\<rparr>"

definition chain_buf ::
  "('a, 'y) buf_scheme \<Rightarrow> ('b, 'z) buf_scheme \<Rightarrow> ('a, 'b) chain buf" where
  "chain_buf A B = (with_defaults (chain_core A B))\<lparr>chunks_vectored := chain_chunks_vectored A B\<rparr>"

definition chain_view :: "('a \<Rightarrow> u8 list) \<Rightarrow> ('b \<Rightarrow> u8 list) \<Rightarrow> ('a, 'b) chain \<Rightarrow> u8 list" where
  "chain_view va vb c = va (chain_a c) @ vb (chain_b c)"

text \<open>Beyond \<open>usize::MAX\<close> bytes \<open>remaining\<close> saturates and no longer counts the contents.\<close>

definition chain_ok ::
  "('a \<Rightarrow> bool) \<Rightarrow> ('a \<Rightarrow> u8 list) \<Rightarrow> ('b \<Rightarrow> bool) \<Rightarrow> ('b \<Rightarrow> u8 list) \<Rightarrow> ('a, 'b) chain \<Rightarrow> bool" where
  "chain_ok oka va okb vb c \<longleftrightarrow>
     oka (chain_a c) \<and> okb (chain_b c) \<and> length (chain_view va vb c) \<le> usize_max"

locale two_bufs =
  a: buf_core_contract A oka va + b: buf_core_contract B okb vb
  for A :: "('a, 'y) buf_core_scheme" and oka va
    and B :: "('b, 'z) buf_core_scheme" and okb vb
begin

lemma chain_remaining_view:
  "chain_ok oka va okb vb c \<Longrightarrow> chain_remaining A B c = length (chain_view va vb c)"
  by (simp add: chain_ok_def chain_remaining_def chain_view_def saturating_add_def
      a.remaining_view b.remaining_view)

lemma chain_chunk_prefix:
  assumes "chain_ok oka va okb vb c"
  shows "prefix (chain_chunk A B c) (chain_view va vb c)"
  using assms a.chunk_prefix [of "chain_a c"] b.chunk_prefix [of "chain_b c"]
  by (auto simp: chain_ok_def chain_chunk_def chain_view_def a.has_remaining_view prefix_def)

lemma chain_chunk_nonempty:
  "chain_ok oka va okb vb c \<Longrightarrow> chain_view va vb c \<noteq> [] \<Longrightarrow> chain_chunk A B c \<noteq> []"
  by (auto simp: chain_ok_def chain_chunk_def chain_view_def a.has_remaining_view
      a.chunk_nonempty b.chunk_nonempty)

lemma chain_advance_view:
  assumes "chain_ok oka va okb vb c" "n \<le> length (chain_view va vb c)"
  shows "\<exists>c'. chain_advance A B c n = Inr c' \<and> chain_ok oka va okb vb c' \<and>
    chain_view va vb c' = drop n (chain_view va vb c)"
proof -
  let ?a = "chain_a c" and ?b = "chain_b c"
  have ok: "oka ?a" "okb ?b" and len: "length (va ?a) + length (vb ?b) \<le> usize_max"
    using assms by (auto simp: chain_ok_def chain_view_def)
  show ?thesis
  proof (cases "n \<le> length (va ?a) \<and> va ?a \<noteq> []")
    case True
    with ok a.advance_view [of ?a n] obtain a' where
      "advance A ?a n = Inr a'" "oka a'" "va a' = drop n (va ?a)" by auto
    with True ok len show ?thesis
      by (simp add: chain_advance_def a.remaining_view chain_ok_def chain_view_def)
  next
    case False
    from ok a.advance_view [of ?a "length (va ?a)"] obtain a' where
      a: "advance A ?a (length (va ?a)) = Inr a'" "oka a'" "va a' = []" by auto
    from assms have "n - length (va ?a) \<le> length (vb ?b)" by (simp add: chain_view_def)
    with ok b.advance_view obtain b' where
      b: "advance B ?b (n - length (va ?a)) = Inr b'" "okb b'"
        "vb b' = drop (n - length (va ?a)) (vb ?b)" by blast
    with a False ok len show ?thesis
      by (auto simp: chain_advance_def a.remaining_view chain_ok_def chain_view_def usize_sub_def
          Let_def not_le)
  qed
qed

lemma chain_advance_past:
  assumes "chain_ok oka va okb vb c" "length (chain_view va vb c) < n"
  shows "\<exists>p. chain_advance A B c n = Inl (Panic p)"
proof -
  let ?a = "chain_a c" and ?b = "chain_b c"
  have ok: "oka ?a" "okb ?b" using assms by (auto simp: chain_ok_def)
  from ok a.advance_view [of ?a "length (va ?a)"] obtain a' where
    "advance A ?a (length (va ?a)) = Inr a'" by auto
  moreover from assms have "length (vb ?b) < n - length (va ?a)" by (simp add: chain_view_def)
  with ok b.advance_past obtain p where
    "advance B ?b (n - length (va ?a)) = Inl (Panic p)" by blast
  ultimately show ?thesis using assms ok
    by (auto simp: chain_advance_def a.remaining_view chain_view_def usize_sub_def Let_def)
qed

lemma chain_core_contract:
  "buf_core_contract (chain_core A B) (chain_ok oka va okb vb) (chain_view va vb)"
  by unfold_locales
    (simp_all add: chain_core_def chain_remaining_view chain_chunk_prefix chain_chunk_nonempty
      chain_advance_view chain_advance_past)

end

sublocale two_bufs \<subseteq> chain_core: buf_core_contract "chain_core A B" "chain_ok oka va okb vb" "chain_view va vb"
  by (rule chain_core_contract)

lemma buf_contract_chain:
  assumes "buf_core_contract A oka va" "buf_core_contract B okb vb"
  shows "buf_contract (chain_buf A B) (chain_ok oka va okb vb) (chain_view va vb)"
proof (rule buf_contract_with_defaults)
  show "buf_core_contract (chain_core A B) (chain_ok oka va okb vb) (chain_view va vb)"
    by (rule two_bufs.chain_core_contract) (simp add: two_bufs_def assms)
qed (simp_all add: chain_buf_def)

text \<open>
  \<open>chunks_vectored\<close> of a chain: right when the first part leaves slices out only when
  \<open>dst\<close> is full.
\<close>

lemma vectored_ok_append:
  assumes a: "vectored_ok xs dst d n" and b: "vectored_ok ys (drop n d) e m"
    and complete: "n < length dst \<Longrightarrow> concat (take n d) = xs"
  shows "vectored_ok (xs @ ys) dst (take n d @ e) (n + m)"
proof -
  have n: "n \<le> length dst" "length d = length dst" "drop n d = drop n dst"
    "m \<le> length e" "length e = length dst - n" "drop m e = drop m (drop n dst)"
    using a b by (auto simp: vectored_ok_def)
  then have *: "take (n + m) (take n d @ e) = take n d @ take m e"
    "drop (n + m) (take n d @ e) = drop (n + m) dst"
    by (simp_all add: add.commute)
  have "prefix (concat (take n d @ take m e)) (xs @ ys)"
  proof (cases "n < length dst")
    case True
    with complete b show ?thesis by (simp add: vectored_ok_def)
  next
    case False
    with n a show ?thesis by (simp add: vectored_ok_def prefix_order.trans)
  qed
  moreover have "n + m = 0 \<longrightarrow> dst = [] \<or> xs @ ys = []"
    using vectored_okD(5) [OF a] vectored_okD(5) [OF b] n by auto
  moreover have "\<forall>c \<in> set (take n d @ take m e). c \<noteq> []"
    using vectored_okD(6) [OF a] vectored_okD(6) [OF b] by auto
  ultimately show ?thesis unfolding vectored_ok_def * using n by simp
qed

lemma chain_chunks_vectored_parts:
  assumes "buf_vectored A oka va" "buf_vectored B okb vb"
    and "oka (chain_a c)" "okb (chain_b c)" "length dst \<le> isize_max"
  shows "\<exists>d n e m. chunks_vectored A (chain_a c) dst = Inr (d, n) \<and> vectored_ok (va (chain_a c)) dst d n \<and>
    chunks_vectored B (chain_b c) (drop n d) = Inr (e, m) \<and> vectored_ok (vb (chain_b c)) (drop n d) e m \<and>
    chain_chunks_vectored A B c dst = Inr (take n d @ e, n + m)"
proof -
  from buf_vectored.chunks_vectored_ok [OF assms(1,3,5)] obtain d n where
    d: "chunks_vectored A (chain_a c) dst = Inr (d, n)" "vectored_ok (va (chain_a c)) dst d n" by blast
  then have n: "n \<le> length d" "length (drop n d) \<le> isize_max" "length d = length dst"
    using assms(5) vectored_okD(1,2) [OF d(2)] by simp_all
  from buf_vectored.chunks_vectored_ok [OF assms(2,4) n(2)] obtain e m where
    e: "chunks_vectored B (chain_b c) (drop n d) = Inr (e, m)" "vectored_ok (vb (chain_b c)) (drop n d) e m"
    by blast
  then have "n + m \<le> usize_max"
    using n assms(5) isize_max_less_usize_max vectored_okD(1) [OF e(2)] by simp
  with d e n have "chain_chunks_vectored A B c dst = Inr (take n d @ e, n + m)"
    by (simp add: chain_chunks_vectored_def slice_from_def usize_add_def)
  with d e show ?thesis by blast
qed

lemma chain_chunks_vectored_steps:
  assumes "buf_complete A oka va" "buf_vectored B okb vb"
    and "oka (chain_a c)" "okb (chain_b c)" "length dst \<le> isize_max"
  shows "\<exists>d n e m. chunks_vectored A (chain_a c) dst = Inr (d, n) \<and> vectored_ok (va (chain_a c)) dst d n \<and>
    (n < length dst \<longrightarrow> concat (take n d) = va (chain_a c)) \<and>
    chunks_vectored B (chain_b c) (drop n d) = Inr (e, m) \<and> vectored_ok (vb (chain_b c)) (drop n d) e m \<and>
    chain_chunks_vectored A B c dst = Inr (take n d @ e, n + m)"
  using chain_chunks_vectored_parts [OF buf_complete.axioms(1) [OF assms(1)] assms(2-5)]
    buf_complete.chunks_vectored_complete [OF assms(1,3,5)] by blast

lemma buf_vectored_chain:
  assumes "buf_complete A oka va" "buf_vectored B okb vb"
  shows "buf_vectored (chain_buf A B) (chain_ok oka va okb vb) (chain_view va vb)"
proof -
  from assms have "buf_core_contract A oka va" "buf_core_contract B okb vb"
    by (simp_all add: buf_complete_def buf_vectored_def buf_contract_def)
  then have "buf_contract (chain_buf A B) (chain_ok oka va okb vb) (chain_view va vb)"
    by (rule buf_contract_chain)
  moreover have "\<exists>dst' n. chain_chunks_vectored A B c dst = Inr (dst', n) \<and>
      vectored_ok (chain_view va vb c) dst dst' n"
    if "chain_ok oka va okb vb c" "length dst \<le> isize_max" for c dst
    using chain_chunks_vectored_steps [OF assms, of c dst] vectored_ok_append that
    unfolding chain_ok_def chain_view_def by blast
  ultimately show ?thesis
    by (simp add: buf_vectored_def buf_vectored_axioms_def chain_buf_def)
qed

lemma buf_complete_chain:
  assumes "buf_complete A oka va" "buf_complete B okb vb"
  shows "buf_complete (chain_buf A B) (chain_ok oka va okb vb) (chain_view va vb)"
proof -
  have B: "buf_vectored B okb vb" using assms(2) by (simp add: buf_complete_def)
  have "concat (take n dst') = chain_view va vb c"
    if "chain_ok oka va okb vb c" "length dst \<le> isize_max"
      "chain_chunks_vectored A B c dst = Inr (dst', n)" "n < length dst" for c dst dst' n
  proof -
    from that chain_chunks_vectored_steps [OF assms(1) B, of c dst] obtain d k e m where
      "chunks_vectored A (chain_a c) dst = Inr (d, k)" "vectored_ok (va (chain_a c)) dst d k"
      "k < length dst \<longrightarrow> concat (take k d) = va (chain_a c)"
      "chunks_vectored B (chain_b c) (drop k d) = Inr (e, m)"
      "vectored_ok (vb (chain_b c)) (drop k d) e m" "dst' = take k d @ e" "n = k + m"
      by (auto simp: chain_ok_def)
    with that buf_complete.chunks_vectored_complete [OF assms(2), of "chain_b c" "drop k d" e m]
    show ?thesis by (auto simp: chain_ok_def chain_view_def vectored_ok_def)
  qed
  with buf_vectored_chain [OF assms(1) B] show ?thesis
    by (simp add: buf_complete_def buf_complete_axioms_def chain_buf_def)
qed

section \<open>Take\<close>

record 'a take_adapter =
  take_inner :: 'a
  take_limit :: usize

definition take_remaining :: "('a, 'z) buf_core_scheme \<Rightarrow> 'a take_adapter \<Rightarrow> usize" where
  "take_remaining B t = min (remaining B (take_inner t)) (take_limit t)"

definition take_chunk :: "('a, 'z) buf_core_scheme \<Rightarrow> 'a take_adapter \<Rightarrow> u8 list" where
  "take_chunk B t =
     (let bytes = chunk B (take_inner t) in take (min (length bytes) (take_limit t)) bytes)"

definition take_advance ::
  "('a, 'z) buf_core_scheme \<Rightarrow> 'a take_adapter \<Rightarrow> usize \<Rightarrow> 'a take_adapter res" where
  "take_advance B t cnt =
     res_bind (rust_assert (cnt \<le> take_limit t) ''cnt <= self.limit'') (\<lambda>_.
     res_bind (advance B (take_inner t) cnt) (\<lambda>b.
     res_bind (usize_sub (take_limit t) cnt) (\<lambda>lim.
     Inr (t\<lparr>take_inner := b, take_limit := lim\<rparr>))))"

definition set_limit :: "'a take_adapter \<Rightarrow> usize \<Rightarrow> 'a take_adapter" where
  "set_limit t lim = t\<lparr>take_limit := lim\<rparr>"

text \<open>
  The loop of \<open>chunks_vectored\<close> over \<open>dst[..cnt]\<close> and \<open>slices\<close>, side by side; \<open>i\<close>
  counts the entries written.
\<close>

fun take_fill ::
  "usize \<Rightarrow> usize \<Rightarrow> usize \<Rightarrow> u8 list list \<Rightarrow> u8 list list \<Rightarrow> (u8 list list \<times> usize) res" where
  "take_fill cnt limit i (d # ds) (sl # slices) =
     (case slice_get_to sl limit of
        Some buf \<Rightarrow> Inr (buf # ds, i + 1)
      | None \<Rightarrow>
          res_bind (usize_sub limit (length sl)) (\<lambda>limit.
          res_bind (take_fill cnt limit (i + 1) ds slices) (\<lambda>(ds, n). Inr (sl # ds, n))))"
| "take_fill cnt limit i ds slices = Inr (ds, cnt)"

definition take_chunks_vectored ::
  "('a, 'z) buf_scheme \<Rightarrow> 'a take_adapter \<Rightarrow> u8 list list \<Rightarrow> (u8 list list \<times> usize) res" where
  "take_chunks_vectored B t dst =
     (if take_limit t = 0 then Inr (dst, 0)
      else
        let LEN = 16; slices = replicate LEN []; k = min (length dst) LEN in
        res_bind (chunks_vectored B (take_inner t) (take k slices)) (\<lambda>(filled, cnt).
        res_bind (slice_to dst cnt) (\<lambda>entries.
        res_bind (take_fill cnt (take_limit t) 0 entries (filled @ drop k slices)) (\<lambda>(entries, n).
        Inr (entries @ drop cnt dst, n)))))"

definition take_core :: "('a, 'z) buf_core_scheme \<Rightarrow> 'a take_adapter buf_core" where
  "take_core B = \<lparr>remaining = take_remaining B, chunk = take_chunk B, advance = take_advance B\<rparr>"

definition take_buf :: "('a, 'z) buf_scheme \<Rightarrow> 'a take_adapter buf" where
  "take_buf B = (with_defaults (take_core B))\<lparr>chunks_vectored := take_chunks_vectored B\<rparr>"

definition take_view :: "('a \<Rightarrow> u8 list) \<Rightarrow> 'a take_adapter \<Rightarrow> u8 list" where
  "take_view v t = take (take_limit t) (v (take_inner t))"

abbreviation take_ok :: "('a \<Rightarrow> bool) \<Rightarrow> 'a take_adapter \<Rightarrow> bool" where
  "take_ok ok t \<equiv> ok (take_inner t)"

context buf_core_contract
begin

lemma take_core_contract: "buf_core_contract (take_core B) (take_ok ok) (take_view view)"
proof unfold_locales
  fix t n
  assume ok: "take_ok ok t"
  show "remaining (take_core B) t = length (take_view view t)"
    using ok by (simp add: take_core_def take_remaining_def take_view_def remaining_view)
  show "prefix (chunk (take_core B) t) (take_view view t)"
    using chunk_prefix [OF ok]
    by (auto simp: take_core_def take_chunk_def take_view_def Let_def prefix_def min_def)
  show "take_view view t \<noteq> [] \<Longrightarrow> chunk (take_core B) t \<noteq> []"
    using chunk_nonempty [OF ok] by (auto simp: take_core_def take_chunk_def take_view_def Let_def)
  show "n \<le> length (take_view view t) \<Longrightarrow> \<exists>t'. advance (take_core B) t n = Inr t' \<and>
      take_ok ok t' \<and> take_view view t' = drop n (take_view view t)"
    using advance_view [OF ok, of n]
    by (auto simp: take_core_def take_advance_def take_view_def rust_assert_def usize_sub_def drop_take)
  show "length (take_view view t) < n \<Longrightarrow> \<exists>p. advance (take_core B) t n = Inl (Panic p)"
    using advance_past [OF ok, of n]
    by (cases "n \<le> take_limit t") (auto simp: take_core_def take_advance_def take_view_def rust_assert_def
        min_def split: if_splits)
qed

end

lemma take_fill_ok:
  assumes "length ds = length ss" "cnt = i + length ss" "0 < limit" "\<forall>c \<in> set ss. c \<noteq> []"
  shows "\<exists>ds' m. take_fill cnt limit i ds (ss @ rest) = Inr (ds', i + m) \<and>
    m \<le> length ss \<and> length ds' = length ds \<and> drop m ds' = drop m ds \<and>
    concat (take m ds') = take limit (concat ss) \<and> (\<forall>c \<in> set (take m ds'). c \<noteq> []) \<and>
    (m = 0 \<longrightarrow> ss = []) \<and> (m < length ss \<longrightarrow> limit \<le> length (concat ss))"
  using assms
proof (induction ss arbitrary: ds i limit)
  case Nil
  then show ?case by simp
next
  case (Cons sl ss)
  then obtain d ds0 where ds: "ds = d # ds0" by (cases ds) auto
  show ?case
  proof (cases "limit \<le> length sl")
    case True
    with Cons.prems ds show ?thesis
      by (intro exI [of _ "take limit sl # ds0"] exI [of _ 1]) (auto simp: slice_get_to_def)
  next
    case False
    with Cons.prems ds obtain ds' m where
      "take_fill cnt (limit - length sl) (i + 1) ds0 (ss @ rest) = Inr (ds', i + 1 + m)"
      "m \<le> length ss" "length ds' = length ds0" "drop m ds' = drop m ds0"
      "concat (take m ds') = take (limit - length sl) (concat ss)"
      "\<forall>c \<in> set (take m ds'). c \<noteq> []" "m = 0 \<longrightarrow> ss = []"
      "m < length ss \<longrightarrow> limit - length sl \<le> length (concat ss)"
      using Cons.IH [of ds0 "i + 1" "limit - length sl"] by auto
    with False Cons.prems ds show ?thesis
      by (intro exI [of _ "sl # ds'"] exI [of _ "Suc m"])
        (auto simp: slice_get_to_def usize_sub_def)
  qed
qed

text \<open>
  At most 16 slices of the inner reader are looked at: what they hold, cut at the limit, is what
  is returned. Fewer are returned only when the limit is reached.
\<close>

lemma take_chunks_vectored_exact:
  assumes "buf_vectored B ok view" "take_ok ok t"
    and inner: "chunks_vectored B (take_inner t) (replicate (min (length dst) 16) []) = Inr (filled, cnt)"
  shows "\<exists>dst' n. take_chunks_vectored B t dst = Inr (dst', n) \<and> vectored_ok (take_view view t) dst dst' n \<and>
    concat (take n dst') = take (take_limit t) (concat (take cnt filled)) \<and> n \<le> cnt \<and> cnt \<le> 16 \<and>
    (n < cnt \<longrightarrow> take_limit t \<le> length (concat (take cnt filled)))"
proof -
  let ?k = "min (length dst) 16"
  let ?s = "replicate ?k [] :: u8 list list"
  have "length ?s \<le> isize_max" by (simp add: isize_max_def)
  from buf_vectored.chunks_vectored_ok [OF assms(1,2) this] inner
  have f: "vectored_ok (view (take_inner t)) ?s filled cnt" by simp
  note ok = vectored_okD [OF f]
  show ?thesis
  proof (cases "take_limit t = 0")
    case True
    with ok(1) show ?thesis by (simp add: take_chunks_vectored_def vectored_ok_def take_view_def)
  next
    case False
    let ?rest = "drop cnt filled @ drop ?k (replicate 16 [])"
    from ok False take_fill_ok [of "take cnt dst" "take cnt filled" cnt 0 "take_limit t" ?rest]
    obtain ds m where
      m: "take_fill cnt (take_limit t) 0 (take cnt dst) (take cnt filled @ ?rest) = Inr (ds, m)"
        "m \<le> cnt" "length ds = cnt" "drop m ds = drop m (take cnt dst)"
        "concat (take m ds) = take (take_limit t) (concat (take cnt filled))"
        "\<forall>c \<in> set (take m ds). c \<noteq> []" "m = 0 \<longrightarrow> take cnt filled = []"
        "m < cnt \<longrightarrow> take_limit t \<le> length (concat (take cnt filled))" by auto
    have c: "cnt \<le> length dst" "cnt \<le> 16" "take ?k (replicate 16 []) = ?s" using ok(1) by auto
    have "take_chunks_vectored B t dst = Inr (ds @ drop cnt dst, m)"
      using False inner m(1) c
      by (simp add: take_chunks_vectored_def Let_def slice_to_def flip: append_assoc)
    moreover have "vectored_ok (take_view view t) dst (ds @ drop cnt dst) m"
    proof -
      have "m = 0 \<longrightarrow> dst = [] \<or> take_view view t = []"
        using m(7) ok(2,5) by (auto simp: take_view_def min_def split: if_splits)
      moreover have "prefix (concat (take m ds)) (take_view view t)"
        using m(5) ok(4) by (simp add: take_view_def prefix_take_mono)
      moreover have "drop m (ds @ drop cnt dst) = drop m dst"
        using m(2-4) c(1) by (simp add: drop_take_append_drop)
      ultimately show ?thesis using m c by (simp add: vectored_ok_def)
    qed
    ultimately show ?thesis using m c by simp
  qed
qed

lemma take_chunks_vectored_ok:
  assumes "buf_vectored B ok view" "take_ok ok t"
  shows "\<exists>dst' n. take_chunks_vectored B t dst = Inr (dst', n) \<and> vectored_ok (take_view view t) dst dst' n"
proof -
  have "length (replicate (min (length dst) 16) [] :: u8 list list) \<le> isize_max" by (simp add: isize_max_def)
  from buf_vectored.chunks_vectored_ok [OF assms this] take_chunks_vectored_exact [OF assms, of dst]
  show ?thesis by blast
qed

lemma buf_vectored_take:
  assumes "buf_vectored B ok view"
  shows "buf_vectored (take_buf B) (take_ok ok) (take_view view)"
proof -
  have "buf_core_contract B ok view" using assms by (simp add: buf_vectored_def buf_contract_def)
  then have "buf_contract (take_buf B) (take_ok ok) (take_view view)"
    by (intro buf_contract_with_defaults [OF buf_core_contract.take_core_contract])
      (simp_all add: take_buf_def)
  with take_chunks_vectored_ok [OF assms] show ?thesis
    by (simp add: buf_vectored_def buf_vectored_axioms_def take_buf_def)
qed

text \<open>
  With no more than 16 entries, or when 16 slices hold all that is left, a \<open>Take\<close> of a complete
  reader leaves bytes out only when \<open>dst\<close> is full.
\<close>

lemma take_chunks_vectored_complete:
  assumes "buf_complete B ok view" "take_ok ok t" "take_chunks_vectored B t dst = Inr (dst', n)" "n < length dst"
    and inner: "chunks_vectored B (take_inner t) (replicate 16 []) = Inr (filled, cnt)"
    and enough: "length dst \<le> 16 \<or> length (take_view view t) \<le> length (concat (take cnt filled))"
  shows "concat (take n dst') = take_view view t"
proof -
  note B = buf_complete.axioms(1) [OF assms(1)]
  let ?s = "replicate (min (length dst) 16) [] :: u8 list list"
  have s: "length ?s \<le> isize_max" by (simp add: isize_max_def)
  from buf_vectored.chunks_vectored_ok [OF B assms(2) s] obtain f k where
    f: "chunks_vectored B (take_inner t) ?s = Inr (f, k)" "vectored_ok (view (take_inner t)) ?s f k" by blast
  from take_chunks_vectored_exact [OF B assms(2) f(1)] assms(3) have
    n: "concat (take n dst') = take (take_limit t) (concat (take k f))" "n \<le> k"
      "n < k \<longrightarrow> take_limit t \<le> length (concat (take k f))" by auto
  obtain rest where view: "view (take_inner t) = concat (take k f) @ rest"
    using vectored_okD(4) [OF f(2)] by (auto simp: prefix_def)
  have "take_limit t \<le> length (concat (take k f)) \<or> rest = []"
  proof (cases "length dst \<le> 16")
    case True
    then have "n < k \<or> k < length ?s" using assms(4) by auto
    then show ?thesis
      using n(3) buf_complete.chunks_vectored_complete [OF assms(1,2) s f(1)] view by auto
  next
    case False
    then have "?s = replicate 16 []" by simp
    with inner f(1) enough False view show ?thesis by (auto simp: take_view_def min_def split: if_splits)
  qed
  with n(1) view show ?thesis by (auto simp: take_view_def)
qed

text \<open>
  A chain behind a \<open>Take\<close>. When \<open>dst\<close> has more than 16 entries, the \<open>Take\<close> has more bytes left
  than the first 16 slices of its inner reader hold, and the second part is not empty, the second
  part is appended in the wrong place; in all other cases the slices are right.
\<close>

lemma vectored_ok_nil: "vectored_ok [] dst d n \<longleftrightarrow> n = 0 \<and> d = dst"
proof
  assume "vectored_ok [] dst d n"
  note ok = vectored_okD [OF this]
  have "take n d = []" using ok(4,6) by (cases "take n d") auto
  with ok(1-3) show "n = 0 \<and> d = dst" by auto
qed (simp add: vectored_ok_def)

lemma chain_take_chunks_vectored:
  assumes B: "buf_complete B ok view" and C: "buf_vectored C okc vc"
    and ok: "take_ok ok (chain_a c)" "okc (chain_b c)" and dst: "length dst \<le> isize_max"
    and inner: "chunks_vectored B (take_inner (chain_a c)) (replicate 16 []) = Inr (filled, cnt)"
  shows "\<exists>dst' n. chain_chunks_vectored (take_buf B) C c dst = Inr (dst', n) \<and>
    (if 16 < length dst \<and> length (concat (take cnt filled)) < length (take_view view (chain_a c)) \<and>
        vc (chain_b c) \<noteq> []
     then \<exists>skipped second. take_view view (chain_a c) = concat (take cnt filled) @ skipped \<and> skipped \<noteq> [] \<and>
       concat (take n dst') = concat (take cnt filled) @ second \<and> second \<noteq> [] \<and> prefix second (vc (chain_b c))
     else vectored_ok (chain_view (take_view view) vc c) dst dst' n)"
proof -
  note V = buf_complete.axioms(1) [OF B]
  let ?t = "chain_a c" and ?bytes = "concat (take cnt filled)"
  from chain_chunks_vectored_parts [OF buf_vectored_take [OF V] C ok dst] obtain d n e m where
    d: "take_chunks_vectored B ?t dst = Inr (d, n)" "vectored_ok (take_view view ?t) dst d n" and
    e: "vectored_ok (vc (chain_b c)) (drop n d) e m" and
    r: "chain_chunks_vectored (take_buf B) C c dst = Inr (take n d @ e, n + m)"
    by (auto simp: take_buf_def)
  show ?thesis
  proof (cases "16 < length dst \<and> length ?bytes < length (take_view view ?t) \<and> vc (chain_b c) \<noteq> []")
    case True
    then have "min (length dst) 16 = 16" by simp
    with take_chunks_vectored_exact [OF V ok(1), of dst filled cnt] inner d(1) have
      n: "concat (take n d) = take (take_limit ?t) ?bytes" "n \<le> 16" by auto
    have "take (take_limit ?t) ?bytes = ?bytes" using True by (auto simp: take_view_def)
    with n vectored_okD(4) [OF d(2)] obtain skipped where
      skipped: "take_view view ?t = ?bytes @ skipped" "concat (take n d) = ?bytes" by (auto simp: prefix_def)
    have len: "length d = length dst" using vectored_okD(2) [OF d(2)] .
    with True n(2) have "drop n d \<noteq> []" by simp
    with True vectored_okD(5) [OF e] have "m \<noteq> 0" by auto
    with vectored_okD(1,2,6) [OF e] have "concat (take m e) \<noteq> []" by (cases e; cases m) auto
    moreover have "concat (take (n + m) (take n d @ e)) = ?bytes @ concat (take m e)"
      using skipped(2) vectored_okD(1) [OF d(2)] len by simp
    ultimately show ?thesis using True r skipped vectored_okD(4) [OF e] by auto
  next
    case False
    have "vectored_ok (take_view view ?t @ vc (chain_b c)) dst (take n d @ e) (n + m)"
    proof (cases "vc (chain_b c) = []")
      case True
      with d(2) e show ?thesis by (simp add: vectored_ok_nil)
    next
      case ne: False
      with False take_chunks_vectored_complete [OF B ok(1) d(1) _ inner] show ?thesis
        by (intro vectored_ok_append [OF d(2) e]) auto
    qed
    with False r show ?thesis by (auto simp: chain_view_def)
  qed
qed

section \<open>IntoIter\<close>

definition into_iter_next :: "('b, 'z) buf_core_scheme \<Rightarrow> 'b \<Rightarrow> (u8 option \<times> 'b) res" where
  "into_iter_next B i =
     (if \<not> has_remaining B i then Inr (None, i)
      else
        res_bind (slice_nth (chunk B i) 0) (\<lambda>b.
        res_bind (advance B i 1) (\<lambda>i. Inr (Some b, i))))"

definition into_iter_size_hint :: "('b, 'z) buf_core_scheme \<Rightarrow> 'b \<Rightarrow> usize \<times> usize option" where
  "into_iter_size_hint B i = (let rem = remaining B i in (rem, Some rem))"

text \<open>\<open>for b in iter\<close>: call \<open>next\<close> until it returns \<open>None\<close>, collecting the items.\<close>

definition collect_step ::
  "('b, 'z) buf_core_scheme \<Rightarrow> u8 list \<times> bool \<times> 'b \<Rightarrow> (u8 list \<times> bool \<times> 'b) res" where
  "collect_step B = (\<lambda>(out, done, i).
     res_bind (into_iter_next B i) (\<lambda>(r, i).
     case r of None \<Rightarrow> Inr (out, True, i) | Some b \<Rightarrow> Inr (out @ [b], False, i)))"

definition iter_collect :: "('b, 'z) buf_core_scheme \<Rightarrow> 'b \<Rightarrow> u8 list res" where
  "iter_collect B i =
     res_bind (rust_while (\<lambda>(out, done, i). \<not> done) (collect_step B) ([], False, i))
       (\<lambda>(out, done, i). Inr out)"

context buf_core_contract
begin

lemma into_iter_next_view:
  assumes "ok i"
  shows "case view i of
      [] \<Rightarrow> into_iter_next B i = Inr (None, i)
    | b # bs \<Rightarrow> \<exists>i'. into_iter_next B i = Inr (Some b, i') \<and> ok i' \<and> view i' = bs"
proof (cases "view i")
  case Nil
  with assms show ?thesis by (simp add: into_iter_next_def has_remaining_view)
next
  case (Cons b bs)
  with assms chunk_nonempty [OF assms] chunk_prefix [OF assms]
  have "slice_nth (chunk B i) 0 = Inr b"
    by (cases "chunk B i") (auto simp: slice_nth_def)
  with Cons assms advance_view [OF assms, of 1] show ?thesis
    by (auto simp: into_iter_next_def has_remaining_view)
qed

lemma iter_collect_view:
  assumes "ok i"
  shows "iter_collect B i = Inr (view i)"
proof -
  let ?P = "\<lambda>(out, fin, j). ok j \<and> out @ view j = view i \<and> (fin \<longrightarrow> view j = [])"
  let ?m = "\<lambda>(out, fin, j). 2 * length (view j) + (if fin then 0 else 1)"
  have step: "\<exists>t. collect_step B s = Inr t \<and> ?P t \<and> ?m t < ?m s"
    if "?P s" "case s of (out, fin, j) \<Rightarrow> \<not> fin" for s
  proof -
    obtain out fin j where "s = (out, fin, j)" by (cases s)
    with that have s: "s = (out, False, j)" and P: "ok j" "out @ view j = view i" by auto
    show ?thesis
    proof (cases "view j")
      case Nil
      with into_iter_next_view [OF P(1)] P s show ?thesis by (auto simp: collect_step_def)
    next
      case (Cons b bs)
      with into_iter_next_view [OF P(1)] obtain j' where
        "into_iter_next B j = Inr (Some b, j')" "ok j'" "view j' = bs" by auto
      with Cons P s show ?thesis
        by (intro exI [of _ "(out @ [b], False, j')"]) (simp add: collect_step_def)
    qed
  qed
  have "\<exists>t. rust_while (\<lambda>(out, fin, j). \<not> fin) (collect_step B) ([], False, i) = Inr t \<and>
      ?P t \<and> \<not> (case t of (out, fin, j) \<Rightarrow> \<not> fin)"
    by (rule rust_while_rule [where m = ?m]) (use assms step in auto)
  then show ?thesis by (auto simp: iter_collect_def)
qed

end

section \<open>Reader\<close>

text \<open>\<open>io::Read::read\<close> never fails: the \<open>io::Result\<close> is always \<open>Ok\<close>.\<close>

definition reader_read ::
  "('b, 'z) buf_scheme \<Rightarrow> 'b \<Rightarrow> u8 list \<Rightarrow> ((usize, 'e) result \<times> u8 list \<times> 'b) res" where
  "reader_read B b dst =
     (let len = min (remaining B b) (length dst) in
      res_bind (slice_range dst 0 len) (\<lambda>part.
      res_bind (copy_to_slice B b part) (\<lambda>(part, b).
      Inr (Ok len, part @ drop len dst, b))))"

definition reader_fill_buf :: "('b, 'z) buf_core_scheme \<Rightarrow> 'b \<Rightarrow> (u8 list, 'e) result" where
  "reader_fill_buf B b = Ok (chunk B b)"

definition reader_consume :: "('b, 'z) buf_core_scheme \<Rightarrow> 'b \<Rightarrow> usize \<Rightarrow> 'b res" where
  "reader_consume B b amt = advance B b amt"

context buf_contract
begin

lemma reader_read_view:
  assumes "ok b"
  shows "\<exists>b'. (reader_read B b dst :: ((usize, 'e) result \<times> u8 list \<times> 'b) res) =
      Inr (Ok (min (length (view b)) (length dst)),
        take (length dst) (view b) @ drop (length (view b)) dst, b') \<and>
    ok b' \<and> view b' = drop (length dst) (view b)"
proof -
  let ?n = "min (length (view b)) (length dst)"
  from copy_to_slice_view [OF assms, of "take ?n dst"] obtain b' where
    "copy_to_slice B b (take ?n dst) = Inr (take ?n (view b), b')" "ok b'" "view b' = drop ?n (view b)"
    by auto
  with assms show ?thesis
    by (auto simp: reader_read_def Let_def slice_range_def remaining_view min_def)
qed

end

end
