(* ===== verification/Buf_Mut.thy ===== *)
theory Buf_Mut
  imports Buf_Adapters
begin

text \<open>
  The trait \<open>BufMut\<close> (\<^verbatim>\<open>patches/bytes/src/buf/buf_mut.rs\<close>) and \<open>UninitSlice\<close>
  (\<^verbatim>\<open>uninit_slice.rs\<close>): writing bytes into memory that may not be initialised yet.

  A byte of memory is a \<^typ>\<open>u8 option\<close>, \<^const>\<open>None\<close> while it is uninitialised. The
  mutable borrow that \<open>chunk_mut\<close> returns is the contents of the chunk together with the
  function that ends the borrow: given the new contents it yields the new \<open>self\<close>.

  The contract is the locale \<open>buf_mut_core_contract\<close>: \<open>out\<close> is what has been written
  so far and \<open>room\<close> the number of bytes that can be written for sure (a growing vector can
  also fail to grow).
\<close>

section \<open>UninitSlice\<close>

type_synonym maybe_uninit = "u8 option"
type_synonym uninit_slice = "maybe_uninit list"

definition uninit_slice_new :: "u8 list \<Rightarrow> uninit_slice" where
  "uninit_slice_new s = map Some s"

definition uninit_slice_uninit :: "maybe_uninit list \<Rightarrow> uninit_slice" where
  "uninit_slice_uninit s = s"

definition write_byte :: "uninit_slice \<Rightarrow> usize \<Rightarrow> u8 \<Rightarrow> uninit_slice res" where
  "write_byte s index byte =
     res_bind (rust_assert (index < length s) ''index < self.len()'') (\<lambda>_.
     Inr (s[index := Some byte]))"

definition uninit_copy_from_slice :: "uninit_slice \<Rightarrow> u8 list \<Rightarrow> uninit_slice res" where
  "uninit_copy_from_slice s src =
     res_bind (rust_assert (length s = length src) ''self.len() == src.len()'') (\<lambda>_.
     Inr (map Some src))"

text \<open>\<open>ptr::write_bytes(p, val, n)\<close> over a chunk; writing past it is undefined behaviour.\<close>

definition write_bytes :: "uninit_slice \<Rightarrow> u8 \<Rightarrow> usize \<Rightarrow> uninit_slice res" where
  "write_bytes s val n =
     (if n \<le> length s then Inr (replicate n (Some val) @ drop n s)
      else Inl (UB ''write_bytes out of bounds''))"

section \<open>The operations of an implementation\<close>

record 'b buf_mut_core =
  remaining_mut :: "'b \<Rightarrow> usize"
  advance_mut :: "'b \<Rightarrow> usize \<Rightarrow> 'b res"
  chunk_mut :: "'b \<Rightarrow> (uninit_slice \<times> (uninit_slice \<Rightarrow> 'b res)) res"

record 'b buf_mut = "'b buf_mut_core" +
  put_slice :: "'b \<Rightarrow> u8 list \<Rightarrow> 'b res"
  put_bytes :: "'b \<Rightarrow> u8 \<Rightarrow> usize \<Rightarrow> 'b res"

section \<open>Provided methods\<close>

definition has_remaining_mut :: "('b, 'z) buf_mut_core_scheme \<Rightarrow> 'b \<Rightarrow> bool" where
  "has_remaining_mut M b \<longleftrightarrow> remaining_mut M b > 0"

text \<open>\<open>d[..cnt].copy_from_slice(&s[..cnt])\<close> on the borrowed chunk \<open>d\<close>\<close>

definition copy_into_chunk :: "uninit_slice \<Rightarrow> u8 list \<Rightarrow> usize \<Rightarrow> uninit_slice res" where
  "copy_into_chunk d s cnt =
     res_bind (slice_to d cnt) (\<lambda>part.
     res_bind (slice_to s cnt) (\<lambda>src.
     res_bind (uninit_copy_from_slice part src) (\<lambda>part. Inr (part @ drop cnt d))))"

definition put_step ::
  "('b, 'z) buf_mut_core_scheme \<Rightarrow> ('s, 'y) buf_core_scheme \<Rightarrow> 'b \<times> 's \<Rightarrow> ('b \<times> 's) res" where
  "put_step M S = (\<lambda>(b, src).
     let s = chunk S src in
     res_bind (chunk_mut M b) (\<lambda>(d, commit).
     let cnt = min (length s) (length d) in
     res_bind (copy_into_chunk d s cnt) (\<lambda>d.
     res_bind (commit d) (\<lambda>b.
     res_bind (advance_mut M b cnt) (\<lambda>b.
     res_bind (advance S src cnt) (\<lambda>src. Inr (b, src)))))))"

definition put ::
  "('b, 'z) buf_mut_core_scheme \<Rightarrow> ('s, 'y) buf_core_scheme \<Rightarrow> 'b \<Rightarrow> 's \<Rightarrow> ('b \<times> 's) res" where
  "put M S b src =
     (if remaining_mut M b < remaining S src
      then panic_advance \<lparr>requested = remaining S src, available = remaining_mut M b\<rparr>
      else rust_while (\<lambda>(b, src). has_remaining S src) (put_step M S) (b, src))"

definition put_slice_step ::
  "('b, 'z) buf_mut_core_scheme \<Rightarrow> 'b \<times> u8 list \<Rightarrow> ('b \<times> u8 list) res" where
  "put_slice_step M = (\<lambda>(b, src).
     res_bind (chunk_mut M b) (\<lambda>(dst, commit).
     let cnt = min (length src) (length dst) in
     res_bind (copy_into_chunk dst src cnt) (\<lambda>dst.
     res_bind (commit dst) (\<lambda>b.
     res_bind (slice_from src cnt) (\<lambda>src.
     res_bind (advance_mut M b cnt) (\<lambda>b. Inr (b, src)))))))"

definition put_slice_default :: "('b, 'z) buf_mut_core_scheme \<Rightarrow> 'b \<Rightarrow> u8 list \<Rightarrow> 'b res" where
  "put_slice_default M b src =
     (if remaining_mut M b < length src
      then panic_advance \<lparr>requested = length src, available = remaining_mut M b\<rparr>
      else res_bind (rust_while (\<lambda>(b, src). src \<noteq> []) (put_slice_step M) (b, src))
             (\<lambda>(b, src). Inr b))"

definition put_bytes_step ::
  "('b, 'z) buf_mut_core_scheme \<Rightarrow> u8 \<Rightarrow> 'b \<times> usize \<Rightarrow> ('b \<times> usize) res" where
  "put_bytes_step M val = (\<lambda>(b, cnt).
     res_bind (chunk_mut M b) (\<lambda>(dst, commit).
     let dst_len = min (length dst) cnt in
     res_bind (write_bytes dst val dst_len) (\<lambda>dst.
     res_bind (commit dst) (\<lambda>b.
     res_bind (advance_mut M b dst_len) (\<lambda>b.
     res_bind (usize_sub cnt dst_len) (\<lambda>cnt. Inr (b, cnt)))))))"

definition put_bytes_default :: "('b, 'z) buf_mut_core_scheme \<Rightarrow> 'b \<Rightarrow> u8 \<Rightarrow> usize \<Rightarrow> 'b res" where
  "put_bytes_default M b val cnt =
     (if remaining_mut M b < cnt
      then panic_advance \<lparr>requested = cnt, available = remaining_mut M b\<rparr>
      else res_bind (rust_while (\<lambda>(b, cnt). cnt > 0) (put_bytes_step M val) (b, cnt))
             (\<lambda>(b, cnt). Inr b))"

definition put_u8 :: "('b, 'z) buf_mut_scheme \<Rightarrow> 'b \<Rightarrow> u8 \<Rightarrow> 'b res" where
  "put_u8 M b n = put_slice M b [n]"

definition put_i8 :: "('b, 'z) buf_mut_scheme \<Rightarrow> 'b \<Rightarrow> i8 \<Rightarrow> 'b res" where
  "put_i8 M b n = put_slice M b [n]"

definition put_u16 :: "('b, 'z) buf_mut_scheme \<Rightarrow> 'b \<Rightarrow> u16 \<Rightarrow> 'b res" where
  "put_u16 M b n = put_slice M b (to_be_bytes n)"

definition put_u16_le :: "('b, 'z) buf_mut_scheme \<Rightarrow> 'b \<Rightarrow> u16 \<Rightarrow> 'b res" where
  "put_u16_le M b n = put_slice M b (to_le_bytes n)"

definition put_u16_ne :: "bool \<Rightarrow> ('b, 'z) buf_mut_scheme \<Rightarrow> 'b \<Rightarrow> u16 \<Rightarrow> 'b res" where
  "put_u16_ne big M b n = put_slice M b (to_ne_bytes big n)"

definition put_i16 :: "('b, 'z) buf_mut_scheme \<Rightarrow> 'b \<Rightarrow> i16 \<Rightarrow> 'b res" where
  "put_i16 M b n = put_slice M b (to_be_bytes n)"

definition put_i16_le :: "('b, 'z) buf_mut_scheme \<Rightarrow> 'b \<Rightarrow> i16 \<Rightarrow> 'b res" where
  "put_i16_le M b n = put_slice M b (to_le_bytes n)"

definition put_i16_ne :: "bool \<Rightarrow> ('b, 'z) buf_mut_scheme \<Rightarrow> 'b \<Rightarrow> i16 \<Rightarrow> 'b res" where
  "put_i16_ne big M b n = put_slice M b (to_ne_bytes big n)"

definition put_u32 :: "('b, 'z) buf_mut_scheme \<Rightarrow> 'b \<Rightarrow> u32 \<Rightarrow> 'b res" where
  "put_u32 M b n = put_slice M b (to_be_bytes n)"

definition put_u32_le :: "('b, 'z) buf_mut_scheme \<Rightarrow> 'b \<Rightarrow> u32 \<Rightarrow> 'b res" where
  "put_u32_le M b n = put_slice M b (to_le_bytes n)"

definition put_u32_ne :: "bool \<Rightarrow> ('b, 'z) buf_mut_scheme \<Rightarrow> 'b \<Rightarrow> u32 \<Rightarrow> 'b res" where
  "put_u32_ne big M b n = put_slice M b (to_ne_bytes big n)"

definition put_i32 :: "('b, 'z) buf_mut_scheme \<Rightarrow> 'b \<Rightarrow> i32 \<Rightarrow> 'b res" where
  "put_i32 M b n = put_slice M b (to_be_bytes n)"

definition put_i32_le :: "('b, 'z) buf_mut_scheme \<Rightarrow> 'b \<Rightarrow> i32 \<Rightarrow> 'b res" where
  "put_i32_le M b n = put_slice M b (to_le_bytes n)"

definition put_i32_ne :: "bool \<Rightarrow> ('b, 'z) buf_mut_scheme \<Rightarrow> 'b \<Rightarrow> i32 \<Rightarrow> 'b res" where
  "put_i32_ne big M b n = put_slice M b (to_ne_bytes big n)"

definition put_u64 :: "('b, 'z) buf_mut_scheme \<Rightarrow> 'b \<Rightarrow> u64 \<Rightarrow> 'b res" where
  "put_u64 M b n = put_slice M b (to_be_bytes n)"

definition put_u64_le :: "('b, 'z) buf_mut_scheme \<Rightarrow> 'b \<Rightarrow> u64 \<Rightarrow> 'b res" where
  "put_u64_le M b n = put_slice M b (to_le_bytes n)"

definition put_u64_ne :: "bool \<Rightarrow> ('b, 'z) buf_mut_scheme \<Rightarrow> 'b \<Rightarrow> u64 \<Rightarrow> 'b res" where
  "put_u64_ne big M b n = put_slice M b (to_ne_bytes big n)"

definition put_i64 :: "('b, 'z) buf_mut_scheme \<Rightarrow> 'b \<Rightarrow> i64 \<Rightarrow> 'b res" where
  "put_i64 M b n = put_slice M b (to_be_bytes n)"

definition put_i64_le :: "('b, 'z) buf_mut_scheme \<Rightarrow> 'b \<Rightarrow> i64 \<Rightarrow> 'b res" where
  "put_i64_le M b n = put_slice M b (to_le_bytes n)"

definition put_i64_ne :: "bool \<Rightarrow> ('b, 'z) buf_mut_scheme \<Rightarrow> 'b \<Rightarrow> i64 \<Rightarrow> 'b res" where
  "put_i64_ne big M b n = put_slice M b (to_ne_bytes big n)"

definition put_u128 :: "('b, 'z) buf_mut_scheme \<Rightarrow> 'b \<Rightarrow> u128 \<Rightarrow> 'b res" where
  "put_u128 M b n = put_slice M b (to_be_bytes n)"

definition put_u128_le :: "('b, 'z) buf_mut_scheme \<Rightarrow> 'b \<Rightarrow> u128 \<Rightarrow> 'b res" where
  "put_u128_le M b n = put_slice M b (to_le_bytes n)"

definition put_u128_ne :: "bool \<Rightarrow> ('b, 'z) buf_mut_scheme \<Rightarrow> 'b \<Rightarrow> u128 \<Rightarrow> 'b res" where
  "put_u128_ne big M b n = put_slice M b (to_ne_bytes big n)"

definition put_i128 :: "('b, 'z) buf_mut_scheme \<Rightarrow> 'b \<Rightarrow> i128 \<Rightarrow> 'b res" where
  "put_i128 M b n = put_slice M b (to_be_bytes n)"

definition put_i128_le :: "('b, 'z) buf_mut_scheme \<Rightarrow> 'b \<Rightarrow> i128 \<Rightarrow> 'b res" where
  "put_i128_le M b n = put_slice M b (to_le_bytes n)"

definition put_i128_ne :: "bool \<Rightarrow> ('b, 'z) buf_mut_scheme \<Rightarrow> 'b \<Rightarrow> i128 \<Rightarrow> 'b res" where
  "put_i128_ne big M b n = put_slice M b (to_ne_bytes big n)"

definition put_uint :: "('b, 'z) buf_mut_scheme \<Rightarrow> 'b \<Rightarrow> u64 \<Rightarrow> usize \<Rightarrow> 'b res" where
  "put_uint M b n nbytes = 
     (case checked_sub (size_bytes n) nbytes of
        Some start \<Rightarrow> res_bind (slice_from (to_be_bytes n) start) (put_slice M b)
      | None \<Rightarrow> panic_does_not_fit nbytes (size_bytes n))"

definition put_uint_le :: "('b, 'z) buf_mut_scheme \<Rightarrow> 'b \<Rightarrow> u64 \<Rightarrow> usize \<Rightarrow> 'b res" where
  "put_uint_le M b n nbytes = 
     (case slice_get_to (to_le_bytes n) nbytes of
        Some sl \<Rightarrow> put_slice M b sl
      | None \<Rightarrow> panic_does_not_fit nbytes (length (to_le_bytes n)))"

definition put_uint_ne :: "bool \<Rightarrow> ('b, 'z) buf_mut_scheme \<Rightarrow> 'b \<Rightarrow> u64 \<Rightarrow> usize \<Rightarrow> 'b res" where
  "put_uint_ne big M b n nbytes = (if big then put_uint M b n nbytes else put_uint_le M b n nbytes)"

definition put_int :: "('b, 'z) buf_mut_scheme \<Rightarrow> 'b \<Rightarrow> i64 \<Rightarrow> usize \<Rightarrow> 'b res" where
  "put_int M b n nbytes = 
     (case checked_sub (size_bytes n) nbytes of
        Some start \<Rightarrow> res_bind (slice_from (to_be_bytes n) start) (put_slice M b)
      | None \<Rightarrow> panic_does_not_fit nbytes (size_bytes n))"

definition put_int_le :: "('b, 'z) buf_mut_scheme \<Rightarrow> 'b \<Rightarrow> i64 \<Rightarrow> usize \<Rightarrow> 'b res" where
  "put_int_le M b n nbytes = 
     (case slice_get_to (to_le_bytes n) nbytes of
        Some sl \<Rightarrow> put_slice M b sl
      | None \<Rightarrow> panic_does_not_fit nbytes (length (to_le_bytes n)))"

definition put_int_ne :: "bool \<Rightarrow> ('b, 'z) buf_mut_scheme \<Rightarrow> 'b \<Rightarrow> i64 \<Rightarrow> usize \<Rightarrow> 'b res" where
  "put_int_ne big M b n nbytes = (if big then put_int M b n nbytes else put_int_le M b n nbytes)"

definition put_f32 :: "('b, 'z) buf_mut_scheme \<Rightarrow> 'b \<Rightarrow> f32 \<Rightarrow> 'b res" where
  "put_f32 M b n = put_u32 M b (f32_to_bits n)"

definition put_f32_le :: "('b, 'z) buf_mut_scheme \<Rightarrow> 'b \<Rightarrow> f32 \<Rightarrow> 'b res" where
  "put_f32_le M b n = put_u32_le M b (f32_to_bits n)"

definition put_f32_ne :: "bool \<Rightarrow> ('b, 'z) buf_mut_scheme \<Rightarrow> 'b \<Rightarrow> f32 \<Rightarrow> 'b res" where
  "put_f32_ne big M b n = put_u32_ne big M b (f32_to_bits n)"

definition put_f64 :: "('b, 'z) buf_mut_scheme \<Rightarrow> 'b \<Rightarrow> f64 \<Rightarrow> 'b res" where
  "put_f64 M b n = put_u64 M b (f64_to_bits n)"

definition put_f64_le :: "('b, 'z) buf_mut_scheme \<Rightarrow> 'b \<Rightarrow> f64 \<Rightarrow> 'b res" where
  "put_f64_le M b n = put_u64_le M b (f64_to_bits n)"

definition put_f64_ne :: "bool \<Rightarrow> ('b, 'z) buf_mut_scheme \<Rightarrow> 'b \<Rightarrow> f64 \<Rightarrow> 'b res" where
  "put_f64_ne big M b n = put_u64_ne big M b (f64_to_bits n)"

text \<open>
  \<open>deref_forward_bufmut!\<close>: a \<open>&mut T\<close> or a \<open>Box<T>\<close> forwards \<open>put_slice\<close>
  but not \<open>put_bytes\<close>, which is the default one over the forwarded chunks.
\<close>

definition deref_forward_bufmut :: "'b buf_mut \<Rightarrow> 'b buf_mut" where
  "deref_forward_bufmut M =
     \<lparr>remaining_mut = (\<lambda>b. remaining_mut M b),
      advance_mut = (\<lambda>b cnt. advance_mut M b cnt),
      chunk_mut = (\<lambda>b. chunk_mut M b),
      put_slice = (\<lambda>b src. put_slice M b src),
      put_bytes = put_bytes_default M\<rparr>"

definition with_default_puts :: "'b buf_mut_core \<Rightarrow> 'b buf_mut" where
  "with_default_puts C =
     \<lparr>remaining_mut = remaining_mut C, advance_mut = advance_mut C, chunk_mut = chunk_mut C,
      put_slice = put_slice_default C, put_bytes = put_bytes_default C\<rparr>"

lemma with_default_puts_simps [simp]:
  "remaining_mut (with_default_puts C) = remaining_mut C"
  "advance_mut (with_default_puts C) = advance_mut C"
  "chunk_mut (with_default_puts C) = chunk_mut C"
  "put_slice (with_default_puts C) = put_slice_default C"
  "put_bytes (with_default_puts C) = put_bytes_default C"
  by (simp_all add: with_default_puts_def)

section \<open>The contract\<close>

text \<open>
  What writing \<open>bs\<close> does to a buffer: the bytes are appended, the numbers of bytes that
  remain shrink accordingly.
\<close>

definition written ::
  "('b, 'z) buf_mut_core_scheme \<Rightarrow> ('b \<Rightarrow> bool) \<Rightarrow> ('b \<Rightarrow> u8 list) \<Rightarrow> ('b \<Rightarrow> usize) \<Rightarrow> u8 list \<Rightarrow>
     'b \<Rightarrow> 'b \<Rightarrow> bool" where
  "written M ok out room bs b b' \<longleftrightarrow>
     ok b' \<and> out b' = out b @ bs \<and> remaining_mut M b' = remaining_mut M b - length bs \<and>
     room b - length bs \<le> room b'"

lemma written_refl: "ok b \<Longrightarrow> written M ok out room [] b b"
  by (simp add: written_def)

lemma written_trans:
  "written M ok out room xs b c \<Longrightarrow> written M ok out room ys c d \<Longrightarrow> written M ok out room (xs @ ys) b d"
  by (auto simp: written_def)

locale buf_mut_core_contract =
  fixes M :: "('b, 'z) buf_mut_core_scheme"
    and ok :: "'b \<Rightarrow> bool"
    and out :: "'b \<Rightarrow> u8 list"
    and room :: "'b \<Rightarrow> usize"
  assumes room_le: "ok b \<Longrightarrow> room b \<le> remaining_mut M b"
    and chunk_mut_nonempty: "ok b \<Longrightarrow> 0 < room b \<Longrightarrow>
      \<exists>mem commit. chunk_mut M b = Inr (mem, commit) \<and> mem \<noteq> []"
    and chunk_mut_le: "ok b \<Longrightarrow> chunk_mut M b = Inr (mem, commit) \<Longrightarrow> length mem \<le> remaining_mut M b"
    and chunk_write: "ok b \<Longrightarrow> chunk_mut M b = Inr (mem, commit) \<Longrightarrow> length bs \<le> length mem \<Longrightarrow>
      \<exists>b1 b2. commit (map Some bs @ drop (length bs) mem) = Inr b1 \<and>
        remaining_mut M b1 = remaining_mut M b \<and>
        advance_mut M b1 (length bs) = Inr b2 \<and> written M ok out room bs b b2"
begin

lemma put_slice_step_writes:
  assumes "ok b" "src \<noteq> []" "length src \<le> room b"
  shows "\<exists>n b'. put_slice_step M (b, src) = Inr (b', drop n src) \<and> 0 < n \<and> n \<le> length src \<and>
    written M ok out room (take n src) b b'"
proof -
  from assms have "0 < room b" by (cases src) auto
  with assms chunk_mut_nonempty obtain mem commit where
    mem: "chunk_mut M b = Inr (mem, commit)" "mem \<noteq> []" by blast
  let ?n = "min (length src) (length mem)"
  from chunk_write [OF assms(1) mem(1), of "take ?n src"] obtain b1 b2 where
    "commit (map Some (take ?n src) @ drop ?n mem) = Inr b1" "advance_mut M b1 ?n = Inr b2"
    "written M ok out room (take ?n src) b b2" by auto
  with mem assms show ?thesis
    by (intro exI [of _ ?n] exI [of _ b2])
      (simp add: put_slice_step_def copy_into_chunk_def uninit_copy_from_slice_def rust_assert_def
        Let_def slice_to_def slice_from_def)
qed

lemma put_slice_default_writes:
  assumes "ok b" "length src \<le> room b"
  shows "\<exists>b'. put_slice_default M b src = Inr b' \<and> written M ok out room src b b'"
proof -
  let ?P = "\<lambda>(c, rest). ok c \<and> length rest \<le> room c \<and>
    (\<exists>w. src = w @ rest \<and> written M ok out room w b c)"
  have step: "\<exists>t. put_slice_step M s = Inr t \<and> ?P t \<and> length (snd t) < length (snd s)"
    if "?P s" "case s of (c, rest) \<Rightarrow> rest \<noteq> []" for s
  proof -
    obtain c rest where s: "s = (c, rest)" by (cases s)
    with that obtain w where P: "ok c" "length rest \<le> room c" "rest \<noteq> []" "src = w @ rest"
      "written M ok out room w b c" by auto
    from put_slice_step_writes [OF P(1,3,2)] obtain n c' where
      n: "put_slice_step M (c, rest) = Inr (c', drop n rest)" "0 < n" "n \<le> length rest"
      and w: "written M ok out room (take n rest) c c'" by blast
    from written_trans [OF P(5) w] have "written M ok out room (w @ take n rest) b c'" .
    moreover have "src = (w @ take n rest) @ drop n rest" using P(4) by simp
    moreover from w n P(2) have "ok c'" "length (drop n rest) \<le> room c'"
      by (auto simp: written_def)
    ultimately have "?P (c', drop n rest)" unfolding prod.case by blast
    with n P(3) s show ?thesis by (intro exI [of _ "(c', drop n rest)"]) simp
  qed
  have "\<exists>t. rust_while (\<lambda>(b, src). src \<noteq> []) (put_slice_step M) (b, src) = Inr t \<and> ?P t \<and>
      \<not> (case t of (c, rest) \<Rightarrow> rest \<noteq> [])"
    by (rule rust_while_rule [where m = "\<lambda>t. length (snd t)"])
      (use assms step written_refl [of ok b] in auto)
  moreover have "\<not> remaining_mut M b < length src" using assms room_le [OF assms(1)] by simp
  ultimately show ?thesis by (auto simp: put_slice_default_def)
qed

lemma put_bytes_step_writes:
  assumes "ok b" "0 < cnt" "cnt \<le> room b"
  shows "\<exists>n b'. put_bytes_step M val (b, cnt) = Inr (b', cnt - n) \<and> 0 < n \<and> n \<le> cnt \<and>
    written M ok out room (replicate n val) b b'"
proof -
  from assms chunk_mut_nonempty [OF assms(1)] obtain mem commit where
    mem: "chunk_mut M b = Inr (mem, commit)" "mem \<noteq> []" by auto
  let ?n = "min (length mem) cnt"
  from chunk_write [OF assms(1) mem(1), of "replicate ?n val"] obtain b1 b2 where
    "commit (replicate ?n (Some val) @ drop ?n mem) = Inr b1" "advance_mut M b1 ?n = Inr b2"
    "written M ok out room (replicate ?n val) b b2" by (auto simp: map_replicate)
  with mem assms show ?thesis
    by (intro exI [of _ ?n] exI [of _ b2])
      (simp add: put_bytes_step_def write_bytes_def Let_def usize_sub_def)
qed

lemma put_bytes_default_writes:
  assumes "ok b" "cnt \<le> room b"
  shows "\<exists>b'. put_bytes_default M b val cnt = Inr b' \<and> written M ok out room (replicate cnt val) b b'"
proof -
  let ?P = "\<lambda>(c, k). ok c \<and> k \<le> room c \<and> k \<le> cnt \<and> written M ok out room (replicate (cnt - k) val) b c"
  have step: "\<exists>t. put_bytes_step M val s = Inr t \<and> ?P t \<and> snd t < snd s"
    if "?P s" "case s of (c, k) \<Rightarrow> k > 0" for s
  proof -
    obtain c k where s: "s = (c, k)" by (cases s)
    with that have P: "ok c" "k \<le> room c" "0 < k" "k \<le> cnt"
      "written M ok out room (replicate (cnt - k) val) b c" by auto
    from put_bytes_step_writes [OF P(1,3,2)] obtain n c' where
      n: "put_bytes_step M val (c, k) = Inr (c', k - n)" "0 < n" "n \<le> k"
      and w: "written M ok out room (replicate n val) c c'" by blast
    have "replicate (cnt - (k - n)) val = replicate (cnt - k) val @ replicate n val"
      using n P(4) by (simp flip: replicate_add)
    with written_trans [OF P(5) w] have "written M ok out room (replicate (cnt - (k - n)) val) b c'" by simp
    moreover from w n P(2) have "ok c'" "k - n \<le> room c'" by (auto simp: written_def)
    ultimately show ?thesis using n P(3,4) s by (intro exI [of _ "(c', k - n)"]) simp
  qed
  have "\<exists>t. rust_while (\<lambda>(b, cnt). cnt > 0) (put_bytes_step M val) (b, cnt) = Inr t \<and> ?P t \<and>
      \<not> (case t of (c, k) \<Rightarrow> k > 0)"
    by (rule rust_while_rule [where m = snd]) (use assms step written_refl [of ok b] in auto)
  moreover have "\<not> remaining_mut M b < cnt" using assms room_le [OF assms(1)] by simp
  ultimately show ?thesis by (auto simp: put_bytes_default_def)
qed

end

section \<open>Moving bytes from a reader\<close>

locale buf_transfer =
  w: buf_mut_core_contract M ok out room + r: buf_core_contract S oks view
  for M :: "('b, 'z) buf_mut_core_scheme" and ok out room
    and S :: "('s, 'y) buf_core_scheme" and oks view
begin

lemma put_step_writes:
  assumes "ok b" "oks s" "view s \<noteq> []" "length (view s) \<le> room b"
  shows "\<exists>n b' s'. put_step M S (b, s) = Inr (b', s') \<and> 0 < n \<and> n \<le> length (view s) \<and>
    written M ok out room (take n (view s)) b b' \<and> oks s' \<and> view s' = drop n (view s)"
proof -
  from assms have "0 < room b" by (cases "view s") auto
  with assms w.chunk_mut_nonempty obtain mem commit where
    mem: "chunk_mut M b = Inr (mem, commit)" "mem \<noteq> []" by blast
  from assms r.chunk_nonempty have c: "chunk S s \<noteq> []" by blast
  define n where "n = min (length (chunk S s)) (length mem)"
  have n: "n \<le> length (view s)" "take n (chunk S s) = take n (view s)" "n \<le> length mem"
    "0 < n" "n \<le> length (chunk S s)"
    using r.length_chunk_le [OF assms(2)] r.take_chunk [OF assms(2)] c mem(2) by (auto simp: n_def)
  then have "length (take n (view s)) = n" by simp
  with w.chunk_write [OF assms(1) mem(1), of "take n (view s)"] n(3) obtain b1 b2 where
    "commit (map Some (take n (view s)) @ drop n mem) = Inr b1" "advance_mut M b1 n = Inr b2"
    "written M ok out room (take n (view s)) b b2" by auto
  moreover from r.advance_view [OF assms(2) n(1)] obtain s' where
    "advance S s n = Inr s'" "oks s'" "view s' = drop n (view s)" by blast
  ultimately show ?thesis using mem(1) n
    by (intro exI [of _ n] exI [of _ b2] exI [of _ s'])
      (simp add: put_step_def copy_into_chunk_def uninit_copy_from_slice_def rust_assert_def
        Let_def slice_to_def flip: n_def)
qed

text \<open>\<open>put\<close> ends, appends all the bytes of the source and empties it.\<close>

lemma put_writes:
  assumes "ok b" "oks s" "length (view s) \<le> room b"
  shows "\<exists>b' s'. put M S b s = Inr (b', s') \<and> written M ok out room (view s) b b' \<and> oks s' \<and> view s' = []"
proof -
  let ?P = "\<lambda>(c, t). ok c \<and> oks t \<and> length (view t) \<le> room c \<and>
    (\<exists>w. view s = w @ view t \<and> written M ok out room w b c)"
  have step: "\<exists>u. put_step M S p = Inr u \<and> ?P u \<and> length (view (snd u)) < length (view (snd p))"
    if "?P p" "case p of (c, t) \<Rightarrow> has_remaining S t" for p
  proof -
    obtain c t where p: "p = (c, t)" by (cases p)
    with that obtain w where P: "ok c" "oks t" "length (view t) \<le> room c" "view s = w @ view t"
      "written M ok out room w b c" and ne: "view t \<noteq> []" by (auto simp: r.has_remaining_view)
    from put_step_writes [OF P(1,2) ne P(3)] obtain n c' t' where
      n: "put_step M S (c, t) = Inr (c', t')" "0 < n" "n \<le> length (view t)" "oks t'"
        "view t' = drop n (view t)" and w: "written M ok out room (take n (view t)) c c'" by blast
    from written_trans [OF P(5) w] have "written M ok out room (w @ take n (view t)) b c'" .
    moreover have "view s = (w @ take n (view t)) @ view t'" using P(4) n(5) by simp
    moreover from w n P(3) have "ok c'" "length (view t') \<le> room c'" by (auto simp: written_def)
    ultimately have "?P (c', t')" using n(4) unfolding prod.case by blast
    with n ne p show ?thesis by (intro exI [of _ "(c', t')"]) simp
  qed
  have "\<exists>u. rust_while (\<lambda>(b, s). has_remaining S s) (put_step M S) (b, s) = Inr u \<and> ?P u \<and>
      \<not> (case u of (c, t) \<Rightarrow> has_remaining S t)"
    by (rule rust_while_rule [where m = "\<lambda>u. length (view (snd u))"])
      (use assms step written_refl [of ok b] in auto)
  moreover have "\<not> remaining_mut M b < remaining S s"
    using assms w.room_le [OF assms(1)] r.remaining_view [OF assms(2)] by simp
  ultimately show ?thesis by (auto simp: put_def r.has_remaining_view)
qed

end

section \<open>Typed writes\<close>

text \<open>
  \<open>writes \<dots> bs op\<close>: with room for them \<open>op\<close> appends the bytes \<open>bs\<close>; when fewer
  bytes remain it panics.
\<close>

definition writes ::
  "('b, 'z) buf_mut_core_scheme \<Rightarrow> ('b \<Rightarrow> bool) \<Rightarrow> ('b \<Rightarrow> u8 list) \<Rightarrow> ('b \<Rightarrow> usize) \<Rightarrow> u8 list \<Rightarrow>
     ('b \<Rightarrow> 'b res) \<Rightarrow> bool" where
  "writes M ok out room bs op \<longleftrightarrow>
     (\<forall>b. ok b \<longrightarrow>
       (length bs \<le> room b \<longrightarrow> (\<exists>b'. op b = Inr b' \<and> written M ok out room bs b b')) \<and>
       (remaining_mut M b < length bs \<longrightarrow> (\<exists>p. op b = Inl (Panic p))))"

lemma writesD:
  "writes M ok out room bs op \<Longrightarrow> ok b \<Longrightarrow> length bs \<le> room b \<Longrightarrow>
    \<exists>b'. op b = Inr b' \<and> written M ok out room bs b b'"
  by (simp add: writes_def)

locale buf_mut_contract = buf_mut_core_contract M ok out room
  for M :: "('b, 'z) buf_mut_scheme" and ok out room +
  assumes put_slice_writes: "writes M ok out room src (\<lambda>b. put_slice M b src)"
    and put_bytes_writes: "writes M ok out room (replicate cnt val) (\<lambda>b. put_bytes M b val cnt)"

lemma buf_mut_core_contract_cong:
  assumes "buf_mut_core_contract C ok out room"
    and "remaining_mut D = remaining_mut C" "chunk_mut D = chunk_mut C" "advance_mut D = advance_mut C"
  shows "buf_mut_core_contract D ok out room"
  using assms by (simp add: buf_mut_core_contract_def written_def)

lemma default_puts_write:
  assumes "buf_mut_core_contract C ok out room"
  shows "writes C ok out room src (\<lambda>b. put_slice_default C b src)"
    and "writes C ok out room (replicate cnt val) (\<lambda>b. put_bytes_default C b val cnt)"
  using buf_mut_core_contract.put_slice_default_writes [OF assms]
    buf_mut_core_contract.put_bytes_default_writes [OF assms]
  by (auto simp: writes_def put_slice_default_def put_bytes_default_def panic_advance_def)

lemma writes_cong: "remaining_mut D = remaining_mut C \<Longrightarrow> writes D = writes C"
  by (intro ext) (simp add: writes_def written_def)

lemma buf_mut_contract_defaults:
  assumes "buf_mut_core_contract C ok out room"
  shows "buf_mut_contract (with_default_puts C) ok out room"
  using buf_mut_core_contract_cong [OF assms, of "with_default_puts C"] default_puts_write [OF assms]
    writes_cong [of "with_default_puts C" C]
  by (simp add: buf_mut_contract_def buf_mut_contract_axioms_def)

text \<open>Writing through a \<open>&mut T\<close> or a \<open>Box<T>\<close>\<close>

lemma buf_mut_contract_deref:
  assumes "buf_mut_contract M ok out room"
  shows "buf_mut_contract (deref_forward_bufmut M) ok out room"
proof -
  have core: "buf_mut_core_contract M ok out room" using assms by (simp add: buf_mut_contract_def)
  from buf_mut_core_contract_cong [OF core, of "deref_forward_bufmut M"] default_puts_write(2) [OF core]
    writes_cong [of "deref_forward_bufmut M" M] assms
  show ?thesis
    by (simp add: buf_mut_contract_def buf_mut_contract_axioms_def deref_forward_bufmut_def)
qed

context buf_mut_contract
begin

lemma typed_puts_write:
  "writes M ok out room [n] (\<lambda>b. put_u8 M b n)"
  "writes M ok out room [n] (\<lambda>b. put_i8 M b n)"
  "writes M ok out room (to_be_bytes n16) (\<lambda>b. put_u16 M b n16)"
  "writes M ok out room (to_le_bytes n16) (\<lambda>b. put_u16_le M b n16)"
  "writes M ok out room (to_ne_bytes big n16) (\<lambda>b. put_u16_ne big M b n16)"
  "writes M ok out room (to_be_bytes n16) (\<lambda>b. put_i16 M b n16)"
  "writes M ok out room (to_le_bytes n16) (\<lambda>b. put_i16_le M b n16)"
  "writes M ok out room (to_ne_bytes big n16) (\<lambda>b. put_i16_ne big M b n16)"
  "writes M ok out room (to_be_bytes n32) (\<lambda>b. put_u32 M b n32)"
  "writes M ok out room (to_le_bytes n32) (\<lambda>b. put_u32_le M b n32)"
  "writes M ok out room (to_ne_bytes big n32) (\<lambda>b. put_u32_ne big M b n32)"
  "writes M ok out room (to_be_bytes n32) (\<lambda>b. put_i32 M b n32)"
  "writes M ok out room (to_le_bytes n32) (\<lambda>b. put_i32_le M b n32)"
  "writes M ok out room (to_ne_bytes big n32) (\<lambda>b. put_i32_ne big M b n32)"
  "writes M ok out room (to_be_bytes n64) (\<lambda>b. put_u64 M b n64)"
  "writes M ok out room (to_le_bytes n64) (\<lambda>b. put_u64_le M b n64)"
  "writes M ok out room (to_ne_bytes big n64) (\<lambda>b. put_u64_ne big M b n64)"
  "writes M ok out room (to_be_bytes n64) (\<lambda>b. put_i64 M b n64)"
  "writes M ok out room (to_le_bytes n64) (\<lambda>b. put_i64_le M b n64)"
  "writes M ok out room (to_ne_bytes big n64) (\<lambda>b. put_i64_ne big M b n64)"
  "writes M ok out room (to_be_bytes n128) (\<lambda>b. put_u128 M b n128)"
  "writes M ok out room (to_le_bytes n128) (\<lambda>b. put_u128_le M b n128)"
  "writes M ok out room (to_ne_bytes big n128) (\<lambda>b. put_u128_ne big M b n128)"
  "writes M ok out room (to_be_bytes n128) (\<lambda>b. put_i128 M b n128)"
  "writes M ok out room (to_le_bytes n128) (\<lambda>b. put_i128_le M b n128)"
  "writes M ok out room (to_ne_bytes big n128) (\<lambda>b. put_i128_ne big M b n128)"
  "writes M ok out room (to_be_bytes (f32_to_bits x32)) (\<lambda>b. put_f32 M b x32)"
  "writes M ok out room (to_le_bytes (f32_to_bits x32)) (\<lambda>b. put_f32_le M b x32)"
  "writes M ok out room (to_ne_bytes big (f32_to_bits x32)) (\<lambda>b. put_f32_ne big M b x32)"
  "writes M ok out room (to_be_bytes (f64_to_bits x64)) (\<lambda>b. put_f64 M b x64)"
  "writes M ok out room (to_le_bytes (f64_to_bits x64)) (\<lambda>b. put_f64_le M b x64)"
  "writes M ok out room (to_ne_bytes big (f64_to_bits x64)) (\<lambda>b. put_f64_ne big M b x64)"
  by (simp_all add: put_slice_writes
      put_u8_def put_i8_def put_u16_def put_u16_le_def put_u16_ne_def put_i16_def
      put_i16_le_def put_i16_ne_def put_u32_def put_u32_le_def put_u32_ne_def put_i32_def
      put_i32_le_def put_i32_ne_def put_u64_def put_u64_le_def put_u64_ne_def put_i64_def
      put_i64_le_def put_i64_ne_def put_u128_def put_u128_le_def put_u128_ne_def put_i128_def
      put_i128_le_def put_i128_ne_def put_f32_def put_f32_le_def put_f32_ne_def put_f64_def
      put_f64_le_def put_f64_ne_def)

lemma put_uint_writes:
  assumes "n \<le> 8"
  shows "writes M ok out room (drop (8 - n) (to_be_bytes v)) (\<lambda>b. put_uint M b v n)"
    and "writes M ok out room (take n (to_le_bytes v)) (\<lambda>b. put_uint_le M b v n)"
    and "writes M ok out room (drop (8 - n) (to_be_bytes v)) (\<lambda>b. put_int M b v n)"
    and "writes M ok out room (take n (to_le_bytes v)) (\<lambda>b. put_int_le M b v n)"
  using assms put_slice_writes
  by (simp_all add: put_uint_def put_uint_le_def put_int_def put_int_le_def checked_sub_def
      slice_from_def slice_get_to_def)

end

end
