(* ===== verification/Buf_Mut_Impls.thy ===== *)
theory Buf_Mut_Impls
  imports Buf_Mut
begin

text \<open>
  The implementations of \<open>BufMut\<close> for \<open>&mut [u8]\<close>, \<open>&mut [MaybeUninit<u8>]\<close> and
  \<open>Vec<u8>\<close> (\<^verbatim>\<open>buf_mut.rs\<close>), and the adapters \<open>Limit\<close> (\<^verbatim>\<open>limit.rs\<close>),
  \<open>Chain\<close> (\<^verbatim>\<open>chain.rs\<close>) and \<open>Writer\<close> (\<^verbatim>\<open>writer.rs\<close>).
\<close>

section \<open>Mutable slices\<close>

text \<open>
  A \<open>&mut [u8]\<close> that moves through an array: the bytes it has passed, which it no longer
  covers, and the bytes it still covers.
\<close>

record 'c slice_mut =
  behind :: "'c list"
  rest :: "'c list"

definition slice_advance_mut :: "'c slice_mut \<Rightarrow> usize \<Rightarrow> 'c slice_mut res" where
  "slice_advance_mut s cnt =
     (if length (rest s) < cnt
      then panic_advance \<lparr>requested = cnt, available = length (rest s)\<rparr>
      else Inr \<lparr>behind = behind s @ take cnt (rest s), rest = drop cnt (rest s)\<rparr>)"

definition slice_chunk_mut ::
  "u8 slice_mut \<Rightarrow> (uninit_slice \<times> (uninit_slice \<Rightarrow> u8 slice_mut res)) res" where
  "slice_chunk_mut s =
     Inr (uninit_slice_new (rest s), \<lambda>m.
       if None \<in> set m then Inl (UB ''uninitialised byte in a [u8]'')
       else Inr (s\<lparr>rest := map the m\<rparr>))"

definition slice_put_slice :: "u8 slice_mut \<Rightarrow> u8 list \<Rightarrow> u8 slice_mut res" where
  "slice_put_slice s src =
     (if length (rest s) < length src
      then panic_advance \<lparr>requested = length src, available = length (rest s)\<rparr>
      else
        res_bind (slice_to (rest s) (length src)) (\<lambda>part.
        res_bind (copy_from_slice part src) (\<lambda>part.
        slice_advance_mut (s\<lparr>rest := part @ drop (length src) (rest s)\<rparr>) (length src))))"

definition slice_put_bytes :: "u8 slice_mut \<Rightarrow> u8 \<Rightarrow> usize \<Rightarrow> u8 slice_mut res" where
  "slice_put_bytes s val cnt =
     (if length (rest s) < cnt
      then panic_advance \<lparr>requested = cnt, available = length (rest s)\<rparr>
      else slice_advance_mut (s\<lparr>rest := replicate cnt val @ drop cnt (rest s)\<rparr>) cnt)"

definition slice_mut_core :: "u8 slice_mut buf_mut_core" where
  "slice_mut_core =
     \<lparr>remaining_mut = (\<lambda>s. length (rest s)), advance_mut = slice_advance_mut,
      chunk_mut = slice_chunk_mut\<rparr>"

definition slice_buf_mut :: "u8 slice_mut buf_mut" where
  "slice_buf_mut =
     (with_default_puts slice_mut_core)\<lparr>put_slice := slice_put_slice, put_bytes := slice_put_bytes\<rparr>"

abbreviation slice_mut_room :: "'c slice_mut \<Rightarrow> usize" where
  "slice_mut_room s \<equiv> length (rest s)"

interpretation slice_mut_core: buf_mut_core_contract slice_mut_core "\<lambda>s. True" behind slice_mut_room
proof unfold_locales
  fix s :: "u8 slice_mut" and mem commit and bs :: "u8 list"
  assume chunk: "chunk_mut slice_mut_core s = Inr (mem, commit)" and len: "length bs \<le> length mem"
  let ?s1 = "s\<lparr>rest := bs @ drop (length bs) (rest s)\<rparr>"
  from chunk have mem: "mem = map Some (rest s)"
    and "commit (map Some bs @ drop (length bs) mem) = Inr ?s1"
    by (auto simp: slice_mut_core_def slice_chunk_mut_def uninit_slice_new_def drop_map comp_def)
  with len show "\<exists>b1 b2. commit (map Some bs @ drop (length bs) mem) = Inr b1 \<and>
      remaining_mut slice_mut_core b1 = remaining_mut slice_mut_core s \<and> advance_mut slice_mut_core b1 (length bs) = Inr b2 \<and>
      written slice_mut_core (\<lambda>s. True) behind slice_mut_room bs s b2"
    by (auto simp: slice_mut_core_def slice_advance_mut_def written_def)
qed (auto simp: slice_mut_core_def slice_chunk_mut_def uninit_slice_new_def)

interpretation slice_mut: buf_mut_contract slice_buf_mut "\<lambda>s. True" behind slice_mut_room
proof -
  have core: "buf_mut_core_contract slice_buf_mut (\<lambda>s. True) behind slice_mut_room"
    by (rule buf_mut_core_contract_cong [of slice_mut_core])
      (unfold_locales, simp_all add: slice_buf_mut_def)
  have "writes slice_buf_mut (\<lambda>s. True) behind slice_mut_room src (\<lambda>b. put_slice slice_buf_mut b src)"
    "writes slice_buf_mut (\<lambda>s. True) behind slice_mut_room (replicate cnt val)
      (\<lambda>b. put_bytes slice_buf_mut b val cnt)" for src cnt val
    by (simp_all add: writes_def written_def slice_buf_mut_def slice_mut_core_def slice_put_slice_def
        slice_put_bytes_def slice_advance_mut_def panic_advance_def slice_to_def copy_from_slice_def)
  with core show "buf_mut_contract slice_buf_mut (\<lambda>s. True) behind slice_mut_room"
    by (simp add: buf_mut_contract_def buf_mut_contract_axioms_def)
qed

section \<open>Mutable slices of uninitialised bytes\<close>

definition uninit_chunk_mut ::
  "maybe_uninit slice_mut \<Rightarrow> (uninit_slice \<times> (uninit_slice \<Rightarrow> maybe_uninit slice_mut res)) res" where
  "uninit_chunk_mut s = Inr (uninit_slice_uninit (rest s), \<lambda>m. Inr (s\<lparr>rest := m\<rparr>))"

definition uninit_put_slice :: "maybe_uninit slice_mut \<Rightarrow> u8 list \<Rightarrow> maybe_uninit slice_mut res" where
  "uninit_put_slice s src =
     (if length (rest s) < length src
      then panic_advance \<lparr>requested = length src, available = length (rest s)\<rparr>
      else slice_advance_mut (s\<lparr>rest := map Some src @ drop (length src) (rest s)\<rparr>) (length src))"

definition uninit_put_bytes :: "maybe_uninit slice_mut \<Rightarrow> u8 \<Rightarrow> usize \<Rightarrow> maybe_uninit slice_mut res" where
  "uninit_put_bytes s val cnt =
     (if length (rest s) < cnt
      then panic_advance \<lparr>requested = cnt, available = length (rest s)\<rparr>
      else slice_advance_mut (s\<lparr>rest := replicate cnt (Some val) @ drop cnt (rest s)\<rparr>) cnt)"

definition uninit_mut_core :: "maybe_uninit slice_mut buf_mut_core" where
  "uninit_mut_core =
     \<lparr>remaining_mut = (\<lambda>s. length (rest s)), advance_mut = slice_advance_mut,
      chunk_mut = uninit_chunk_mut\<rparr>"

definition uninit_buf_mut :: "maybe_uninit slice_mut buf_mut" where
  "uninit_buf_mut =
     (with_default_puts uninit_mut_core)\<lparr>put_slice := uninit_put_slice, put_bytes := uninit_put_bytes\<rparr>"

text \<open>Everything the reference has moved over is initialised.\<close>

definition uninit_ok :: "maybe_uninit slice_mut \<Rightarrow> bool" where
  "uninit_ok s \<longleftrightarrow> None \<notin> set (behind s)"

definition uninit_out :: "maybe_uninit slice_mut \<Rightarrow> u8 list" where
  "uninit_out s = map the (behind s)"

interpretation uninit_mut_core: buf_mut_core_contract uninit_mut_core uninit_ok uninit_out slice_mut_room
proof unfold_locales
  fix s mem commit and bs :: "u8 list"
  assume "uninit_ok s" and chunk: "chunk_mut uninit_mut_core s = Inr (mem, commit)"
    and len: "length bs \<le> length mem"
  from chunk have "mem = rest s"
    "commit (map Some bs @ drop (length bs) mem) = Inr (s\<lparr>rest := map Some bs @ drop (length bs) (rest s)\<rparr>)"
    by (auto simp: uninit_mut_core_def uninit_chunk_mut_def uninit_slice_uninit_def)
  with len \<open>uninit_ok s\<close> show "\<exists>b1 b2. commit (map Some bs @ drop (length bs) mem) = Inr b1 \<and>
      remaining_mut uninit_mut_core b1 = remaining_mut uninit_mut_core s \<and> advance_mut uninit_mut_core b1 (length bs) = Inr b2 \<and>
      written uninit_mut_core uninit_ok uninit_out slice_mut_room bs s b2"
    by (auto simp: uninit_mut_core_def slice_advance_mut_def written_def uninit_ok_def uninit_out_def comp_def)
qed (auto simp: uninit_mut_core_def uninit_chunk_mut_def uninit_slice_uninit_def)

interpretation uninit_mut: buf_mut_contract uninit_buf_mut uninit_ok uninit_out slice_mut_room
proof -
  have core: "buf_mut_core_contract uninit_buf_mut uninit_ok uninit_out slice_mut_room"
    by (rule buf_mut_core_contract_cong [of uninit_mut_core])
      (unfold_locales, simp_all add: uninit_buf_mut_def)
  have "writes uninit_buf_mut uninit_ok uninit_out slice_mut_room src (\<lambda>b. put_slice uninit_buf_mut b src)"
    "writes uninit_buf_mut uninit_ok uninit_out slice_mut_room (replicate cnt val)
      (\<lambda>b. put_bytes uninit_buf_mut b val cnt)" for src cnt val
    by (auto simp: writes_def written_def uninit_buf_mut_def uninit_mut_core_def uninit_put_slice_def
        uninit_put_bytes_def slice_advance_mut_def panic_advance_def uninit_ok_def uninit_out_def comp_def
        map_replicate)
  with core show "buf_mut_contract uninit_buf_mut uninit_ok uninit_out slice_mut_room"
    by (simp add: buf_mut_contract_def buf_mut_contract_axioms_def)
qed

section \<open>Vectors\<close>

text \<open>
  \<open>Vec<u8>\<close> of the standard library: \<open>capacity\<close> cells of which the first \<open>len\<close>
  are in use. How far a reallocation grows, and whether it succeeds, is the parameter
  \<open>grow cap needed\<close>.
\<close>

record vec =
  cells :: "maybe_uninit list"
  vec_len :: usize

abbreviation capacity :: "vec \<Rightarrow> usize" where
  "capacity v \<equiv> length (cells v)"

definition vec_reserve :: "(usize \<Rightarrow> usize \<Rightarrow> usize res) \<Rightarrow> vec \<Rightarrow> usize \<Rightarrow> vec res" where
  "vec_reserve grow v additional =
     (if additional \<le> capacity v - vec_len v then Inr v
      else case checked_add (vec_len v) additional of
        None \<Rightarrow> Inl (Panic (Expect_failed ''capacity overflow''))
      | Some needed \<Rightarrow>
          res_bind (grow (capacity v) needed) (\<lambda>cap.
          Inr (v\<lparr>cells := cells v @ replicate (cap - capacity v) None\<rparr>)))"

text \<open>\<open>extend_from_slice\<close>, and the part of \<open>resize\<close> that adds elements\<close>

definition extend_from_slice :: "(usize \<Rightarrow> usize \<Rightarrow> usize res) \<Rightarrow> vec \<Rightarrow> u8 list \<Rightarrow> vec res" where
  "extend_from_slice grow v src =
     res_bind (vec_reserve grow v (length src)) (\<lambda>v.
     Inr (v\<lparr>cells := take (vec_len v) (cells v) @ map Some src @ drop (vec_len v + length src) (cells v),
            vec_len := vec_len v + length src\<rparr>))"

definition vec_resize :: "(usize \<Rightarrow> usize \<Rightarrow> usize res) \<Rightarrow> vec \<Rightarrow> usize \<Rightarrow> u8 \<Rightarrow> vec res" where
  "vec_resize grow v new_len val =
     (if new_len > vec_len v then extend_from_slice grow v (replicate (new_len - vec_len v) val)
      else Inr (v\<lparr>vec_len := new_len\<rparr>))"

definition vec_remaining_mut :: "vec \<Rightarrow> usize" where
  "vec_remaining_mut v = isize_max - vec_len v"

definition vec_advance_mut :: "vec \<Rightarrow> usize \<Rightarrow> vec res" where
  "vec_advance_mut v cnt =
     (let len = vec_len v; remaining = capacity v - len in
      if remaining < cnt then panic_advance \<lparr>requested = cnt, available = remaining\<rparr>
      else Inr (v\<lparr>vec_len := len + cnt\<rparr>))"

definition vec_chunk_mut ::
  "(usize \<Rightarrow> usize \<Rightarrow> usize res) \<Rightarrow> vec \<Rightarrow> (uninit_slice \<times> (uninit_slice \<Rightarrow> vec res)) res" where
  "vec_chunk_mut grow v =
     res_bind (if capacity v = vec_len v then vec_reserve grow v 64 else Inr v) (\<lambda>v.
     Inr (drop (vec_len v) (cells v), \<lambda>m. Inr (v\<lparr>cells := take (vec_len v) (cells v) @ m\<rparr>)))"

definition vec_put_slice :: "(usize \<Rightarrow> usize \<Rightarrow> usize res) \<Rightarrow> vec \<Rightarrow> u8 list \<Rightarrow> vec res" where
  "vec_put_slice grow v src = extend_from_slice grow v src"

definition vec_put_bytes :: "(usize \<Rightarrow> usize \<Rightarrow> usize res) \<Rightarrow> vec \<Rightarrow> u8 \<Rightarrow> usize \<Rightarrow> vec res" where
  "vec_put_bytes grow v val cnt =
     (let new_len = saturating_add (vec_len v) cnt in vec_resize grow v new_len val)"

definition vec_put_step ::
  "(usize \<Rightarrow> usize \<Rightarrow> usize res) \<Rightarrow> ('s, 'y) buf_core_scheme \<Rightarrow> vec \<times> 's \<Rightarrow> (vec \<times> 's) res" where
  "vec_put_step grow S = (\<lambda>(v, src).
     let s = chunk S src; l = length s in
     res_bind (extend_from_slice grow v s) (\<lambda>v.
     res_bind (advance S src l) (\<lambda>src. Inr (v, src))))"

definition vec_put ::
  "(usize \<Rightarrow> usize \<Rightarrow> usize res) \<Rightarrow> ('s, 'y) buf_core_scheme \<Rightarrow> vec \<Rightarrow> 's \<Rightarrow> (vec \<times> 's) res" where
  "vec_put grow S v src =
     res_bind (vec_reserve grow v (remaining S src)) (\<lambda>v.
     rust_while (\<lambda>(v, src). has_remaining S src) (vec_put_step grow S) (v, src))"

definition vec_core :: "(usize \<Rightarrow> usize \<Rightarrow> usize res) \<Rightarrow> vec buf_mut_core" where
  "vec_core grow =
     \<lparr>remaining_mut = vec_remaining_mut, advance_mut = vec_advance_mut, chunk_mut = vec_chunk_mut grow\<rparr>"

definition vec_buf_mut :: "(usize \<Rightarrow> usize \<Rightarrow> usize res) \<Rightarrow> vec buf_mut" where
  "vec_buf_mut grow =
     (with_default_puts (vec_core grow))\<lparr>put_slice := vec_put_slice grow, put_bytes := vec_put_bytes grow\<rparr>"

text \<open>The elements in use are initialised and fit.\<close>

definition vec_ok :: "vec \<Rightarrow> bool" where
  "vec_ok v \<longleftrightarrow> vec_len v \<le> capacity v \<and> capacity v \<le> isize_max \<and> None \<notin> set (take (vec_len v) (cells v))"

definition vec_out :: "vec \<Rightarrow> u8 list" where
  "vec_out v = map the (take (vec_len v) (cells v))"

text \<open>
  What the standard library documents: growth succeeds for sizes up to some \<open>bound\<close>, gives
  at least what was asked for, and a size beyond \<open>isize::MAX\<close> panics.
\<close>

locale vec_alloc =
  fixes grow :: "usize \<Rightarrow> usize \<Rightarrow> usize res"
    and bound :: usize
  assumes grow_enough: "cap < needed \<Longrightarrow> needed \<le> bound \<Longrightarrow>
      \<exists>c. grow cap needed = Inr c \<and> needed \<le> c \<and> c \<le> isize_max"
    and grow_too_much: "isize_max < needed \<Longrightarrow> \<exists>p. grow cap needed = Inl (Panic p)"
    and grow_le: "grow cap needed = Inr c \<Longrightarrow> c \<le> isize_max"
    and bound_le: "bound \<le> isize_max"
begin

text \<open>64 spare bytes are what \<open>chunk_mut\<close> asks for when the vector is full.\<close>

abbreviation vec_room :: "vec \<Rightarrow> usize" where
  "vec_room v \<equiv> bound - (64 + vec_len v)"

lemma vec_reserve_ok:
  assumes "vec_ok v" "vec_len v + n \<le> bound"
  shows "\<exists>v'. vec_reserve grow v n = Inr v' \<and> vec_ok v' \<and> vec_len v' = vec_len v \<and>
    vec_out v' = vec_out v \<and> n \<le> capacity v' - vec_len v'"
proof (cases "n \<le> capacity v - vec_len v")
  case True
  with assms show ?thesis by (simp add: vec_reserve_def)
next
  case False
  then have lt: "capacity v < vec_len v + n" by simp
  from grow_enough [OF lt assms(2)] obtain c where
    c: "grow (capacity v) (vec_len v + n) = Inr c" "vec_len v + n \<le> c" "c \<le> isize_max" by blast
  have "vec_len v + n \<le> usize_max"
    using assms(2) bound_le isize_max_less_usize_max by simp
  with False lt c assms(1) show ?thesis
    by (auto simp: vec_reserve_def checked_add_def vec_ok_def vec_out_def)
qed

lemma extend_ok:
  assumes "vec_ok v" "vec_len v + length src \<le> bound"
  shows "\<exists>v'. extend_from_slice grow v src = Inr v' \<and> vec_ok v' \<and> vec_out v' = vec_out v @ src \<and>
    vec_len v' = vec_len v + length src"
proof -
  from vec_reserve_ok [OF assms] obtain w where
    w: "vec_reserve grow v (length src) = Inr w" "vec_ok w" "vec_len w = vec_len v"
      "vec_out w = vec_out v" "length src \<le> capacity w - vec_len w" by blast
  then show ?thesis by (auto simp: extend_from_slice_def vec_ok_def vec_out_def comp_def)
qed

lemma extend_too_much:
  assumes "vec_ok v" "isize_max < vec_len v + length src"
  shows "\<exists>p. extend_from_slice grow v src = Inl (Panic p)"
  using assms grow_too_much [of "vec_len v + length src" "capacity v"]
  by (auto simp: extend_from_slice_def vec_reserve_def vec_ok_def checked_add_def)

lemma vec_chunk_mut_some:
  assumes "vec_ok v" "vec_chunk_mut grow v = Inr (mem, commit)"
  shows "\<exists>w. vec_ok w \<and> vec_len w = vec_len v \<and> vec_out w = vec_out v \<and> mem = drop (vec_len w) (cells w) \<and>
    commit = (\<lambda>m. Inr (w\<lparr>cells := take (vec_len w) (cells w) @ m\<rparr>))"
proof (cases "capacity v = vec_len v")
  case True
  with assms obtain w where w: "vec_reserve grow v 64 = Inr w" "mem = drop (vec_len w) (cells w)"
    "commit = (\<lambda>m. Inr (w\<lparr>cells := take (vec_len w) (cells w) @ m\<rparr>))"
    by (auto simp: vec_chunk_mut_def)
  from w(1) True assms(1) have "vec_ok w \<and> vec_len w = vec_len v \<and> vec_out w = vec_out v"
    by (auto simp: vec_reserve_def vec_ok_def vec_out_def dest: grow_le split: option.splits if_splits)
  with w show ?thesis by blast
next
  case False
  with assms show ?thesis by (auto simp: vec_chunk_mut_def)
qed

lemma vec_core_contract: "buf_mut_core_contract (vec_core grow) vec_ok vec_out vec_room"
proof unfold_locales
  fix v assume v: "vec_ok v"
  show "vec_room v \<le> remaining_mut (vec_core grow) v"
    using bound_le by (simp add: vec_core_def vec_remaining_mut_def)
  show "\<exists>mem commit. chunk_mut (vec_core grow) v = Inr (mem, commit) \<and> mem \<noteq> []" if "0 < vec_room v"
    using that v vec_reserve_ok [OF v, of 64]
    by (auto simp: vec_core_def vec_chunk_mut_def vec_ok_def)
  fix mem commit assume chunk: "chunk_mut (vec_core grow) v = Inr (mem, commit)"
  then obtain w where w: "vec_ok w" "vec_len w = vec_len v" "vec_out w = vec_out v"
    "mem = drop (vec_len w) (cells w)" "commit = (\<lambda>m. Inr (w\<lparr>cells := take (vec_len w) (cells w) @ m\<rparr>))"
    using vec_chunk_mut_some [OF v, of mem commit] by (auto simp: vec_core_def)
  then show "length mem \<le> remaining_mut (vec_core grow) v"
    by (auto simp: vec_ok_def vec_core_def vec_remaining_mut_def)
  fix bs :: "u8 list" assume len: "length bs \<le> length mem"
  let ?w = "w\<lparr>cells := take (vec_len w) (cells w) @ map Some bs @ drop (vec_len w + length bs) (cells w)\<rparr>"
  have "advance_mut (vec_core grow) ?w (length bs) = Inr (?w\<lparr>vec_len := vec_len w + length bs\<rparr>)"
    using w len by (simp add: vec_core_def vec_advance_mut_def Let_def vec_ok_def)
  moreover have "commit (map Some bs @ drop (length bs) mem) = Inr ?w" using w by (simp add: add.commute)
  moreover have "remaining_mut (vec_core grow) ?w = remaining_mut (vec_core grow) v"
    using w by (simp add: vec_core_def vec_remaining_mut_def)
  moreover have "written (vec_core grow) vec_ok vec_out vec_room bs v (?w\<lparr>vec_len := vec_len w + length bs\<rparr>)"
    using w len by (auto simp: written_def vec_core_def vec_remaining_mut_def vec_ok_def vec_out_def comp_def)
  ultimately show "\<exists>b1 b2. commit (map Some bs @ drop (length bs) mem) = Inr b1 \<and>
      remaining_mut (vec_core grow) b1 = remaining_mut (vec_core grow) v \<and> advance_mut (vec_core grow) b1 (length bs) = Inr b2 \<and>
      written (vec_core grow) vec_ok vec_out vec_room bs v b2" by blast
qed

lemma extend_writes:
  "writes (vec_buf_mut grow) vec_ok vec_out vec_room src (\<lambda>v. extend_from_slice grow v src)"
  unfolding writes_def
proof (intro allI impI conjI)
  fix v assume v: "vec_ok v"
  show "\<exists>v'. extend_from_slice grow v src = Inr v' \<and> written (vec_buf_mut grow) vec_ok vec_out vec_room src v v'"
    if "length src \<le> vec_room v"
  proof (cases "src = []")
    case True
    with v show ?thesis
      by (simp add: extend_from_slice_def vec_reserve_def written_def)
  next
    case False
    with that have "vec_len v + length src \<le> bound" by (cases src) auto
    from extend_ok [OF v this] show ?thesis
      by (auto simp: written_def vec_buf_mut_def vec_core_def vec_remaining_mut_def)
  qed
  show "\<exists>p. extend_from_slice grow v src = Inl (Panic p)"
    if "remaining_mut (vec_buf_mut grow) v < length src"
    using that extend_too_much [OF v, of src] v
    by (simp add: vec_buf_mut_def vec_core_def vec_remaining_mut_def vec_ok_def)
qed

lemma vec_put_bytes_extend:
  "vec_ok v \<Longrightarrow> vec_put_bytes grow v val cnt =
    extend_from_slice grow v (replicate (min cnt (usize_max - vec_len v)) val)"
  using isize_max_less_usize_max
  by (cases "cnt = 0")
    (auto simp: vec_put_bytes_def vec_resize_def saturating_add_def min_def extend_from_slice_def
      vec_reserve_def vec_ok_def Let_def)

lemma vec_put_bytes_writes:
  "writes (vec_buf_mut grow) vec_ok vec_out vec_room (replicate cnt val) (\<lambda>v. vec_put_bytes grow v val cnt)"
  unfolding writes_def
proof (intro allI impI conjI)
  fix v assume v: "vec_ok v"
  have max: "bound < usize_max" "isize_max < usize_max" "vec_len v \<le> isize_max"
    using bound_le isize_max_less_usize_max v by (auto simp: vec_ok_def)
  show "\<exists>v'. vec_put_bytes grow v val cnt = Inr v' \<and>
      written (vec_buf_mut grow) vec_ok vec_out vec_room (replicate cnt val) v v'"
    if "length (replicate cnt val) \<le> vec_room v"
  proof -
    from that max have "min cnt (usize_max - vec_len v) = cnt" by auto
    with writesD [OF extend_writes v that] show ?thesis by (simp add: vec_put_bytes_extend [OF v])
  qed
  show "\<exists>p. vec_put_bytes grow v val cnt = Inl (Panic p)"
    if "remaining_mut (vec_buf_mut grow) v < length (replicate cnt val)"
    using that max extend_too_much [OF v, of "replicate (min cnt (usize_max - vec_len v)) val"]
    by (auto simp: vec_put_bytes_extend [OF v] vec_buf_mut_def vec_core_def vec_remaining_mut_def)
qed

lemma vec_contract: "buf_mut_contract (vec_buf_mut grow) vec_ok vec_out vec_room"
proof -
  have "buf_mut_core_contract (vec_buf_mut grow) vec_ok vec_out vec_room"
    by (rule buf_mut_core_contract_cong [OF vec_core_contract]) (simp_all add: vec_buf_mut_def)
  with extend_writes vec_put_bytes_writes show ?thesis
    by (simp add: buf_mut_contract_def buf_mut_contract_axioms_def vec_buf_mut_def vec_put_slice_def)
qed

text \<open>The specialised \<open>put\<close> of a vector appends the whole source too.\<close>

lemma vec_put_writes:
  assumes "buf_core_contract S oks view" "vec_ok v" "oks s" "vec_len v + length (view s) \<le> bound"
  shows "\<exists>v' s'. vec_put grow S v s = Inr (v', s') \<and> vec_ok v' \<and> vec_out v' = vec_out v @ view s \<and>
    oks s' \<and> view s' = []"
proof -
  let ?P = "\<lambda>(w, t). vec_ok w \<and> oks t \<and> vec_len w + length (view t) \<le> bound \<and>
    vec_out w @ view t = vec_out v @ view s"
  have step: "\<exists>u. vec_put_step grow S p = Inr u \<and> ?P u \<and> length (view (snd u)) < length (view (snd p))"
    if "?P p" "case p of (w, t) \<Rightarrow> has_remaining S t" for p
  proof -
    obtain w t where p: "p = (w, t)" by (cases p)
    with that have P: "vec_ok w" "oks t" "vec_len w + length (view t) \<le> bound"
      "vec_out w @ view t = vec_out v @ view s" and ne: "view t \<noteq> []"
      by (auto simp: buf_core_contract.has_remaining_view [OF assms(1)])
    let ?c = "chunk S t"
    have c: "?c \<noteq> []" "prefix ?c (view t)" "length ?c \<le> length (view t)"
      using ne P(2) buf_core_contract.chunk_nonempty [OF assms(1)]
        buf_core_contract.chunk_prefix [OF assms(1)] buf_core_contract.length_chunk_le [OF assms(1)] by auto
    from c P(3) have "vec_len w + length ?c \<le> bound" by simp
    from extend_ok [OF P(1) this] obtain w' where
      w': "extend_from_slice grow w ?c = Inr w'" "vec_ok w'" "vec_out w' = vec_out w @ ?c"
        "vec_len w' = vec_len w + length ?c" by blast
    from buf_core_contract.advance_view [OF assms(1) P(2) c(3)] obtain t' where
      t': "advance S t (length ?c) = Inr t'" "oks t'" "view t' = drop (length ?c) (view t)" by blast
    have "?c @ view t' = view t" using c(2) t'(3) by (auto simp: prefix_def)
    moreover from c(1) c(3) have "length (view t) - length ?c < length (view t)" by (cases ?c) auto
    ultimately show ?thesis using w' t' P c(3) p
      by (intro exI [of _ "(w', t')"]) (auto simp: vec_put_step_def)
  qed
  from vec_reserve_ok [OF assms(2,4)] obtain v0 where
    v0: "vec_reserve grow v (length (view s)) = Inr v0" "vec_ok v0" "vec_len v0 = vec_len v" "vec_out v0 = vec_out v"
    by blast
  have "\<exists>u. rust_while (\<lambda>(v, s). has_remaining S s) (vec_put_step grow S) (v0, s) = Inr u \<and> ?P u \<and>
      \<not> (case u of (w, t) \<Rightarrow> has_remaining S t)"
    by (rule rust_while_rule [where m = "\<lambda>u. length (view (snd u))"]) (use assms v0 step in auto)
  with v0 assms show ?thesis
    by (auto simp: vec_put_def buf_core_contract.remaining_view [OF assms(1)]
        buf_core_contract.has_remaining_view [OF assms(1)])
qed

end

text \<open>
  The growth of the standard library: double the capacity, at least 8 bytes and at least what is
  needed, and panic beyond \<open>isize::MAX\<close>.
\<close>

definition amortized :: "usize \<Rightarrow> usize \<Rightarrow> usize res" where
  "amortized cap needed =
     (let c = max 8 (max (2 * cap) needed) in
      if c \<le> isize_max then Inr c else Inl (Panic (Expect_failed ''capacity overflow'')))"

interpretation amortized: vec_alloc amortized "2 ^ 62 - 1"
  by unfold_locales (auto simp: amortized_def Let_def isize_max_def max_def split: if_splits)

interpretation vec: buf_mut_contract "vec_buf_mut amortized" vec_ok vec_out amortized.vec_room
  by (rule amortized.vec_contract)

section \<open>Limit\<close>

record 'a limit_adapter =
  limit_inner :: 'a
  limit_limit :: usize

definition limit_remaining_mut :: "('a, 'z) buf_mut_core_scheme \<Rightarrow> 'a limit_adapter \<Rightarrow> usize" where
  "limit_remaining_mut M l = min (remaining_mut M (limit_inner l)) (limit_limit l)"

definition limit_chunk_mut ::
  "('a, 'z) buf_mut_core_scheme \<Rightarrow> 'a limit_adapter \<Rightarrow>
     (uninit_slice \<times> (uninit_slice \<Rightarrow> 'a limit_adapter res)) res" where
  "limit_chunk_mut M l =
     res_bind (chunk_mut M (limit_inner l)) (\<lambda>(bytes, commit).
     let stop = min (length bytes) (limit_limit l) in
     res_bind (slice_to bytes stop) (\<lambda>part.
     Inr (part, \<lambda>m. res_bind (commit (m @ drop stop bytes)) (\<lambda>i. Inr (l\<lparr>limit_inner := i\<rparr>)))))"

definition limit_advance_mut ::
  "('a, 'z) buf_mut_core_scheme \<Rightarrow> 'a limit_adapter \<Rightarrow> usize \<Rightarrow> 'a limit_adapter res" where
  "limit_advance_mut M l cnt =
     res_bind (rust_assert (cnt \<le> limit_limit l) ''cnt <= self.limit'') (\<lambda>_.
     res_bind (advance_mut M (limit_inner l) cnt) (\<lambda>i.
     res_bind (usize_sub (limit_limit l) cnt) (\<lambda>lim.
     Inr (l\<lparr>limit_inner := i, limit_limit := lim\<rparr>))))"

definition limit_core :: "('a, 'z) buf_mut_core_scheme \<Rightarrow> 'a limit_adapter buf_mut_core" where
  "limit_core M =
     \<lparr>remaining_mut = limit_remaining_mut M, advance_mut = limit_advance_mut M,
      chunk_mut = limit_chunk_mut M\<rparr>"

definition limit_buf_mut :: "('a, 'z) buf_mut_core_scheme \<Rightarrow> 'a limit_adapter buf_mut" where
  "limit_buf_mut M = with_default_puts (limit_core M)"

abbreviation limit_ok :: "('a \<Rightarrow> bool) \<Rightarrow> 'a limit_adapter \<Rightarrow> bool" where
  "limit_ok ok l \<equiv> ok (limit_inner l)"

abbreviation limit_out :: "('a \<Rightarrow> u8 list) \<Rightarrow> 'a limit_adapter \<Rightarrow> u8 list" where
  "limit_out out l \<equiv> out (limit_inner l)"

abbreviation limit_room :: "('a \<Rightarrow> usize) \<Rightarrow> 'a limit_adapter \<Rightarrow> usize" where
  "limit_room room l \<equiv> min (room (limit_inner l)) (limit_limit l)"

context buf_mut_core_contract
begin

lemma limit_core_contract:
  "buf_mut_core_contract (limit_core M) (limit_ok ok) (limit_out out) (limit_room room)"
proof unfold_locales
  fix l assume l: "limit_ok ok l"
  show "limit_room room l \<le> remaining_mut (limit_core M) l"
    using room_le [OF l] by (auto simp: limit_core_def limit_remaining_mut_def)
  show "\<exists>mem commit. chunk_mut (limit_core M) l = Inr (mem, commit) \<and> mem \<noteq> []"
    if "0 < limit_room room l"
    using that chunk_mut_nonempty [OF l] by (auto simp: limit_core_def limit_chunk_mut_def Let_def slice_to_def)
  fix mem commit assume chunk: "chunk_mut (limit_core M) l = Inr (mem, commit)"
  then obtain bytes icommit where i: "chunk_mut M (limit_inner l) = Inr (bytes, icommit)"
    "mem = take (limit_limit l) bytes"
    "commit = (\<lambda>m. res_bind (icommit (m @ drop (min (length bytes) (limit_limit l)) bytes))
       (\<lambda>i. Inr (l\<lparr>limit_inner := i\<rparr>)))"
    by (auto simp: limit_core_def limit_chunk_mut_def Let_def slice_to_def min_def split: if_splits)
  then show "length mem \<le> remaining_mut (limit_core M) l"
    using chunk_mut_le [OF l i(1)] by (auto simp: limit_core_def limit_remaining_mut_def)
  fix bs :: "u8 list" assume len: "length bs \<le> length mem"
  with i have "length bs \<le> length bytes" by simp
  from chunk_write [OF l i(1) this] obtain b1 b2 where
    b: "icommit (map Some bs @ drop (length bs) bytes) = Inr b1" "advance_mut M b1 (length bs) = Inr b2"
      "remaining_mut M b1 = remaining_mut M (limit_inner l)" "written M ok out room bs (limit_inner l) b2" by blast
  have "drop (length bs) mem @ drop (min (length bytes) (limit_limit l)) bytes = drop (length bs) bytes"
    using len i(2) by (cases "limit_limit l \<le> length bytes")
      (simp_all add: drop_take_append_drop min_absorb1 min_absorb2)
  with i b len show "\<exists>b1 b2. commit (map Some bs @ drop (length bs) mem) = Inr b1 \<and>
      remaining_mut (limit_core M) b1 = remaining_mut (limit_core M) l \<and> advance_mut (limit_core M) b1 (length bs) = Inr b2 \<and>
      written (limit_core M) (limit_ok ok) (limit_out out) (limit_room room) bs l b2"
    by (auto simp: limit_core_def limit_advance_mut_def limit_remaining_mut_def rust_assert_def usize_sub_def
        written_def)
qed

end

lemma buf_mut_contract_limit:
  assumes "buf_mut_core_contract M ok out room"
  shows "buf_mut_contract (limit_buf_mut M) (limit_ok ok) (limit_out out) (limit_room room)"
  unfolding limit_buf_mut_def
  by (rule buf_mut_contract_defaults) (rule buf_mut_core_contract.limit_core_contract [OF assms])

section \<open>Chain\<close>

definition chain_remaining_mut ::
  "('a, 'y) buf_mut_core_scheme \<Rightarrow> ('b, 'z) buf_mut_core_scheme \<Rightarrow> ('a, 'b) chain \<Rightarrow> usize" where
  "chain_remaining_mut A B c =
     saturating_add (remaining_mut A (chain_a c)) (remaining_mut B (chain_b c))"

definition chain_chunk_mut ::
  "('a, 'y) buf_mut_core_scheme \<Rightarrow> ('b, 'z) buf_mut_core_scheme \<Rightarrow> ('a, 'b) chain \<Rightarrow>
     (uninit_slice \<times> (uninit_slice \<Rightarrow> ('a, 'b) chain res)) res" where
  "chain_chunk_mut A B c =
     (if has_remaining_mut A (chain_a c) then
        res_bind (chunk_mut A (chain_a c)) (\<lambda>(d, commit).
        Inr (d, \<lambda>m. res_bind (commit m) (\<lambda>a. Inr (c\<lparr>chain_a := a\<rparr>))))
      else
        res_bind (chunk_mut B (chain_b c)) (\<lambda>(d, commit).
        Inr (d, \<lambda>m. res_bind (commit m) (\<lambda>b. Inr (c\<lparr>chain_b := b\<rparr>)))))"

definition chain_advance_mut ::
  "('a, 'y) buf_mut_core_scheme \<Rightarrow> ('b, 'z) buf_mut_core_scheme \<Rightarrow> ('a, 'b) chain \<Rightarrow> usize \<Rightarrow>
     ('a, 'b) chain res" where
  "chain_advance_mut A B c cnt =
     (let a_rem = remaining_mut A (chain_a c);
          advance_b = (\<lambda>c cnt. res_bind (advance_mut B (chain_b c) cnt) (\<lambda>b. Inr (c\<lparr>chain_b := b\<rparr>))) in
      if a_rem \<noteq> 0 then
        if a_rem \<ge> cnt then
          res_bind (advance_mut A (chain_a c) cnt) (\<lambda>a. Inr (c\<lparr>chain_a := a\<rparr>))
        else
          res_bind (advance_mut A (chain_a c) a_rem) (\<lambda>a.
          res_bind (usize_sub cnt a_rem) (\<lambda>cnt. advance_b (c\<lparr>chain_a := a\<rparr>) cnt))
      else advance_b c cnt)"

definition chain_mut_core ::
  "('a, 'y) buf_mut_core_scheme \<Rightarrow> ('b, 'z) buf_mut_core_scheme \<Rightarrow> ('a, 'b) chain buf_mut_core" where
  "chain_mut_core A B =
     \<lparr>remaining_mut = chain_remaining_mut A B, advance_mut = chain_advance_mut A B,
      chunk_mut = chain_chunk_mut A B\<rparr>"

definition chain_buf_mut ::
  "('a, 'y) buf_mut_core_scheme \<Rightarrow> ('b, 'z) buf_mut_core_scheme \<Rightarrow> ('a, 'b) chain buf_mut" where
  "chain_buf_mut A B = with_default_puts (chain_mut_core A B)"

text \<open>
  The second part is written to only when the first is full. \<open>base\<close> is the number of bytes
  the second part held to begin with.
\<close>

definition chain_mut_out ::
  "usize \<Rightarrow> ('a \<Rightarrow> u8 list) \<Rightarrow> ('b \<Rightarrow> u8 list) \<Rightarrow> ('a, 'b) chain \<Rightarrow> u8 list" where
  "chain_mut_out base oa ob c = oa (chain_a c) @ drop base (ob (chain_b c))"

definition chain_mut_ok ::
  "usize \<Rightarrow> ('a, 'y) buf_mut_core_scheme \<Rightarrow> ('a \<Rightarrow> bool) \<Rightarrow> ('b, 'z) buf_mut_core_scheme \<Rightarrow> ('b \<Rightarrow> bool) \<Rightarrow>
     ('b \<Rightarrow> u8 list) \<Rightarrow> ('a, 'b) chain \<Rightarrow> bool" where
  "chain_mut_ok base A oka B okb ob c \<longleftrightarrow>
     oka (chain_a c) \<and> okb (chain_b c) \<and> base \<le> length (ob (chain_b c)) \<and>
     (remaining_mut A (chain_a c) \<noteq> 0 \<longrightarrow> length (ob (chain_b c)) = base) \<and>
     remaining_mut A (chain_a c) + remaining_mut B (chain_b c) \<le> usize_max"

definition chain_mut_room ::
  "('a, 'y) buf_mut_core_scheme \<Rightarrow> ('a \<Rightarrow> usize) \<Rightarrow> ('b \<Rightarrow> usize) \<Rightarrow> ('a, 'b) chain \<Rightarrow> usize" where
  "chain_mut_room A ra rb c =
     (if ra (chain_a c) = remaining_mut A (chain_a c) then ra (chain_a c) + rb (chain_b c)
      else ra (chain_a c))"

locale two_buf_muts =
  a: buf_mut_core_contract A oka oa ra + b: buf_mut_core_contract B okb ob rb
  for A :: "('a, 'y) buf_mut_core_scheme" and oka oa ra
    and B :: "('b, 'z) buf_mut_core_scheme" and okb ob rb
begin

lemma chain_write_a:
  assumes c: "chain_mut_ok base A oka B okb ob c" and rem: "remaining_mut A (chain_a c) \<noteq> 0"
    and chunk: "chain_chunk_mut A B c = Inr (mem, commit)" and len: "length bs \<le> length mem"
  shows "length mem \<le> remaining_mut A (chain_a c)"
    and "\<exists>c1 c2. commit (map Some bs @ drop (length bs) mem) = Inr c1 \<and>
      chain_remaining_mut A B c1 = chain_remaining_mut A B c \<and>
      chain_advance_mut A B c1 (length bs) = Inr c2 \<and>
      written (chain_mut_core A B) (chain_mut_ok base A oka B okb ob) (chain_mut_out base oa ob)
        (chain_mut_room A ra rb) bs c c2"
proof -
  let ?a = "chain_a c"
  from c have a: "oka ?a" by (simp add: chain_mut_ok_def)
  from chunk rem obtain icommit where i: "chunk_mut A ?a = Inr (mem, icommit)"
    "commit = (\<lambda>m. res_bind (icommit m) (\<lambda>a. Inr (c\<lparr>chain_a := a\<rparr>)))"
    by (auto simp: chain_chunk_mut_def has_remaining_mut_def)
  show le: "length mem \<le> remaining_mut A ?a" using a.chunk_mut_le [OF a i(1)] .
  from a.chunk_write [OF a i(1) len] obtain b1 b2 where
    b: "icommit (map Some bs @ drop (length bs) mem) = Inr b1" "advance_mut A b1 (length bs) = Inr b2"
      "remaining_mut A b1 = remaining_mut A ?a" "written A oka oa ra bs ?a b2" by blast
  note w = b(4) [unfolded written_def]
  have "chain_mut_room A ra rb c - length bs \<le> chain_mut_room A ra rb (c\<lparr>chain_a := b2\<rparr>)"
    using w a.room_le [of b2] a.room_le [OF a] by (auto simp: chain_mut_room_def)
  then have "written (chain_mut_core A B) (chain_mut_ok base A oka B okb ob) (chain_mut_out base oa ob)
      (chain_mut_room A ra rb) bs c (c\<lparr>chain_a := b2\<rparr>)"
    using w c rem len le
    by (auto simp: written_def chain_mut_core_def chain_remaining_mut_def chain_mut_out_def chain_mut_ok_def
        saturating_add_def)
  moreover have "chain_advance_mut A B (c\<lparr>chain_a := b1\<rparr>) (length bs) = Inr (c\<lparr>chain_a := b2\<rparr>)"
    using b rem len le by (simp add: chain_advance_mut_def)
  ultimately show "\<exists>c1 c2. commit (map Some bs @ drop (length bs) mem) = Inr c1 \<and>
      chain_remaining_mut A B c1 = chain_remaining_mut A B c \<and>
      chain_advance_mut A B c1 (length bs) = Inr c2 \<and>
      written (chain_mut_core A B) (chain_mut_ok base A oka B okb ob) (chain_mut_out base oa ob)
        (chain_mut_room A ra rb) bs c c2"
    using b i by (auto simp: chain_remaining_mut_def)
qed

lemma chain_write_b:
  assumes c: "chain_mut_ok base A oka B okb ob c" and rem: "remaining_mut A (chain_a c) = 0"
    and chunk: "chain_chunk_mut A B c = Inr (mem, commit)" and len: "length bs \<le> length mem"
  shows "length mem \<le> remaining_mut B (chain_b c)"
    and "\<exists>c1 c2. commit (map Some bs @ drop (length bs) mem) = Inr c1 \<and>
      chain_remaining_mut A B c1 = chain_remaining_mut A B c \<and>
      chain_advance_mut A B c1 (length bs) = Inr c2 \<and>
      written (chain_mut_core A B) (chain_mut_ok base A oka B okb ob) (chain_mut_out base oa ob)
        (chain_mut_room A ra rb) bs c c2"
proof -
  let ?b = "chain_b c"
  from c have a: "oka (chain_a c)" and b: "okb ?b" by (auto simp: chain_mut_ok_def)
  from chunk rem obtain icommit where i: "chunk_mut B ?b = Inr (mem, icommit)"
    "commit = (\<lambda>m. res_bind (icommit m) (\<lambda>b. Inr (c\<lparr>chain_b := b\<rparr>)))"
    by (auto simp: chain_chunk_mut_def has_remaining_mut_def)
  show le: "length mem \<le> remaining_mut B ?b" using b.chunk_mut_le [OF b i(1)] .
  from b.chunk_write [OF b i(1) len] obtain b1 b2 where
    b12: "icommit (map Some bs @ drop (length bs) mem) = Inr b1" "advance_mut B b1 (length bs) = Inr b2"
      "remaining_mut B b1 = remaining_mut B ?b" "written B okb ob rb bs ?b b2" by blast
  note w = b12(4) [unfolded written_def]
  have "ra (chain_a c) = 0" using rem a.room_le [OF a] by simp
  then have "written (chain_mut_core A B) (chain_mut_ok base A oka B okb ob) (chain_mut_out base oa ob)
      (chain_mut_room A ra rb) bs c (c\<lparr>chain_b := b2\<rparr>)"
    using w c rem len le
    by (auto simp: written_def chain_mut_core_def chain_remaining_mut_def chain_mut_out_def chain_mut_ok_def
        chain_mut_room_def saturating_add_def)
  moreover have "chain_advance_mut A B (c\<lparr>chain_b := b1\<rparr>) (length bs) = Inr (c\<lparr>chain_b := b2\<rparr>)"
    using b12 rem by (simp add: chain_advance_mut_def)
  ultimately show "\<exists>c1 c2. commit (map Some bs @ drop (length bs) mem) = Inr c1 \<and>
      chain_remaining_mut A B c1 = chain_remaining_mut A B c \<and>
      chain_advance_mut A B c1 (length bs) = Inr c2 \<and>
      written (chain_mut_core A B) (chain_mut_ok base A oka B okb ob) (chain_mut_out base oa ob)
        (chain_mut_room A ra rb) bs c c2"
    using b12 i by (auto simp: chain_remaining_mut_def)
qed

lemma chain_mut_core_contract:
  "buf_mut_core_contract (chain_mut_core A B) (chain_mut_ok base A oka B okb ob) (chain_mut_out base oa ob)
    (chain_mut_room A ra rb)"
proof unfold_locales
  fix c assume c: "chain_mut_ok base A oka B okb ob c"
  then have ab: "oka (chain_a c)" "okb (chain_b c)" by (auto simp: chain_mut_ok_def)
  show "chain_mut_room A ra rb c \<le> remaining_mut (chain_mut_core A B) c"
    using c a.room_le [OF ab(1)] b.room_le [OF ab(2)]
    by (auto simp: chain_mut_core_def chain_remaining_mut_def chain_mut_room_def chain_mut_ok_def saturating_add_def)
  show "\<exists>mem commit. chunk_mut (chain_mut_core A B) c = Inr (mem, commit) \<and> mem \<noteq> []"
    if "0 < chain_mut_room A ra rb c"
  proof (cases "remaining_mut A (chain_a c) = 0")
    case True
    with that a.room_le [OF ab(1)] have "0 < rb (chain_b c)"
      by (simp add: chain_mut_room_def split: if_splits)
    with b.chunk_mut_nonempty [OF ab(2)] True show ?thesis
      by (auto simp: chain_mut_core_def chain_chunk_mut_def has_remaining_mut_def)
  next
    case False
    with that have "0 < ra (chain_a c)" by (simp add: chain_mut_room_def split: if_splits)
    with a.chunk_mut_nonempty [OF ab(1)] False show ?thesis
      by (auto simp: chain_mut_core_def chain_chunk_mut_def has_remaining_mut_def)
  qed
  fix mem commit assume chunk: "chunk_mut (chain_mut_core A B) c = Inr (mem, commit)"
  then have chunk': "chain_chunk_mut A B c = Inr (mem, commit)" by (simp add: chain_mut_core_def)
  show "length mem \<le> remaining_mut (chain_mut_core A B) c"
    using chain_write_a(1) [OF c _ chunk', of "[]"] chain_write_b(1) [OF c _ chunk', of "[]"] c
    by (cases "remaining_mut A (chain_a c) = 0")
      (auto simp: chain_mut_core_def chain_remaining_mut_def chain_mut_ok_def saturating_add_def)
  fix bs :: "u8 list" assume len: "length bs \<le> length mem"
  show "\<exists>b1 b2. commit (map Some bs @ drop (length bs) mem) = Inr b1 \<and>
      remaining_mut (chain_mut_core A B) b1 = remaining_mut (chain_mut_core A B) c \<and>
      advance_mut (chain_mut_core A B) b1 (length bs) = Inr b2 \<and>
      written (chain_mut_core A B) (chain_mut_ok base A oka B okb ob) (chain_mut_out base oa ob)
        (chain_mut_room A ra rb) bs c b2"
    using chain_write_a(2) [OF c _ chunk' len] chain_write_b(2) [OF c _ chunk' len]
    by (cases "remaining_mut A (chain_a c) = 0") (simp_all add: chain_mut_core_def)
qed

end

lemma buf_mut_contract_chain:
  assumes "buf_mut_core_contract A oka oa ra" "buf_mut_core_contract B okb ob rb"
  shows "buf_mut_contract (chain_buf_mut A B) (chain_mut_ok base A oka B okb ob) (chain_mut_out base oa ob)
    (chain_mut_room A ra rb)"
  unfolding chain_buf_mut_def
  by (intro buf_mut_contract_defaults two_buf_muts.chain_mut_core_contract) (simp add: two_buf_muts_def assms)

section \<open>Writer\<close>

text \<open>\<open>io::Write::write\<close> never fails; \<open>flush\<close> does nothing.\<close>

definition writer_write ::
  "('b, 'z) buf_mut_scheme \<Rightarrow> 'b \<Rightarrow> u8 list \<Rightarrow> ((usize, 'e) result \<times> 'b) res" where
  "writer_write M b src =
     (let n = min (remaining_mut M b) (length src) in
      res_bind (slice_to src n) (\<lambda>part.
      res_bind (put_slice M b part) (\<lambda>b. Inr (Ok n, b))))"

definition writer_flush :: "'b \<Rightarrow> (unit, 'e) result \<times> 'b" where
  "writer_flush b = (Ok (), b)"

end
