(* ===== verification/Buf_Theorems.thy ===== *)
theory Buf_Theorems
  imports Buf_Adapters
begin

text \<open>
  The properties of the reading half of the \<open>bytes\<close> crate: what every typed read returns
  for any implementation of \<open>Buf\<close> that meets its contract, that the implementations and
  adapters meet it, and where they do not.
\<close>

section \<open>Example readers\<close>

text \<open>A ring buffer that wraps around after its first byte, and chains of equal parts.\<close>

definition wrapped :: "u8 \<Rightarrow> u8 \<Rightarrow> vec_deque" where
  "wrapped x y = \<lparr>vd_ring = [y, x], vd_head = 1, vd_len = 2\<rparr>"

definition chain2 :: "('a, 'y) buf_scheme \<Rightarrow> ('a, 'a) chain buf" where
  "chain2 B = chain_buf B B"

definition pair :: "'a \<Rightarrow> 'b \<Rightarrow> ('a, 'b) chain" where
  "pair a b = \<lparr>chain_a = a, chain_b = b\<rparr>"

text \<open>A reader of 17 one-byte chunks: eight ring buffers that wrap around, and a slice.\<close>

definition chunks17_buf where
  "chunks17_buf = chain_buf (chain2 (chain2 (chain2 vec_deque_buf))) slice_buf"

definition chunks17 where
  "chunks17 =
     pair (pair (pair (pair (wrapped 1 2) (wrapped 3 4)) (pair (wrapped 5 6) (wrapped 7 8)))
            (pair (pair (wrapped 9 10) (wrapped 11 12)) (pair (wrapped 13 14) (wrapped 15 16))))
       [17 :: u8]"

definition gap_chain where
  "gap_chain = pair \<lparr>take_inner = chunks17, take_limit = 100\<rparr> [99 :: u8]"

lemmas example_defs = wrapped_def chain2_def pair_def

section \<open>Typed reads\<close>

text \<open>
  C8. Every fixed-width read of \<open>Buf\<close> (\<open>get_u8\<close> to \<open>get_f64_ne\<close>), over any
  implementation that meets the contract: with enough bytes left it returns the next bytes
  decoded in the named byte order and consumes exactly them, whether the value lies in one chunk
  or crosses chunks; otherwise it panics with the numbers of bytes requested and available.
\<close>

theorem get_fixed_width:
  assumes "buf_contract B ok view"
  shows
    "reads ok view 1 hd (get_u8 B) \<and>
     reads ok view 1 hd (get_i8 B) \<and>
     reads ok view 2 from_be_bytes (get_u16 B) \<and>
     reads ok view 2 from_le_bytes (get_u16_le B) \<and>
     reads ok view 2 (from_ne_bytes big) (get_u16_ne big B) \<and>
     reads ok view 2 from_be_bytes (get_i16 B) \<and>
     reads ok view 2 from_le_bytes (get_i16_le B) \<and>
     reads ok view 2 (from_ne_bytes big) (get_i16_ne big B) \<and>
     reads ok view 4 from_be_bytes (get_u32 B) \<and>
     reads ok view 4 from_le_bytes (get_u32_le B) \<and>
     reads ok view 4 (from_ne_bytes big) (get_u32_ne big B) \<and>
     reads ok view 4 from_be_bytes (get_i32 B) \<and>
     reads ok view 4 from_le_bytes (get_i32_le B) \<and>
     reads ok view 4 (from_ne_bytes big) (get_i32_ne big B) \<and>
     reads ok view 8 from_be_bytes (get_u64 B) \<and>
     reads ok view 8 from_le_bytes (get_u64_le B) \<and>
     reads ok view 8 (from_ne_bytes big) (get_u64_ne big B) \<and>
     reads ok view 8 from_be_bytes (get_i64 B) \<and>
     reads ok view 8 from_le_bytes (get_i64_le B) \<and>
     reads ok view 8 (from_ne_bytes big) (get_i64_ne big B) \<and>
     reads ok view 16 from_be_bytes (get_u128 B) \<and>
     reads ok view 16 from_le_bytes (get_u128_le B) \<and>
     reads ok view 16 (from_ne_bytes big) (get_u128_ne big B) \<and>
     reads ok view 16 from_be_bytes (get_i128 B) \<and>
     reads ok view 16 from_le_bytes (get_i128_le B) \<and>
     reads ok view 16 (from_ne_bytes big) (get_i128_ne big B) \<and>
     reads ok view 4 (\<lambda>bs. F32 (from_be_bytes bs)) (get_f32 B) \<and>
     reads ok view 4 (\<lambda>bs. F32 (from_le_bytes bs)) (get_f32_le B) \<and>
     reads ok view 4 (\<lambda>bs. F32 (from_ne_bytes big bs)) (get_f32_ne big B) \<and>
     reads ok view 8 (\<lambda>bs. F64 (from_be_bytes bs)) (get_f64 B) \<and>
     reads ok view 8 (\<lambda>bs. F64 (from_le_bytes bs)) (get_f64_le B) \<and>
     reads ok view 8 (\<lambda>bs. F64 (from_ne_bytes big bs)) (get_f64_ne big B)"
  using buf_core_contract.get_u8_reads [OF buf_contract.axioms(1) [OF assms]]
    buf_contract.int_get_reads [OF assms] buf_contract.float_get_reads [OF assms]
  by (intro conjI)

theorem get_fixed_width_witness:
  "buf_contract slice_buf (\<lambda>s. True) (\<lambda>s. s) \<and> reads (\<lambda>s. True) (\<lambda>s. s) 4 from_be_bytes (get_u32 slice_buf) \<and>
   get_u32 slice_buf [1, 2, 3, 4, 5] = Inr (0x01020304, [5])"
proof -
  have contract: "buf_contract slice_buf (\<lambda>s. True) (\<lambda>s. s)" by unfold_locales
  note get_fixed_width [OF contract, of False]
  then have "reads (\<lambda>s. True) (\<lambda>s. s) 4 from_be_bytes (get_u32 slice_buf)" by blast
  moreover from readsD [OF this, of "[1, 2, 3, 4, 5]"]
  have "get_u32 slice_buf [1, 2, 3, 4, 5] = Inr (0x01020304, [5])"
    by (simp add: from_be_bytes_def from_le_bytes_def)
  ultimately show ?thesis using contract by blast
qed

text \<open>
  C9. Every fallible fixed-width read (\<open>try_get_u8\<close> to \<open>try_get_f64_ne\<close>) returns
  the same value when the bytes are there, and otherwise the error with the numbers of bytes
  requested and available, leaving the buffer as it was. It never panics.
\<close>

theorem try_get_fixed_width:
  assumes "buf_contract B ok view"
  shows
    "try_reads ok view 1 hd (try_get_u8 B) \<and>
     try_reads ok view 1 hd (try_get_i8 B) \<and>
     try_reads ok view 2 from_be_bytes (try_get_u16 B) \<and>
     try_reads ok view 2 from_le_bytes (try_get_u16_le B) \<and>
     try_reads ok view 2 (from_ne_bytes big) (try_get_u16_ne big B) \<and>
     try_reads ok view 2 from_be_bytes (try_get_i16 B) \<and>
     try_reads ok view 2 from_le_bytes (try_get_i16_le B) \<and>
     try_reads ok view 2 (from_ne_bytes big) (try_get_i16_ne big B) \<and>
     try_reads ok view 4 from_be_bytes (try_get_u32 B) \<and>
     try_reads ok view 4 from_le_bytes (try_get_u32_le B) \<and>
     try_reads ok view 4 (from_ne_bytes big) (try_get_u32_ne big B) \<and>
     try_reads ok view 4 from_be_bytes (try_get_i32 B) \<and>
     try_reads ok view 4 from_le_bytes (try_get_i32_le B) \<and>
     try_reads ok view 4 (from_ne_bytes big) (try_get_i32_ne big B) \<and>
     try_reads ok view 8 from_be_bytes (try_get_u64 B) \<and>
     try_reads ok view 8 from_le_bytes (try_get_u64_le B) \<and>
     try_reads ok view 8 (from_ne_bytes big) (try_get_u64_ne big B) \<and>
     try_reads ok view 8 from_be_bytes (try_get_i64 B) \<and>
     try_reads ok view 8 from_le_bytes (try_get_i64_le B) \<and>
     try_reads ok view 8 (from_ne_bytes big) (try_get_i64_ne big B) \<and>
     try_reads ok view 16 from_be_bytes (try_get_u128 B) \<and>
     try_reads ok view 16 from_le_bytes (try_get_u128_le B) \<and>
     try_reads ok view 16 (from_ne_bytes big) (try_get_u128_ne big B) \<and>
     try_reads ok view 16 from_be_bytes (try_get_i128 B) \<and>
     try_reads ok view 16 from_le_bytes (try_get_i128_le B) \<and>
     try_reads ok view 16 (from_ne_bytes big) (try_get_i128_ne big B) \<and>
     try_reads ok view 4 (\<lambda>bs. F32 (from_be_bytes bs)) (try_get_f32 B) \<and>
     try_reads ok view 4 (\<lambda>bs. F32 (from_le_bytes bs)) (try_get_f32_le B) \<and>
     try_reads ok view 4 (\<lambda>bs. F32 (from_ne_bytes big bs)) (try_get_f32_ne big B) \<and>
     try_reads ok view 8 (\<lambda>bs. F64 (from_be_bytes bs)) (try_get_f64 B) \<and>
     try_reads ok view 8 (\<lambda>bs. F64 (from_le_bytes bs)) (try_get_f64_le B) \<and>
     try_reads ok view 8 (\<lambda>bs. F64 (from_ne_bytes big bs)) (try_get_f64_ne big B)"
  using buf_core_contract.try_get_u8_reads [OF buf_contract.axioms(1) [OF assms]]
    buf_contract.int_try_get_reads [OF assms] buf_contract.float_try_get_reads [OF assms]
  by (intro conjI)

theorem try_get_fixed_width_witness:
  "buf_contract slice_buf (\<lambda>s. True) (\<lambda>s. s) \<and>
   try_get_u16_le slice_buf [1, 2, 3] = Inr (Ok 0x0201, [3]) \<and>
   try_get_u16_le slice_buf [7] = Inr (Err \<lparr>requested = 2, available = 1\<rparr>, [7])"
proof -
  have contract: "buf_contract slice_buf (\<lambda>s. True) (\<lambda>s. s)" by unfold_locales
  note try_get_fixed_width [OF contract, of False]
  then have *: "try_reads (\<lambda>s. True) (\<lambda>s. s) 2 from_le_bytes (try_get_u16_le slice_buf)" by blast
  from try_readsD [OF *, of "[1, 2, 3]"]
  have "try_get_u16_le slice_buf [1, 2, 3] = Inr (Ok 0x0201, [3])"
    by (simp add: from_le_bytes_def)
  moreover from * have "try_get_u16_le slice_buf [7] = Inr (Err \<lparr>requested = 2, available = 1\<rparr>, [7])"
    by (simp add: try_reads_def)
  ultimately show ?thesis using contract by blast
qed

text \<open>
  C10. \<open>get_int\<close> and \<open>get_int_le\<close> of 1 to 8 bytes return the two's complement value of
  the bytes, sign-extended to 64 bits, and consume them.
\<close>

theorem get_int_two_complement:
  assumes "buf_contract B ok view" "ok b" "0 < n" "n \<le> 8" "n \<le> length (view b)"
  shows "(\<exists>r b'. get_int B b n = Inr (r, b') \<and>
      sint r = signed_value n (be_val (take n (view b))) \<and> ok b' \<and> view b' = drop n (view b)) \<and>
    (\<exists>r b'. get_int_le B b n = Inr (r, b') \<and>
      sint r = signed_value n (le_val (take n (view b))) \<and> ok b' \<and> view b' = drop n (view b))"
  using buf_contract.get_int_signed [OF assms] by blast

theorem get_int_two_complement_witness:
  "\<exists>r s'. get_int slice_buf [0xFF, 0xFF, 0xFE, 0x07] 3 = Inr (r, s') \<and> sint r = - 2 \<and> s' = [0x07]"
proof -
  have "buf_contract slice_buf (\<lambda>s. True) (\<lambda>s. s)" by unfold_locales
  from get_int_two_complement [OF this, where b = "[0xFF, 0xFF, 0xFE, 0x07]" and n = 3] show ?thesis
    by (simp add: be_val_def signed_value_def)
qed

text \<open>
  C11. The documentation of \<open>try_get_int\<close> has it read a signed integer as \<open>get_int\<close>
  does; it does not sign-extend. The three bytes \<open>FF FF FE\<close> are \<open>-2\<close> for \<open>get_int\<close>
  and \<open>16777214\<close> for \<open>try_get_int\<close>, and no reader of fewer than 8 bytes ever
  gets a negative number from \<open>try_get_int\<close>.
\<close>

theorem try_get_int_not_sign_extended:
  assumes "buf_contract B ok view" "ok b" "n < 8" "n \<le> length (view b)"
  shows "\<exists>r b'. try_get_int B b n = Inr (Ok r, b') \<and> sint r = int (be_val (take n (view b))) \<and>
    view b' = drop n (view b)"
proof -
  have n: "n \<le> 8" using assms by simp
  from try_readsD [OF buf_contract.try_get_uint_reads(3) [OF assms(1) n] assms(2,4)] obtain b' where
    *: "try_get_int B b n = Inr (Ok (word_of_nat (be_val (take n (view b)))), b')" "view b' = drop n (view b)"
    by auto
  have "be_val (take n (view b)) < 256 ^ n"
    using le_val_less [of "rev (take n (view b))"] assms by (simp add: be_val_def)
  also have "(256::nat) ^ n \<le> 256 ^ 7" using assms by (intro power_increasing) auto
  finally have "be_val (take n (view b)) < 2 ^ 63" by simp
  then have "sint (word_of_nat (be_val (take n (view b))) :: i64) = int (be_val (take n (view b)))"
    by (simp add: signed_of_nat signed_take_bit_value)
  with * show ?thesis by blast
qed

theorem try_get_int_not_sign_extended_witness:
  "\<exists>r s'. try_get_int slice_buf [0xFF, 0xFF, 0xFE] 3 = Inr (Ok r, s') \<and> sint r = 16777214 \<and>
    (\<exists>r. get_int slice_buf [0xFF, 0xFF, 0xFE] 3 = Inr (r, []) \<and> sint r = - 2)"
proof -
  have contract: "buf_contract slice_buf (\<lambda>s. True) (\<lambda>s. s)" by unfold_locales
  from try_get_int_not_sign_extended [OF contract, where b = "[0xFF, 0xFF, 0xFE]" and n = 3]
  obtain r s' where "try_get_int slice_buf [0xFF, 0xFF, 0xFE] 3 = Inr (Ok r, s')" "sint r = 16777214"
    by (auto simp: be_val_def)
  moreover have "\<exists>r. get_int slice_buf [0xFF, 0xFF, 0xFE] 3 = Inr (r, []) \<and> sint r = - 2"
    using slice.get_int_signed(1) [of 3 "[0xFF, 0xFF, 0xFE]"]
    by (simp add: be_val_def signed_value_def)
  ultimately show ?thesis by blast
qed

text \<open>
  C12. Integers of variable width: more than 8 bytes panic in all four reads before anything
  is read, and \<open>get_int\<close> of 0 bytes panics too (the shift by 64 bits in \<open>sign_extend\<close>
  overflows), where \<open>get_uint\<close> of 0 bytes returns 0.
\<close>

theorem variable_width_panics:
  assumes "buf_contract B ok view" "ok b" "8 < n"
  shows "get_uint B b n = Inl (Panic (Panic_does_not_fit 8 n)) \<and>
    get_uint_le B b n = Inl (Panic (Panic_does_not_fit 8 n)) \<and>
    get_int B b n = Inl (Panic (Panic_does_not_fit 8 n)) \<and>
    get_int_le B b n = Inl (Panic (Panic_does_not_fit 8 n)) \<and>
    get_int B b 0 = Inl (Panic Arith_overflow) \<and> get_int_le B b 0 = Inl (Panic Arith_overflow) \<and>
    (\<exists>b'. get_uint B b 0 = Inr (0, b') \<and> view b' = view b)"
  using get_uint_too_wide [OF assms(3)] buf_contract.get_int_zero_panics [OF assms(1,2)]
    readsD [OF buf_contract.get_uint_reads(1) [OF assms(1), of 0] assms(2)]
  by (auto simp: be_val_def)

theorem variable_width_panics_witness:
  "get_int slice_buf [1, 2] 0 = Inl (Panic Arith_overflow) \<and>
   get_int slice_buf [1, 2] 9 = Inl (Panic (Panic_does_not_fit 8 9))"
proof -
  have "buf_contract slice_buf (\<lambda>s. True) (\<lambda>s. s)" by unfold_locales
  from variable_width_panics [OF this, where b = "[1, 2]" and n = 9] show ?thesis by simp
qed

section \<open>Adapters\<close>

text \<open>
  C13. The adapters over lawful readers. A \<open>Chain\<close> of any two lawful readers delivers the bytes
  of the first and then those of the second to every read (up to \<open>usize::MAX\<close> bytes in all).
  Its \<open>chunks_vectored\<close> is lawful too when the first part is complete, that is, leaves bytes out
  of the slices only when \<open>dst\<close> is full, and complete when both parts are. A \<open>Take\<close> of a
  lawful reader is a lawful reader of its first \<open>limit\<close> bytes, \<open>chunks_vectored\<close> included; it
  need not be complete, whatever the inner reader, so a \<open>Chain\<close> that starts with a \<open>Take\<close> is
  only covered by the first sentence.
\<close>

theorem adapters_meet_contract:
  assumes "buf_vectored A oka va" "buf_vectored B okb vb"
  shows "buf_contract (chain_buf A B) (chain_ok oka va okb vb) (chain_view va vb) \<and>
    (buf_complete A oka va \<longrightarrow>
      buf_vectored (chain_buf A B) (chain_ok oka va okb vb) (chain_view va vb)) \<and>
    (buf_complete A oka va \<and> buf_complete B okb vb \<longrightarrow>
      buf_complete (chain_buf A B) (chain_ok oka va okb vb) (chain_view va vb)) \<and>
    buf_vectored (take_buf B) (take_ok okb) (take_view vb)"
  using buf_contract_chain buf_vectored_chain [OF _ assms(2)] buf_complete_chain buf_vectored_take [OF assms(2)]
    assms [THEN buf_vectored.axioms(1), THEN buf_contract.axioms(1)]
  by blast

theorem adapters_meet_contract_witness:
  "buf_complete (chain_buf cursor_buf vec_deque_buf)
     (chain_ok cursor_ok cursor_view vec_deque_ok vec_deque_view) (chain_view cursor_view vec_deque_view) \<and>
   buf_vectored (take_buf vec_deque_buf) (take_ok vec_deque_ok) (take_view vec_deque_view) \<and>
   (\<exists>c. get_u16 (chain_buf cursor_buf vec_deque_buf)
       (pair \<lparr>get_ref = [9, 8], position = 1\<rparr> (wrapped 6 7)) = Inr (0x0806, c) \<and>
     chain_view cursor_view vec_deque_view c = [7])"
proof -
  let ?c = "pair \<lparr>get_ref = [9, 8], position = 1\<rparr> (wrapped 6 7)"
  have parts: "buf_complete cursor_buf cursor_ok cursor_view" "buf_complete vec_deque_buf vec_deque_ok vec_deque_view"
    by unfold_locales
  note contract = adapters_meet_contract [OF parts [THEN buf_complete.axioms(1)]]
  then have "buf_contract (chain_buf cursor_buf vec_deque_buf)
      (chain_ok cursor_ok cursor_view vec_deque_ok vec_deque_view) (chain_view cursor_view vec_deque_view)"
    by blast
  from readsD [OF buf_contract.int_get_reads(1) [OF this], of ?c]
  have "\<exists>c. get_u16 (chain_buf cursor_buf vec_deque_buf) ?c = Inr (0x0806, c) \<and>
      chain_view cursor_view vec_deque_view c = [7]"
    by (auto simp: chain_ok_def chain_view_def example_defs cursor_ok_def cursor_view_def vec_deque_ok_def
        vec_deque_view_def as_slices_def isize_max_def usize_max_def from_be_bytes_def from_le_bytes_def)
  with contract parts show ?thesis by blast
qed

lemma chain2_complete:
  "buf_complete B ok v \<Longrightarrow> buf_complete (chain2 B) (chain_ok ok v ok v) (chain_view v v)"
  by (simp add: chain2_def buf_complete_chain)

lemma wrapped_chunks [simp]:
  "chunks_vectored vec_deque_buf (wrapped x y) (d # e # ds) = Inr ([x] # [y] # ds, 2)"
  by (simp add: vec_deque_buf_def vec_deque_chunks_vectored_def as_slices_def wrapped_def)

lemma slice_chunks [simp]:
  "chunks_vectored slice_buf (x # xs) (d # ds) = Inr ((x # xs) # ds, 1)"
  "chunks_vectored slice_buf s [] = Inr ([], 0)"
  by (simp_all add: slice_buf_def slice_core_def chunks_vectored_default_def has_remaining_def)

lemma chain_pair_chunks:
  "chunks_vectored A a dst = Inr (d, n) \<Longrightarrow> n \<le> length d \<Longrightarrow> chunks_vectored B b (drop n d) = Inr (e, m) \<Longrightarrow>
   n + m \<le> usize_max \<Longrightarrow> chunks_vectored (chain_buf A B) (pair a b) dst = Inr (take n d @ e, n + m)"
  by (simp add: chain_buf_def chain_chunks_vectored_def pair_def slice_from_def usize_add_def)

lemma chunks17_slices:
  "chunks_vectored chunks17_buf chunks17 (replicate 16 []) =
     Inr ([[1], [2], [3], [4], [5], [6], [7], [8], [9], [10], [11], [12], [13], [14], [15], [16]], 16)"
proof -
  have "replicate 16 ([] :: u8 list) = [[], [], [], [], [], [], [], [], [], [], [], [], [], [], [], []]" by code_simp
  then show ?thesis
    by (simp add: chunks17_def chunks17_buf_def chain2_def chain_pair_chunks usize_max_def)
qed

lemma prefix_single: "prefix xs [x] \<longleftrightarrow> xs = [] \<or> xs = [x]"
  by (cases xs) auto

text \<open>
  C14. \<open>Take::chunks_vectored\<close> asks its inner reader for no more than 16 slices, whatever the
  length of \<open>dst\<close>, and \<open>Chain::chunks_vectored\<close> then goes on with its second part. For a
  \<open>Chain\<close> whose first part is a \<open>Take\<close> of a complete reader and whose second part is any lawful
  reader, the slices have a hole exactly when three conditions meet: \<open>dst\<close> has more than 16
  entries, the \<open>Take\<close> has more bytes left than the first 16 slices of its inner reader hold, and
  the second part is not empty. The slices then hold the bytes of those 16 slices followed by
  bytes of the second part, and the non-empty rest of the \<open>Take\<close> is skipped. Otherwise they are a
  prefix of the chain's bytes, as the documentation of \<open>chunks_vectored\<close> asks. It never panics.
\<close>

theorem chain_chunks_vectored_gap:
  assumes "buf_complete B ok view" "buf_vectored C okc vc"
    and "take_ok ok (chain_a c)" "okc (chain_b c)" "length dst \<le> isize_max"
    and "chunks_vectored B (take_inner (chain_a c)) (replicate 16 []) = Inr (filled, cnt)"
  shows "\<exists>dst' n. chunks_vectored (chain_buf (take_buf B) C) c dst = Inr (dst', n) \<and>
    (if 16 < length dst \<and> length (concat (take cnt filled)) < length (take_view view (chain_a c)) \<and>
        vc (chain_b c) \<noteq> []
     then \<exists>skipped second. take_view view (chain_a c) = concat (take cnt filled) @ skipped \<and> skipped \<noteq> [] \<and>
       concat (take n dst') = concat (take cnt filled) @ second \<and> second \<noteq> [] \<and> prefix second (vc (chain_b c))
     else vectored_ok (chain_view (take_view view) vc c) dst dst' n)"
  using chain_take_chunks_vectored [OF assms] by (simp add: chain_buf_def)

text \<open>
  Read byte by byte, the example chain has the bytes \<open>1, ..., 17, 99\<close>; 20 slices of it hold
  \<open>1, ..., 16, 99\<close>. With 16 entries the slices are right.
\<close>

theorem chain_chunks_vectored_gap_witness:
  "iter_collect (chain_buf (take_buf chunks17_buf) slice_buf) gap_chain =
     Inr [1, 2, 3, 4, 5, 6, 7, 8, 9, 10, 11, 12, 13, 14, 15, 16, 17, 99] \<and>
   (\<exists>dst n. chunks_vectored (chain_buf (take_buf chunks17_buf) slice_buf) gap_chain (replicate 20 []) = Inr (dst, n) \<and>
     concat (take n dst) = [1, 2, 3, 4, 5, 6, 7, 8, 9, 10, 11, 12, 13, 14, 15, 16, 99]) \<and>
   (\<exists>dst n. chunks_vectored (chain_buf (take_buf chunks17_buf) slice_buf) gap_chain (replicate 16 []) = Inr (dst, n) \<and>
     vectored_ok [1, 2, 3, 4, 5, 6, 7, 8, 9, 10, 11, 12, 13, 14, 15, 16, 17, 99] (replicate 16 []) dst n)"
proof -
  note inner = buf_complete_chain [OF chain2_complete [OF chain2_complete
    [OF chain2_complete [OF vec_deque.buf_complete_axioms]]] slice.buf_complete_axioms,
    folded chunks17_buf_def]
  note take_lawful = buf_vectored_take [OF buf_complete.axioms(1) [OF inner]]
  note chain_lawful = buf_contract_chain [OF
    buf_contract.axioms(1) [OF buf_vectored.axioms(1) [OF take_lawful]] slice.buf_core_contract_axioms]
  note view_defs = chain_ok_def chain_view_def take_view_def vec_deque_ok_def vec_deque_view_def
    as_slices_def gap_chain_def chunks17_def example_defs usize_max_def isize_max_def
  have slices: "chunks_vectored chunks17_buf (take_inner (chain_a gap_chain)) (replicate 16 []) =
     Inr ([[1], [2], [3], [4], [5], [6], [7], [8], [9], [10], [11], [12], [13], [14], [15], [16]], 16)"
    using chunks17_slices by (simp add: gap_chain_def pair_def)
  note gap = chain_chunks_vectored_gap [OF inner slice.buf_vectored_axioms _ _ _ slices]
  have "iter_collect (chain_buf (take_buf chunks17_buf) slice_buf) gap_chain =
     Inr [1, 2, 3, 4, 5, 6, 7, 8, 9, 10, 11, 12, 13, 14, 15, 16, 17, 99]"
    using buf_core_contract.iter_collect_view [OF buf_contract.axioms(1) [OF chain_lawful], of gap_chain]
    by (simp add: view_defs)
  moreover from gap [of "replicate 20 []"]
  have "\<exists>dst n. chunks_vectored (chain_buf (take_buf chunks17_buf) slice_buf) gap_chain (replicate 20 []) = Inr (dst, n) \<and>
     concat (take n dst) = [1, 2, 3, 4, 5, 6, 7, 8, 9, 10, 11, 12, 13, 14, 15, 16, 99]"
    by (auto simp: view_defs prefix_single)
  moreover from gap [of "replicate 16 []"]
  have "\<exists>dst n. chunks_vectored (chain_buf (take_buf chunks17_buf) slice_buf) gap_chain (replicate 16 []) = Inr (dst, n) \<and>
     vectored_ok [1, 2, 3, 4, 5, 6, 7, 8, 9, 10, 11, 12, 13, 14, 15, 16, 17, 99] (replicate 16 []) dst n"
    by (auto simp: view_defs)
  ultimately show ?thesis by blast
qed

text \<open>
  C15. Iterating over a buffer (\<open>IntoIter\<close>) ends and yields its bytes in order, and
  \<open>Reader::read\<close> fills the front of \<open>dst\<close> with as many bytes as both sides have,
  keeps the rest of \<open>dst\<close>, returns that number and consumes those bytes, without failing.
\<close>

theorem iterate_and_read:
  assumes "buf_contract B ok view" "ok b"
  shows "iter_collect B b = Inr (view b) \<and>
    (\<exists>b'. (reader_read B b dst :: ((usize, 'e) result \<times> u8 list \<times> 'b) res) =
        Inr (Ok (min (length (view b)) (length dst)),
          take (length dst) (view b) @ drop (length (view b)) dst, b') \<and>
      ok b' \<and> view b' = drop (length dst) (view b))"
  using buf_core_contract.iter_collect_view [OF buf_contract.axioms(1) [OF assms(1)] assms(2)]
    buf_contract.reader_read_view [OF assms] by blast

theorem iterate_and_read_witness:
  "iter_collect vec_deque_buf (wrapped 5 6) = Inr [5, 6] \<and>
   (\<exists>b'. (reader_read vec_deque_buf (wrapped 5 6) [0, 0, 7] :: ((usize, unit) result \<times> u8 list \<times> vec_deque) res) =
     Inr (Ok 2, [5, 6, 7], b'))"
proof -
  have contract: "buf_contract vec_deque_buf vec_deque_ok vec_deque_view" by unfold_locales
  have ok: "vec_deque_ok (wrapped 5 6)" and view: "vec_deque_view (wrapped 5 6) = [5, 6]" by code_simp+
  from iterate_and_read [OF contract ok, where dst = "[0, 0, 7]" and 'e = unit] show ?thesis
    by (auto simp: view)
qed

end
