(* ===== verification/Buf_Mut_Theorems.thy ===== *)
theory Buf_Mut_Theorems
  imports Buf_Mut_Impls Buf_Theorems
begin

text \<open>
  The properties of the writing half of the \<open>bytes\<close> crate: what the typed writes and
  \<open>put\<close> append for any implementation of \<open>BufMut\<close> that meets its contract, that the
  implementations and adapters meet it, and that what one half writes the other reads back.
\<close>

section \<open>Typed writes\<close>

text \<open>
  C16. Every fixed-width write of \<open>BufMut\<close> (\<open>put_u8\<close> to \<open>put_f64_ne\<close>), over any
  implementation that meets the contract: with room for it the value is appended in the named
  byte order, over as many chunks as it takes, with nothing else changed; when fewer bytes remain
  the write panics.
\<close>

theorem put_fixed_width:
  fixes n :: u8 and n16 :: u16 and n32 :: u32 and n64 :: u64 and n128 :: u128 and x32 :: f32 and x64 :: f64
  assumes "buf_mut_contract M ok out room"
  shows
    "writes M ok out room [n] (\<lambda>b. put_u8 M b n) \<and>
     writes M ok out room [n] (\<lambda>b. put_i8 M b n) \<and>
     writes M ok out room (to_be_bytes n16) (\<lambda>b. put_u16 M b n16) \<and>
     writes M ok out room (to_le_bytes n16) (\<lambda>b. put_u16_le M b n16) \<and>
     writes M ok out room (to_ne_bytes big n16) (\<lambda>b. put_u16_ne big M b n16) \<and>
     writes M ok out room (to_be_bytes n16) (\<lambda>b. put_i16 M b n16) \<and>
     writes M ok out room (to_le_bytes n16) (\<lambda>b. put_i16_le M b n16) \<and>
     writes M ok out room (to_ne_bytes big n16) (\<lambda>b. put_i16_ne big M b n16) \<and>
     writes M ok out room (to_be_bytes n32) (\<lambda>b. put_u32 M b n32) \<and>
     writes M ok out room (to_le_bytes n32) (\<lambda>b. put_u32_le M b n32) \<and>
     writes M ok out room (to_ne_bytes big n32) (\<lambda>b. put_u32_ne big M b n32) \<and>
     writes M ok out room (to_be_bytes n32) (\<lambda>b. put_i32 M b n32) \<and>
     writes M ok out room (to_le_bytes n32) (\<lambda>b. put_i32_le M b n32) \<and>
     writes M ok out room (to_ne_bytes big n32) (\<lambda>b. put_i32_ne big M b n32) \<and>
     writes M ok out room (to_be_bytes n64) (\<lambda>b. put_u64 M b n64) \<and>
     writes M ok out room (to_le_bytes n64) (\<lambda>b. put_u64_le M b n64) \<and>
     writes M ok out room (to_ne_bytes big n64) (\<lambda>b. put_u64_ne big M b n64) \<and>
     writes M ok out room (to_be_bytes n64) (\<lambda>b. put_i64 M b n64) \<and>
     writes M ok out room (to_le_bytes n64) (\<lambda>b. put_i64_le M b n64) \<and>
     writes M ok out room (to_ne_bytes big n64) (\<lambda>b. put_i64_ne big M b n64) \<and>
     writes M ok out room (to_be_bytes n128) (\<lambda>b. put_u128 M b n128) \<and>
     writes M ok out room (to_le_bytes n128) (\<lambda>b. put_u128_le M b n128) \<and>
     writes M ok out room (to_ne_bytes big n128) (\<lambda>b. put_u128_ne big M b n128) \<and>
     writes M ok out room (to_be_bytes n128) (\<lambda>b. put_i128 M b n128) \<and>
     writes M ok out room (to_le_bytes n128) (\<lambda>b. put_i128_le M b n128) \<and>
     writes M ok out room (to_ne_bytes big n128) (\<lambda>b. put_i128_ne big M b n128) \<and>
     writes M ok out room (to_be_bytes (f32_to_bits x32)) (\<lambda>b. put_f32 M b x32) \<and>
     writes M ok out room (to_le_bytes (f32_to_bits x32)) (\<lambda>b. put_f32_le M b x32) \<and>
     writes M ok out room (to_ne_bytes big (f32_to_bits x32)) (\<lambda>b. put_f32_ne big M b x32) \<and>
     writes M ok out room (to_be_bytes (f64_to_bits x64)) (\<lambda>b. put_f64 M b x64) \<and>
     writes M ok out room (to_le_bytes (f64_to_bits x64)) (\<lambda>b. put_f64_le M b x64) \<and>
     writes M ok out room (to_ne_bytes big (f64_to_bits x64)) (\<lambda>b. put_f64_ne big M b x64)"
  using buf_mut_contract.typed_puts_write [OF assms] by (intro conjI)

theorem put_fixed_width_witness:
  "\<exists>s'. put_u16 slice_buf_mut \<lparr>behind = [9], rest = [0, 0, 7]\<rparr> 0x0102 = Inr s' \<and> behind s' = [9, 1, 2]"
proof -
  have "buf_mut_contract slice_buf_mut (\<lambda>s. True) behind slice_mut_room" by unfold_locales
  note put_fixed_width [OF this, where n = 0 and ?n16.0 = "0x0102" and big = False and ?n32.0 = 0 and ?n64.0 = 0
    and ?n128.0 = 0 and ?x32.0 = "F32 0" and ?x64.0 = "F64 0"]
  then have "writes slice_buf_mut (\<lambda>s. True) behind slice_mut_room (to_be_bytes (0x0102 :: u16))
      (\<lambda>b. put_u16 slice_buf_mut b 0x0102)" by blast
  from writesD [OF this, of "\<lparr>behind = [9], rest = [0, 0, 7]\<rparr>"]
  have "\<exists>s'. put_u16 slice_buf_mut \<lparr>behind = [9], rest = [0, 0, 7]\<rparr> 0x0102 = Inr s' \<and>
      behind s' = [9] @ to_be_bytes (0x0102 :: u16)" by (auto simp: written_def)
  moreover have "to_be_bytes (0x0102 :: u16) = [1, 2]" by code_simp
  ultimately show ?thesis by simp
qed

text \<open>
  C17. \<open>put\<close> moves the whole contents of any lawful reader into any lawful writer with
  room for them: the loop ends, the bytes are appended in order whatever the chunks of the two
  sides are, and the reader is left empty.
\<close>

theorem put_moves_everything:
  assumes "buf_mut_core_contract M ok out room" "buf_core_contract S oks view"
    and "ok b" "oks s" "length (view s) \<le> room b"
  shows "\<exists>b' s'. put M S b s = Inr (b', s') \<and> ok b' \<and> out b' = out b @ view s \<and>
    remaining_mut M b' = remaining_mut M b - length (view s) \<and> oks s' \<and> view s' = []"
  using buf_transfer.put_writes [of M ok out room S oks view b s] assms
  by (auto simp: buf_transfer_def written_def)

theorem put_moves_everything_witness:
  "\<exists>b' s'. put slice_mut_core vec_deque_core \<lparr>behind = [], rest = [0, 0, 0]\<rparr> (wrapped 5 6) = Inr (b', s') \<and>
    behind b' = [5, 6]"
proof -
  have "buf_mut_core_contract slice_mut_core (\<lambda>s. True) behind slice_mut_room"
    "buf_core_contract vec_deque_core vec_deque_ok vec_deque_view" by unfold_locales
  note put_moves_everything [OF this, where b = "\<lparr>behind = [], rest = [0, 0, 0]\<rparr>" and s = "wrapped 5 6"]
  moreover have "vec_deque_ok (wrapped 5 6)" "vec_deque_view (wrapped 5 6) = [5, 6]" by code_simp+
  ultimately show ?thesis by auto
qed

section \<open>Reading back\<close>

text \<open>
  \<open>round_trip\<close>: the write succeeds, and the read applied to exactly the bytes it appended
  returns the value and leaves nothing over.
\<close>

definition round_trip ::
  "('b, 'z) buf_mut_scheme \<Rightarrow> ('b \<Rightarrow> bool) \<Rightarrow> ('b \<Rightarrow> u8 list) \<Rightarrow> 'b \<Rightarrow> ('b \<Rightarrow> 'b res) \<Rightarrow>
     (u8 list \<Rightarrow> ('a \<times> u8 list) res) \<Rightarrow> 'a \<Rightarrow> bool" where
  "round_trip M ok out b op get v \<longleftrightarrow>
     (\<exists>b' bs. op b = Inr b' \<and> ok b' \<and> out b' = out b @ bs \<and> get bs = Inr (v, []))"

lemma round_tripI:
  assumes "writes M ok out room bs op" "reads (\<lambda>s. True) (\<lambda>s. s) k conv get"
    and "length bs = k" "conv bs = v" "ok b" "k \<le> room b"
  shows "round_trip M ok out b op get v"
proof -
  from assms(3,6) have "length bs \<le> room b" by simp
  from writesD [OF assms(1,5) this] obtain b' where "op b = Inr b'" "written M ok out room bs b b'" by blast
  moreover from readsD [OF assms(2), of bs] assms(3,4) have "get bs = Inr (v, [])" by auto
  ultimately show ?thesis by (auto simp: round_trip_def written_def)
qed

lemma F32_bits [simp]: "F32 (f32_to_bits x) = x"
  by (cases x) simp

lemma F64_bits [simp]: "F64 (f64_to_bits x) = x"
  by (cases x) simp

text \<open>
  C18. Every fixed-width write reads back: the bytes that \<open>put_t\<close> appends to any lawful
  writer with 16 bytes of room decode with \<open>get_t\<close> to the value written, for all integer and
  float types and the three byte orders.
\<close>

theorem put_get_round_trip:
  fixes n :: u8 and n16 :: u16 and n32 :: u32 and n64 :: u64 and n128 :: u128 and x32 :: f32 and x64 :: f64
  assumes "buf_mut_contract M ok out room" "ok b" "16 \<le> room b"
  shows
    "round_trip M ok out b (\<lambda>b. put_u8 M b n) (get_u8 slice_buf) n \<and>
     round_trip M ok out b (\<lambda>b. put_i8 M b n) (get_i8 slice_buf) n \<and>
     round_trip M ok out b (\<lambda>b. put_u16 M b n16) (get_u16 slice_buf) n16 \<and>
     round_trip M ok out b (\<lambda>b. put_u16_le M b n16) (get_u16_le slice_buf) n16 \<and>
     round_trip M ok out b (\<lambda>b. put_u16_ne big M b n16) (get_u16_ne big slice_buf) n16 \<and>
     round_trip M ok out b (\<lambda>b. put_i16 M b n16) (get_i16 slice_buf) n16 \<and>
     round_trip M ok out b (\<lambda>b. put_i16_le M b n16) (get_i16_le slice_buf) n16 \<and>
     round_trip M ok out b (\<lambda>b. put_i16_ne big M b n16) (get_i16_ne big slice_buf) n16 \<and>
     round_trip M ok out b (\<lambda>b. put_u32 M b n32) (get_u32 slice_buf) n32 \<and>
     round_trip M ok out b (\<lambda>b. put_u32_le M b n32) (get_u32_le slice_buf) n32 \<and>
     round_trip M ok out b (\<lambda>b. put_u32_ne big M b n32) (get_u32_ne big slice_buf) n32 \<and>
     round_trip M ok out b (\<lambda>b. put_i32 M b n32) (get_i32 slice_buf) n32 \<and>
     round_trip M ok out b (\<lambda>b. put_i32_le M b n32) (get_i32_le slice_buf) n32 \<and>
     round_trip M ok out b (\<lambda>b. put_i32_ne big M b n32) (get_i32_ne big slice_buf) n32 \<and>
     round_trip M ok out b (\<lambda>b. put_u64 M b n64) (get_u64 slice_buf) n64 \<and>
     round_trip M ok out b (\<lambda>b. put_u64_le M b n64) (get_u64_le slice_buf) n64 \<and>
     round_trip M ok out b (\<lambda>b. put_u64_ne big M b n64) (get_u64_ne big slice_buf) n64 \<and>
     round_trip M ok out b (\<lambda>b. put_i64 M b n64) (get_i64 slice_buf) n64 \<and>
     round_trip M ok out b (\<lambda>b. put_i64_le M b n64) (get_i64_le slice_buf) n64 \<and>
     round_trip M ok out b (\<lambda>b. put_i64_ne big M b n64) (get_i64_ne big slice_buf) n64 \<and>
     round_trip M ok out b (\<lambda>b. put_u128 M b n128) (get_u128 slice_buf) n128 \<and>
     round_trip M ok out b (\<lambda>b. put_u128_le M b n128) (get_u128_le slice_buf) n128 \<and>
     round_trip M ok out b (\<lambda>b. put_u128_ne big M b n128) (get_u128_ne big slice_buf) n128 \<and>
     round_trip M ok out b (\<lambda>b. put_i128 M b n128) (get_i128 slice_buf) n128 \<and>
     round_trip M ok out b (\<lambda>b. put_i128_le M b n128) (get_i128_le slice_buf) n128 \<and>
     round_trip M ok out b (\<lambda>b. put_i128_ne big M b n128) (get_i128_ne big slice_buf) n128 \<and>
     round_trip M ok out b (\<lambda>b. put_f32 M b x32) (get_f32 slice_buf) x32 \<and>
     round_trip M ok out b (\<lambda>b. put_f32_le M b x32) (get_f32_le slice_buf) x32 \<and>
     round_trip M ok out b (\<lambda>b. put_f32_ne big M b x32) (get_f32_ne big slice_buf) x32 \<and>
     round_trip M ok out b (\<lambda>b. put_f64 M b x64) (get_f64 slice_buf) x64 \<and>
     round_trip M ok out b (\<lambda>b. put_f64_le M b x64) (get_f64_le slice_buf) x64 \<and>
     round_trip M ok out b (\<lambda>b. put_f64_ne big M b x64) (get_f64_ne big slice_buf) x64"
proof -
  note puts = buf_mut_contract.typed_puts_write [OF assms(1)]
  note gets = slice.get_u8_reads slice.int_get_reads slice.float_get_reads
  show ?thesis
    by (intro conjI; rule round_tripI, rule puts, rule gets, simp, simp, rule assms(2), use assms(3) in simp)
qed

theorem put_get_round_trip_witness:
  "round_trip (vec_buf_mut amortized) vec_ok vec_out \<lparr>cells = [], vec_len = 0\<rparr>
     (\<lambda>b. put_f64_le (vec_buf_mut amortized) b (F64 0x3FF0000000000000)) (get_f64_le slice_buf) (F64 0x3FF0000000000000)"
proof -
  have "buf_mut_contract (vec_buf_mut amortized) vec_ok vec_out amortized.vec_room" by unfold_locales
  from put_get_round_trip [OF this, where b = "\<lparr>cells = [], vec_len = 0\<rparr>" and ?x64.0 = "F64 0x3FF0000000000000"
      and n = 0 and ?n16.0 = 0 and ?n32.0 = 0 and ?n64.0 = 0 and ?n128.0 = 0 and ?x32.0 = "F32 0" and big = False]
  show ?thesis by (simp add: vec_ok_def isize_max_def)
qed

text \<open>The low bytes of a number that fits its width give it back.\<close>

lemma signed_value_low_bytes:
  assumes "0 < n" "n \<le> 8" "- (2 ^ (8 * n - 1)) \<le> sint v" "sint v < 2 ^ (8 * n - 1)"
  shows "signed_value n (unat v mod 256 ^ n) = sint (v :: i64)"
proof -
  from assms obtain m where m: "8 * n = Suc m" "m \<le> 63" by (cases n) auto
  have pow: "(256::nat) ^ n = 2 ^ Suc m" by (simp add: power_mult flip: m(1))
  have "unat v mod 2 ^ Suc m < 2 ^ Suc m" by simp
  then have "signed_value n (unat v mod 2 ^ Suc m) = signed_take_bit m (int (unat v mod 2 ^ Suc m))"
    using signed_take_bit_value [of "unat v mod 2 ^ Suc m" m]
    by (simp only: signed_value_def m(1) diff_Suc_1)
  also have "\<dots> = signed_take_bit m (take_bit (Suc m) (uint v))"
    by (simp only: take_bit_eq_mod zmod_int uint_nat of_nat_power of_nat_numeral)
  also have "\<dots> = signed_take_bit m (sint v)"
    using m(2) by (simp add: sint_uint signed_take_bit_take_bit)
  also have "\<dots> = sint v"
    using assms(3,4) m(1) by (simp add: signed_take_bit_int_eq_self)
  finally show ?thesis by (simp only: pow)
qed

lemma val_low_bytes:
  fixes v :: u64
  assumes "n \<le> 8"
  shows "be_val (drop (8 - n) (to_be_bytes v)) = unat v mod 256 ^ n"
    and "le_val (take n (to_le_bytes v)) = unat v mod 256 ^ n"
proof -
  show le: "le_val (take n (to_le_bytes v)) = unat v mod 256 ^ n"
    using assms by (simp add: to_le_bytes_def le_digits_take le_val_digits)
  then show "be_val (drop (8 - n) (to_be_bytes v)) = unat v mod 256 ^ n"
    using assms by (simp add: be_val_def to_be_bytes_def drop_rev)
qed

text \<open>
  C19. Integers of variable width read back: a signed number in the range of \<open>nbytes\<close>
  bytes written with \<open>put_int\<close> (or \<open>put_int_le\<close>) is what \<open>get_int\<close> (or
  \<open>get_int_le\<close>) returns on the bytes appended, sign included.
\<close>

theorem put_int_get_int:
  assumes "buf_mut_contract M ok out room" "ok b" "n \<le> room b" "0 < n" "n \<le> 8"
    and "- (2 ^ (8 * n - 1)) \<le> sint v" "sint v < 2 ^ (8 * n - 1)"
  shows "round_trip M ok out b (\<lambda>b. put_int M b v n) (\<lambda>s. get_int slice_buf s n) v \<and>
    round_trip M ok out b (\<lambda>b. put_int_le M b v n) (\<lambda>s. get_int_le slice_buf s n) v"
proof -
  let ?be = "drop (8 - n) (to_be_bytes v)" and ?le = "take n (to_le_bytes v)"
  have len: "length ?be = n" "length ?le = n" using assms by auto
  note w = buf_mut_contract.put_uint_writes(3,4) [OF assms(1,5), of v]
  from writesD [OF w(1) assms(2)] writesD [OF w(2) assms(2)] len assms(3) obtain b1 b2 where
    b: "put_int M b v n = Inr b1" "written M ok out room ?be b b1"
      "put_int_le M b v n = Inr b2" "written M ok out room ?le b b2" by auto
  note low = val_low_bytes [OF assms(5), of v] signed_value_low_bytes [OF assms(4-7)]
  from slice.get_int_signed(1) [OF _ assms(4,5), of ?be] low len obtain r1 where
    r1: "get_int slice_buf ?be n = Inr (r1, [])" "sint r1 = sint v" by auto
  from slice.get_int_signed(2) [OF _ assms(4,5), of ?le] low len assms(5) obtain r2 where
    r2: "get_int_le slice_buf ?le n = Inr (r2, [])" "sint r2 = sint v" by auto
  from r1 r2 have "r1 = v" "r2 = v" by (simp_all add: signed_word_eqI)
  with b r1 r2 show ?thesis unfolding round_trip_def written_def by blast
qed

theorem put_int_get_int_witness:
  "round_trip slice_buf_mut (\<lambda>s. True) behind \<lparr>behind = [], rest = [0, 0, 0]\<rparr>
     (\<lambda>b. put_int slice_buf_mut b (- 2) 3) (\<lambda>s. get_int slice_buf s 3) (- 2)"
proof -
  have "buf_mut_contract slice_buf_mut (\<lambda>s. True) behind slice_mut_room" by unfold_locales
  from put_int_get_int [OF this, where b = "\<lparr>behind = [], rest = [0, 0, 0]\<rparr>" and n = 3 and v = "- 2"]
  show ?thesis by simp
qed

text \<open>
  C20. More than 8 bytes panic in the four variable-width writes, before anything is written. The
  message has its two numbers swapped: for 9 bytes it says that an integer type of 9 bytes cannot
  take 8, where the reads say that one of 8 bytes cannot take 9.
\<close>

theorem put_uint_panic_swapped:
  assumes "8 < n"
  shows "put_uint M b u n = Inl (Panic (Panic_does_not_fit n 8)) \<and>
    put_uint_le M b u n = Inl (Panic (Panic_does_not_fit n 8)) \<and>
    put_int M b v n = Inl (Panic (Panic_does_not_fit n 8)) \<and>
    put_int_le M b v n = Inl (Panic (Panic_does_not_fit n 8)) \<and>
    get_uint B c n = Inl (Panic (Panic_does_not_fit 8 n))"
  using assms get_uint_too_wide(1) [OF assms]
  by (simp add: put_uint_def put_uint_le_def put_int_def put_int_le_def checked_sub_def
      slice_get_to_def panic_does_not_fit_def)

theorem put_uint_panic_swapped_witness:
  "put_uint slice_buf_mut \<lparr>behind = [], rest = [0]\<rparr> 1 9 = Inl (Panic (Panic_does_not_fit 9 8)) \<and>
   get_uint slice_buf [1] 9 = Inl (Panic (Panic_does_not_fit 8 9))"
  using put_uint_panic_swapped [of 9 slice_buf_mut "\<lparr>behind = [], rest = [0]\<rparr>" 1 0 slice_buf "[1]"] by simp

section \<open>Implementations and adapters\<close>

text \<open>
  C21. A \<open>Limit\<close> and a \<open>Chain\<close> of lawful writers are lawful writers: a \<open>Limit\<close>
  writes to its inner writer and never more than the limit, a \<open>Chain\<close> fills its first part
  before it writes to the second.
\<close>

theorem mut_adapters_meet_contract:
  assumes "buf_mut_core_contract A oka oa ra" "buf_mut_core_contract B okb ob rb"
  shows "buf_mut_contract (limit_buf_mut A) (limit_ok oka) (limit_out oa) (limit_room ra) \<and>
    buf_mut_contract (chain_buf_mut A B) (chain_mut_ok base A oka B okb ob) (chain_mut_out base oa ob)
      (chain_mut_room A ra rb)"
  using buf_mut_contract_limit [OF assms(1)] buf_mut_contract_chain [OF assms] by blast

theorem mut_adapters_meet_contract_witness:
  "\<exists>c. put_slice (chain_buf_mut (limit_buf_mut slice_buf_mut) slice_buf_mut)
       (pair \<lparr>limit_inner = \<lparr>behind = [], rest = [0, 0, 0]\<rparr>, limit_limit = 2\<rparr> \<lparr>behind = [], rest = [0, 0]\<rparr>)
       [1, 2, 3] = Inr c \<and>
     chain_mut_out 0 (limit_out behind) behind c = [1, 2, 3]"
proof -
  let ?c = "pair \<lparr>limit_inner = \<lparr>behind = [], rest = [0, 0, 0 :: u8]\<rparr>, limit_limit = 2\<rparr>
    \<lparr>behind = [], rest = [0, 0 :: u8]\<rparr>"
  have core: "buf_mut_core_contract slice_buf_mut (\<lambda>s. True) behind slice_mut_room" by unfold_locales
  from mut_adapters_meet_contract [OF core core]
  have lim: "buf_mut_core_contract (limit_buf_mut slice_buf_mut) (limit_ok (\<lambda>s. True)) (limit_out behind)
      (limit_room slice_mut_room)"
    by (simp add: buf_mut_contract_def)
  from mut_adapters_meet_contract [OF lim core, of 0]
  have "buf_mut_contract (chain_buf_mut (limit_buf_mut slice_buf_mut) slice_buf_mut)
      (chain_mut_ok 0 (limit_buf_mut slice_buf_mut) (limit_ok (\<lambda>s. True)) slice_buf_mut (\<lambda>s. True) behind)
      (chain_mut_out 0 (limit_out behind) behind)
      (chain_mut_room (limit_buf_mut slice_buf_mut) (limit_room slice_mut_room) slice_mut_room)"
    by blast
  from writesD [OF buf_mut_contract.put_slice_writes [OF this], of ?c "[1, 2, 3]"] show ?thesis
    by (auto simp: written_def chain_mut_out_def chain_mut_ok_def chain_mut_room_def pair_def limit_buf_mut_def
        limit_core_def limit_remaining_mut_def slice_buf_mut_def slice_mut_core_def usize_max_def)
qed

text \<open>
  C22. A vector is a lawful writer whatever the growth policy of the allocator, as long as it
  satisfies sizes up to \<open>bound\<close> bytes: what it holds is always initialised and it grows on
  demand. Its specialised \<open>put\<close> ends for every lawful reader whose bytes fit below \<open>bound\<close>,
  however they are cut into chunks: it appends all of them and leaves the reader empty.
\<close>

theorem vec_is_lawful_writer:
  fixes S :: "('s, 'y) buf_core_scheme"
  assumes "vec_alloc grow bound" "buf_core_contract S oks view"
  shows "buf_mut_contract (vec_buf_mut grow) vec_ok vec_out (\<lambda>v. bound - (64 + vec_len v)) \<and>
    (\<forall>v s. vec_ok v \<and> oks s \<and> vec_len v + length (view s) \<le> bound \<longrightarrow>
      (\<exists>v' s'. vec_put grow S v s = Inr (v', s') \<and> vec_ok v' \<and> vec_out v' = vec_out v @ view s \<and>
        oks s' \<and> view s' = []))"
  using vec_alloc.vec_contract [OF assms(1)] vec_alloc.vec_put_writes [OF assms] by blast

text \<open>Three chunks: a cursor behind its first byte and a ring buffer that wraps around.\<close>

theorem vec_is_lawful_writer_witness:
  "\<exists>v' s'. vec_put amortized (chain_buf cursor_buf vec_deque_buf) \<lparr>cells = [Some 7, None], vec_len = 1\<rparr>
       (pair \<lparr>get_ref = [0, 8, 9], position = 1\<rparr> (wrapped 10 11)) = Inr (v', s') \<and>
     vec_out v' = [7, 8, 9, 10, 11] \<and> chain_view cursor_view vec_deque_view s' = []"
proof -
  have alloc: "vec_alloc amortized (2 ^ 62 - 1)" by unfold_locales
  have "buf_core_contract cursor_buf cursor_ok cursor_view" "buf_core_contract vec_deque_buf vec_deque_ok vec_deque_view"
    by unfold_locales
  note source = buf_contract.axioms(1) [OF buf_contract_chain [OF this]]
  let ?v = "\<lparr>cells = [Some 7, None], vec_len = 1\<rparr>" and ?s = "pair \<lparr>get_ref = [0, 8, 9], position = 1\<rparr> (wrapped 10 11)"
  have "vec_ok ?v" "chain_ok cursor_ok cursor_view vec_deque_ok vec_deque_view ?s" "vec_out ?v = [7]"
    "chain_view cursor_view vec_deque_view ?s = [8, 9, 10, 11]"
    by (simp_all add: vec_ok_def vec_out_def chain_ok_def chain_view_def example_defs cursor_ok_def cursor_view_def
        vec_deque_ok_def vec_deque_view_def as_slices_def isize_max_def usize_max_def)
  with vec_is_lawful_writer [OF alloc source] show ?thesis by fastforce
qed

text \<open>
  \<open>Writer::write\<close> on a lawful writer appends as many bytes as remain and as the source
  has, returns that number and never reports an error.
\<close>

theorem writer_write_appends:
  assumes "buf_mut_contract M ok out room" "ok b" "min (remaining_mut M b) (length src) \<le> room b"
  shows "\<exists>b'. (writer_write M b src :: ((usize, 'e) result \<times> 'b) res) =
      Inr (Ok (min (remaining_mut M b) (length src)), b') \<and>
    ok b' \<and> out b' = out b @ take (remaining_mut M b) src"
proof -
  let ?n = "min (remaining_mut M b) (length src)"
  from writesD [OF buf_mut_contract.put_slice_writes [OF assms(1)] assms(2), of "take ?n src"] assms(3)
  obtain b' where "put_slice M b (take ?n src) = Inr b'" "written M ok out room (take ?n src) b b'" by auto
  moreover have "take ?n src = take (remaining_mut M b) src" by (simp add: min_def)
  ultimately show ?thesis by (auto simp: writer_write_def Let_def slice_to_def written_def)
qed

theorem writer_write_appends_witness:
  "\<exists>s'. (writer_write slice_buf_mut \<lparr>behind = [], rest = [0, 0]\<rparr> [1, 2, 3] ::
       ((usize, unit) result \<times> u8 slice_mut) res) = Inr (Ok 2, s') \<and> behind s' = [1, 2]"
proof -
  have "buf_mut_contract slice_buf_mut (\<lambda>s. True) behind slice_mut_room" by unfold_locales
  from writer_write_appends [OF this, where b = "\<lparr>behind = [], rest = [0, 0]\<rparr>" and src = "[1, 2, 3]" and 'e = unit]
  show ?thesis by (simp add: slice_buf_mut_def slice_mut_core_def numeral_2_eq_2)
qed

end
