(* ===== verification/Atomics.thy ===== *)
theory Atomics
  imports Prelude
begin

text \<open>
  The patch of the crate, \<^verbatim>\<open>patches/bytes/src/loom.rs\<close>: on \<open>riscv64\<close> the atomic types are
  plain cells, since CKB-VM runs one thread. The memory orderings are ignored. An operation
  returns its result and the new contents of the cell.
\<close>

type_synonym atomic_usize = u64

definition atomic_load :: "'a \<Rightarrow> 'a" where
  "atomic_load cell = cell"

definition atomic_store :: "'a \<Rightarrow> 'a \<Rightarrow> 'a" where
  "atomic_store cell v = v"

definition fetch_add :: "atomic_usize \<Rightarrow> u64 \<Rightarrow> u64 \<times> atomic_usize" where
  "fetch_add cell v = (let old = cell in (old, old + v))"

definition fetch_sub :: "atomic_usize \<Rightarrow> u64 \<Rightarrow> u64 \<times> atomic_usize" where
  "fetch_sub cell v = (let old = cell in (old, old - v))"

definition compare_exchange :: "'a \<Rightarrow> 'a \<Rightarrow> 'a \<Rightarrow> ('a, 'a) result \<times> 'a" where
  "compare_exchange cell current new =
     (let old = cell in if old = current then (Ok old, new) else (Err old, cell))"

text \<open>\<open>AtomicMut::with_mut\<close> hands out a mutable reference to the contents.\<close>

definition with_mut :: "'a \<Rightarrow> ('a \<Rightarrow> 'r) \<Rightarrow> 'r" where
  "with_mut cell f = f cell"

lemmas atomic_defs = atomic_load_def atomic_store_def fetch_add_def fetch_sub_def
  compare_exchange_def with_mut_def

lemma fetch_sub_add: "snd (fetch_sub (snd (fetch_add cell v)) v) = cell"
  by (simp add: atomic_defs)

end
