(* ===== verification/Heap.thy ===== *)
theory Heap
  imports Atomics
begin

text \<open>
  The memory that \<open>Bytes\<close> and \<open>BytesMut\<close> manage by hand: allocated blocks by base address,
  pointers as a block and an offset, so that arithmetic and the tag in the lowest bit of an
  address are those of the code. An access outside a live block, to uninitialised bytes, or
  a deallocation with the wrong layout is \<^const>\<open>UB\<close>. The allocator is a parameter.
\<close>

section \<open>Pointers\<close>

type_synonym addr = nat

datatype ptr = Ptr (blk: addr) (off: nat)

definition addr_of :: "ptr \<Rightarrow> usize" where
  "addr_of p = blk p + off p"

text \<open>Block 0 is never allocated: its pointers have no provenance.\<close>

definition null_ptr :: ptr where
  "null_ptr = Ptr 0 0"

definition dangling :: ptr where
  "dangling = Ptr 0 1"

definition wrapping_add :: "ptr \<Rightarrow> nat \<Rightarrow> ptr" where
  "wrapping_add p n = Ptr (blk p) (off p + n)"

section \<open>Blocks\<close>

text \<open>
  \<open>Shared\<close> and \<open>Owned<T>\<close> of \<^verbatim>\<open>bytes.rs\<close>. The owner in an \<open>Owned<T>\<close> is
  known by the block of memory that its \<open>Drop\<close> frees, if it has one.
\<close>

record shared =
  sh_buf :: ptr
  sh_cap :: usize
  sh_ref_cnt :: atomic_usize

record owned =
  ow_ref_cnt :: atomic_usize
  ow_owner :: "addr option"

text \<open>A \<open>Vec<u8>\<close> by its raw parts, and \<open>Shared\<close> of \<^verbatim>\<open>bytes_mut.rs\<close>, which holds one\<close>

record hvec =
  hv_ptr :: ptr
  hv_len :: usize
  hv_cap :: usize

record shared_v =
  sv_vec :: hvec
  sv_original_capacity_repr :: usize
  sv_ref_count :: atomic_usize

datatype block =
    Static "u8 list"
  | Buffer "u8 option list"
  | Shared shared
  | Owned owned
  | Shared_V shared_v

type_synonym heap = "addr \<rightharpoonup> block"

text \<open>
  The allocator: size and alignment to a free address, or \<^const>\<open>None\<close> when out of memory; and
  the growth policy of \<open>Vec\<close>: the capacity for a vector of capacity \<open>cap\<close> that needs \<open>n\<close>.
\<close>

record allocator =
  alloc_block :: "heap \<Rightarrow> usize \<Rightarrow> usize \<Rightarrow> addr option"
  vec_growth :: "usize \<Rightarrow> usize \<Rightarrow> usize"

definition new_block :: "allocator \<Rightarrow> heap \<Rightarrow> usize \<Rightarrow> usize \<Rightarrow> block \<Rightarrow> (addr \<times> heap) res" where
  "new_block alloc h sz align b =
     (case alloc_block alloc h sz align of None \<Rightarrow> Inl Abort | Some a \<Rightarrow> Inr (a, h(a \<mapsto> b)))"

definition cells_of :: "heap \<Rightarrow> addr \<Rightarrow> u8 option list option" where
  "cells_of h a =
     (case h a of Some (Static bs) \<Rightarrow> Some (map Some bs) | Some (Buffer cs) \<Rightarrow> Some cs | _ \<Rightarrow> None)"

text \<open>\<open>slice::from_raw_parts(p, n)\<close>, and reading all of it\<close>

definition heap_read :: "heap \<Rightarrow> ptr \<Rightarrow> usize \<Rightarrow> u8 list res" where
  "heap_read h p n =
     (if n = 0 then (if addr_of p = 0 then Inl (UB ''null slice'') else Inr [])
      else case cells_of h (blk p) of
        None \<Rightarrow> Inl (UB ''dangling pointer'')
      | Some cs \<Rightarrow>
          if off p + n \<le> length cs then
            (let part = take n (drop (off p) cs) in
             if None \<in> set part then Inl (UB ''uninitialised read'') else Inr (map the part))
          else Inl (UB ''out of bounds''))"

text \<open>Writing initialised bytes into a buffer\<close>

definition heap_write :: "heap \<Rightarrow> ptr \<Rightarrow> u8 list \<Rightarrow> heap res" where
  "heap_write h p bs =
     (if bs = [] then Inr h
      else case h (blk p) of
        Some (Buffer cs) \<Rightarrow>
          if off p + length bs \<le> length cs
          then Inr (h(blk p \<mapsto> Buffer (take (off p) cs @ map Some bs @ drop (off p + length bs) cs)))
          else Inl (UB ''out of bounds'')
      | _ \<Rightarrow> Inl (UB ''write to a block that is no buffer''))"

text \<open>\<open>ptr::copy(src, dst, n)\<close>, which allows the two to overlap\<close>

definition ptr_copy :: "heap \<Rightarrow> ptr \<Rightarrow> ptr \<Rightarrow> usize \<Rightarrow> heap res" where
  "ptr_copy h src dst n = res_bind (heap_read h src n) (\<lambda>bs. heap_write h dst bs)"

definition copy_nonoverlapping :: "heap \<Rightarrow> ptr \<Rightarrow> ptr \<Rightarrow> usize \<Rightarrow> heap res" where
  "copy_nonoverlapping h src dst n =
     (if blk src = blk dst \<and> off src < off dst + n \<and> off dst < off src + n then Inl (UB ''overlapping copy'')
      else ptr_copy h src dst n)"

text \<open>\<open>p.add(n)\<close>, \<open>p.sub(n)\<close> and \<open>p.offset_from(q)\<close> stay inside one block.\<close>

definition ptr_add :: "heap \<Rightarrow> ptr \<Rightarrow> nat \<Rightarrow> ptr res" where
  "ptr_add h p n =
     (if n = 0 then Inr p
      else case cells_of h (blk p) of
        Some cs \<Rightarrow> if off p + n \<le> length cs then Inr (Ptr (blk p) (off p + n)) else Inl (UB ''out of bounds'')
      | None \<Rightarrow> Inl (UB ''dangling pointer''))"

definition ptr_sub :: "heap \<Rightarrow> ptr \<Rightarrow> nat \<Rightarrow> ptr res" where
  "ptr_sub h p n =
     (if n = 0 then Inr p
      else case cells_of h (blk p) of
        Some cs \<Rightarrow> if n \<le> off p \<and> off p \<le> length cs then Inr (Ptr (blk p) (off p - n)) else Inl (UB ''out of bounds'')
      | None \<Rightarrow> Inl (UB ''dangling pointer''))"

definition offset_from :: "ptr \<Rightarrow> ptr \<Rightarrow> nat res" where
  "offset_from p q =
     (if blk p = blk q \<and> off q \<le> off p then Inr (off p - off q) else Inl (UB ''offset_from''))"

text \<open>\<open>dealloc(p, Layout::from_size_align(size, 1))\<close> wants the start and the size of the block.\<close>

definition dealloc :: "heap \<Rightarrow> ptr \<Rightarrow> usize \<Rightarrow> heap res" where
  "dealloc h p sz =
     (case h (blk p) of
        Some (Buffer cs) \<Rightarrow>
          if off p = 0 \<and> length cs = sz then Inr (h(blk p := None)) else Inl (UB ''dealloc layout'')
      | _ \<Rightarrow> Inl (UB ''dealloc of a block that is no buffer''))"

definition get_shared :: "heap \<Rightarrow> ptr \<Rightarrow> shared res" where
  "get_shared h p =
     (case h (blk p) of
        Some (Shared s) \<Rightarrow> if off p = 0 then Inr s else Inl (UB ''misaligned'')
      | _ \<Rightarrow> Inl (UB ''no Shared there''))"

definition get_owned :: "heap \<Rightarrow> ptr \<Rightarrow> owned res" where
  "get_owned h p =
     (case h (blk p) of
        Some (Owned s) \<Rightarrow> if off p = 0 then Inr s else Inl (UB ''misaligned'')
      | _ \<Rightarrow> Inl (UB ''no Owned there''))"

text \<open>The destructor of an owner frees its memory, as \<open>from_owner\<close> asks of it.\<close>

definition owner_drop :: "heap \<Rightarrow> addr option \<Rightarrow> heap res" where
  "owner_drop h owner =
     (case owner of
        None \<Rightarrow> Inr h
      | Some a \<Rightarrow>
          (case h a of
             Some (Buffer _) \<Rightarrow> Inr (h(a := None))
           | _ \<Rightarrow> Inl (UB ''owner without its memory'')))"

definition get_shared_v :: "heap \<Rightarrow> ptr \<Rightarrow> shared_v res" where
  "get_shared_v h p =
     (case h (blk p) of
        Some (Shared_V s) \<Rightarrow> if off p = 0 then Inr s else Inl (UB ''misaligned'')
      | _ \<Rightarrow> Inl (UB ''no Shared there''))"

section \<open>Vectors\<close>

definition capacity_overflow :: "'a res" where
  "capacity_overflow = Inl (Panic (Expect_failed ''capacity overflow''))"

text \<open>
  \<open>Vec::from_raw_parts\<close> wants the start and the capacity of an allocation and an initialised
  prefix. A vector without capacity has no allocation.
\<close>

definition from_raw_parts :: "heap \<Rightarrow> ptr \<Rightarrow> usize \<Rightarrow> usize \<Rightarrow> hvec res" where
  "from_raw_parts h p len cap =
     (let v = \<lparr>hv_ptr = p, hv_len = len, hv_cap = cap\<rparr> in
      if cap = 0 then (if len = 0 then Inr v else Inl (UB ''length over capacity''))
      else case h (blk p) of
        Some (Buffer cs) \<Rightarrow>
          if off p = 0 \<and> length cs = cap \<and> len \<le> cap \<and> None \<notin> set (take len cs) then Inr v
          else Inl (UB ''from_raw_parts'')
      | _ \<Rightarrow> Inl (UB ''from_raw_parts of a block that is no buffer''))"

text \<open>\<open>Vec::new\<close>, \<open>Vec::with_capacity(n)\<close> and \<open>slice.to_vec()\<close>\<close>

definition vec_new :: hvec where
  "vec_new = \<lparr>hv_ptr = dangling, hv_len = 0, hv_cap = 0\<rparr>"

definition vec_with_capacity :: "allocator \<Rightarrow> heap \<Rightarrow> usize \<Rightarrow> (hvec \<times> heap) res" where
  "vec_with_capacity alloc h n =
     (if n = 0 then Inr (vec_new, h)
      else if n > isize_max then capacity_overflow
      else
        res_bind (new_block alloc h n 1 (Buffer (replicate n None))) (\<lambda>(a, h).
        Inr (\<lparr>hv_ptr = Ptr a 0, hv_len = 0, hv_cap = n\<rparr>, h)))"

definition to_vec :: "allocator \<Rightarrow> heap \<Rightarrow> u8 list \<Rightarrow> (hvec \<times> heap) res" where
  "to_vec alloc h bs =
     (if bs = [] then Inr (vec_new, h)
      else
        res_bind (new_block alloc h (length bs) 1 (Buffer (map Some bs))) (\<lambda>(a, h).
        Inr (\<lparr>hv_ptr = Ptr a 0, hv_len = length bs, hv_cap = length bs\<rparr>, h)))"

definition vec_drop :: "heap \<Rightarrow> hvec \<Rightarrow> heap res" where
  "vec_drop h v = (if hv_cap v = 0 then Inr h else dealloc h (hv_ptr v) (hv_cap v))"

text \<open>
  \<open>Vec::reserve\<close>: the elements up to the length move to a new allocation, the old one is freed.
\<close>

definition vec_reserve :: "allocator \<Rightarrow> heap \<Rightarrow> hvec \<Rightarrow> usize \<Rightarrow> (hvec \<times> heap) res" where
  "vec_reserve alloc h v additional =
     (if additional \<le> hv_cap v - hv_len v then Inr (v, h)
      else
        let cap = vec_growth alloc (hv_cap v) (hv_len v + additional) in
        if cap > isize_max then capacity_overflow
        else
          let old = (if hv_cap v = 0 then [] else case cells_of h (blk (hv_ptr v)) of Some cs \<Rightarrow> cs | None \<Rightarrow> []);
              cs = take (hv_len v) old @ replicate (cap - hv_len v) None in
          res_bind (new_block alloc h cap 1 (Buffer cs)) (\<lambda>(a, h).
          res_bind (vec_drop h v) (\<lambda>h.
          Inr (\<lparr>hv_ptr = Ptr a 0, hv_len = hv_len v, hv_cap = cap\<rparr>, h))))"

definition vec_extend_from_slice :: "allocator \<Rightarrow> heap \<Rightarrow> hvec \<Rightarrow> u8 list \<Rightarrow> (hvec \<times> heap) res" where
  "vec_extend_from_slice alloc h v bs =
     res_bind (vec_reserve alloc h v (length bs)) (\<lambda>(v, h).
     res_bind (heap_write h (Ptr (blk (hv_ptr v)) (off (hv_ptr v) + hv_len v)) bs) (\<lambda>h.
     Inr (v\<lparr>hv_len := hv_len v + length bs\<rparr>, h)))"

section \<open>Lemmas\<close>

lemma heap_read_cong: "n = 0 \<or> h' (blk p) = h (blk p) \<Longrightarrow> heap_read h' p n = heap_read h p n"
  by (auto simp: heap_read_def cells_of_def)

lemma heap_read_upd [simp]: "blk p \<noteq> a \<Longrightarrow> heap_read (h(a := x)) p n = heap_read h p n"
  by (rule heap_read_cong) simp

lemma heap_read_length: "heap_read h p n = Inr bs \<Longrightarrow> length bs = n"
  by (auto simp: heap_read_def Let_def split: if_splits option.splits)

lemma heap_read_slice:
  assumes "heap_read h p n = Inr bs" "a + m \<le> n" "0 < addr_of p"
  shows "heap_read h (Ptr (blk p) (off p + a)) m = Inr (take m (drop a bs))"
proof (cases "m = 0")
  case True
  with assms(3) show ?thesis by (auto simp: heap_read_def addr_of_def)
next
  case False
  with assms obtain cs where cs: "cells_of h (blk p) = Some cs" "off p + n \<le> length cs"
    "None \<notin> set (take n (drop (off p) cs))" "bs = map the (take n (drop (off p) cs))"
    by (auto simp: heap_read_def Let_def split: if_splits option.splits)
  have part: "take m (drop (off p + a) cs) = take m (drop a (take n (drop (off p) cs)))"
    using assms(2) by (simp add: drop_take min_def add.commute)
  have "set (take m (drop a (take n (drop (off p) cs)))) \<subseteq> set (take n (drop (off p) cs))"
    by (meson set_drop_subset set_take_subset subset_trans)
  with cs part False assms(2) show ?thesis
    by (auto simp: heap_read_def Let_def take_map drop_map)
qed

text \<open>What an allocator promises: free, aligned, non-null addresses, as long as there is memory.\<close>

locale allocator_laws =
  fixes alloc :: allocator
  assumes alloc_succeeds: "finite (dom h) \<Longrightarrow> \<exists>a. alloc_block alloc h sz align = Some a"
    and alloc_fresh: "finite (dom h) \<Longrightarrow> alloc_block alloc h sz align = Some a \<Longrightarrow> h a = None"
    and alloc_nonzero: "alloc_block alloc h sz align = Some a \<Longrightarrow> 0 < a"
    and alloc_aligned: "alloc_block alloc h sz align = Some a \<Longrightarrow> 0 < align \<Longrightarrow> a mod align = 0"
    and growth_enough: "needed \<le> vec_growth alloc cap needed"
    and growth_moderate: "cap \<le> 2 ^ 61 \<Longrightarrow> needed \<le> 2 ^ 61 \<Longrightarrow> vec_growth alloc cap needed \<le> isize_max"
begin

lemma new_block_ok:
  assumes "finite (dom h)"
  shows "\<exists>a. new_block alloc h sz align b = Inr (a, h(a \<mapsto> b)) \<and> h a = None \<and> 0 < a \<and>
    (0 < align \<longrightarrow> a mod align = 0)"
proof -
  from alloc_succeeds [OF assms] obtain a where a: "alloc_block alloc h sz align = Some a" by blast
  with alloc_fresh [OF assms a] alloc_nonzero [OF a] alloc_aligned [OF a] show ?thesis
    by (simp add: new_block_def)
qed

end

text \<open>
  An allocator that meets the laws: above everything allocated so far, rounded up to the
  alignment. (An address for heaps with infinitely many blocks is not needed.) Vectors grow as
  in the standard library: double, at least 8 bytes and at least what is needed.
\<close>

definition bump_alloc :: "heap \<Rightarrow> usize \<Rightarrow> usize \<Rightarrow> addr option" where
  "bump_alloc h sz align = Some (Suc (if finite (dom h) then Max (insert 0 (dom h)) else 0) * max 1 align)"

definition bump :: allocator where
  "bump = \<lparr>alloc_block = bump_alloc, vec_growth = (\<lambda>cap needed. max 8 (max (2 * cap) needed))\<rparr>"

lemma bump_above: "finite (dom h) \<Longrightarrow> bump_alloc h sz align = Some a \<Longrightarrow> x \<in> dom h \<Longrightarrow> x < a"
proof -
  assume h: "finite (dom h)" and a: "bump_alloc h sz align = Some a" and x: "x \<in> dom h"
  have "x < Suc (Max (insert 0 (dom h)))" using h x by (simp add: le_imp_less_Suc)
  also have "\<dots> \<le> Suc (Max (insert 0 (dom h))) * max 1 align"
    by (metis max.cobounded1 mult.right_neutral mult_le_mono2)
  also have "\<dots> = a" using a h by (simp add: bump_alloc_def)
  finally show "x < a" .
qed

interpretation bump: allocator_laws bump
proof unfold_locales
  fix h sz align a
  show "\<exists>a. alloc_block bump h sz align = Some a" by (simp add: bump_def bump_alloc_def)
  assume "alloc_block bump h sz align = Some a"
  then have a: "bump_alloc h sz align = Some a" by (simp add: bump_def)
  then show "0 < a" by (auto simp: bump_alloc_def)
  show "h a = None" if "finite (dom h)" using bump_above [OF that a] by blast
  show "a mod align = 0" if "0 < align"
    using a that by (auto simp: bump_alloc_def max_def)
qed (auto simp: bump_def isize_max_def)

end
