(* ===== verification/Bytes.thy ===== *)
theory Bytes
  imports Heap Buf_Impls "HOL-Library.Multiset"
begin

unbundle bit_operations_syntax

text \<open>
  \<open>Bytes\<close> (\<^verbatim>\<open>patches/bytes/src/bytes.rs\<close>): a cheaply cloneable handle to a slice of bytes.
  A handle is a pointer, a length, a data pointer and a vtable, which says how the memory is
  owned: not at all (static data), by a boxed owner, by this handle alone (promotable, the data
  pointer is the tagged buffer address), or by a reference-counted \<open>Shared\<close>. The functions of
  each vtable are definitions under the names of the source, on an explicit heap. A method
  that changes \<open>self\<close>, if only its atomic \<open>data\<close> field, returns it.

  The invariant \<open>bytes_inv\<close> speaks of all live handles at once: the reference counts are the
  numbers of handles, no two owners share a buffer, and nothing is leaked.
\<close>

section \<open>Handles\<close>

datatype vtable = STATIC_VTABLE | OWNED_VTABLE | PROMOTABLE_EVEN_VTABLE | PROMOTABLE_ODD_VTABLE | SHARED_VTABLE
  | SHARED_V_VTABLE

record bytes =
  b_ptr :: ptr
  b_len :: usize
  b_data :: ptr
  b_vtable :: vtable

definition with_vtable :: "ptr \<Rightarrow> usize \<Rightarrow> ptr \<Rightarrow> vtable \<Rightarrow> bytes" where
  "with_vtable p len data vt = \<lparr>b_ptr = p, b_len = len, b_data = data, b_vtable = vt\<rparr>"

definition KIND_ARC :: usize where "KIND_ARC = 0"
definition KIND_VEC :: usize where "KIND_VEC = 1"
definition KIND_MASK :: usize where "KIND_MASK = 1"

definition ref_limit :: u64 where
  "ref_limit = drop_bit 1 (- 1)"

definition ptr_map :: "ptr \<Rightarrow> (usize \<Rightarrow> usize) \<Rightarrow> ptr" where
  "ptr_map p f = (let new_addr = f (addr_of p) in Ptr (blk p) (new_addr - blk p))"

definition without_provenance :: "usize \<Rightarrow> ptr" where
  "without_provenance a = wrapping_add null_ptr a"

text \<open>\<open>addr & !KIND_MASK\<close>\<close>

definition clear_kind :: "usize \<Rightarrow> usize" where
  "clear_kind a = a - (a AND KIND_MASK)"

section \<open>Constructors\<close>

definition from_static :: "ptr \<Rightarrow> usize \<Rightarrow> bytes" where
  "from_static p len = \<lparr>b_ptr = p, b_len = len, b_data = null_ptr, b_vtable = STATIC_VTABLE\<rparr>"

text \<open>\<open>Bytes::new\<close>: the empty static slice\<close>

definition bytes_new :: bytes where
  "bytes_new = from_static dangling 0"

definition new_empty_with_ptr :: "ptr \<Rightarrow> bytes res" where
  "new_empty_with_ptr p =
     res_bind (rust_assert (addr_of p \<noteq> 0) ''!ptr.is_null()'') (\<lambda>_.
     Inr \<lparr>b_ptr = without_provenance (addr_of p), b_len = 0, b_data = null_ptr, b_vtable = STATIC_VTABLE\<rparr>)"

definition from_boxed_slice :: "ptr \<Rightarrow> usize \<Rightarrow> bytes" where
  "from_boxed_slice p len =
     (if len = 0 then bytes_new
      else if addr_of p AND 1 = 0 then
        let data = ptr_map p (\<lambda>addr. addr OR KIND_VEC) in
        \<lparr>b_ptr = p, b_len = len, b_data = data, b_vtable = PROMOTABLE_EVEN_VTABLE\<rparr>
      else \<lparr>b_ptr = p, b_len = len, b_data = p, b_vtable = PROMOTABLE_ODD_VTABLE\<rparr>)"

definition from_vec :: "allocator \<Rightarrow> heap \<Rightarrow> hvec \<Rightarrow> (bytes \<times> heap) res" where
  "from_vec alloc h v =
     (if hv_len v = hv_cap v then Inr (from_boxed_slice (hv_ptr v) (hv_len v), h)
      else
        res_bind (new_block alloc h 24 8 (Shared \<lparr>sh_buf = hv_ptr v, sh_cap = hv_cap v, sh_ref_cnt = 1\<rparr>)) (\<lambda>(a, h).
        res_bind (rust_assert (a AND KIND_MASK = 0) ''aligned Shared'') (\<lambda>_.
        Inr (\<lparr>b_ptr = hv_ptr v, b_len = hv_len v, b_data = Ptr a 0, b_vtable = SHARED_VTABLE\<rparr>, h))))"

definition bytes_copy_from_slice :: "allocator \<Rightarrow> heap \<Rightarrow> u8 list \<Rightarrow> (bytes \<times> heap) res" where
  "bytes_copy_from_slice alloc h data = res_bind (to_vec alloc h data) (\<lambda>(v, h). from_vec alloc h v)"

section \<open>Reference counts\<close>

definition shallow_clone_arc :: "heap \<Rightarrow> ptr \<Rightarrow> ptr \<Rightarrow> usize \<Rightarrow> (bytes \<times> heap) res" where
  "shallow_clone_arc h sh p len =
     res_bind (get_shared h sh) (\<lambda>s.
     let (old_size, cnt) = fetch_add (sh_ref_cnt s) 1;
         h = h(blk sh \<mapsto> Shared (s\<lparr>sh_ref_cnt := cnt\<rparr>)) in
     if old_size > ref_limit then Inl Abort
     else Inr (\<lparr>b_ptr = p, b_len = len, b_data = sh, b_vtable = SHARED_VTABLE\<rparr>, h))"

text \<open>
  Promotion: the new \<open>Shared\<close> goes into \<open>atom\<close>, the \<open>data\<close> field of the handle, unless
  it no longer holds the value that was read.
\<close>

definition shallow_clone_vec ::
  "allocator \<Rightarrow> heap \<Rightarrow> ptr \<Rightarrow> ptr \<Rightarrow> ptr \<Rightarrow> ptr \<Rightarrow> usize \<Rightarrow> (bytes \<times> ptr \<times> heap) res" where
  "shallow_clone_vec alloc h atom p buf offset len =
     res_bind (offset_from offset buf) (\<lambda>d.
     res_bind (new_block alloc h 24 8 (Shared \<lparr>sh_buf = buf, sh_cap = d + len, sh_ref_cnt = 2\<rparr>)) (\<lambda>(a, h).
     res_bind (rust_assert (a AND KIND_MASK = 0) ''aligned Shared'') (\<lambda>_.
     let (r, atom) = compare_exchange atom p (Ptr a 0) in
     case r of
       Ok actual \<Rightarrow>
         res_bind (rust_assert (actual = p) ''actual == ptr'') (\<lambda>_.
         Inr (\<lparr>b_ptr = offset, b_len = len, b_data = Ptr a 0, b_vtable = SHARED_VTABLE\<rparr>, atom, h))
     | Err actual \<Rightarrow>
         res_bind (shallow_clone_arc (h(a := None)) actual offset len) (\<lambda>(b, h). Inr (b, atom, h)))))"

text \<open>\<open>release_shared\<close>: the last reference frees the buffer (\<open>Shared::drop\<close>) and the \<open>Shared\<close>.\<close>

definition release_shared :: "heap \<Rightarrow> ptr \<Rightarrow> heap res" where
  "release_shared h p =
     res_bind (get_shared h p) (\<lambda>s.
     let (old, cnt) = fetch_sub (sh_ref_cnt s) 1;
         h = h(blk p \<mapsto> Shared (s\<lparr>sh_ref_cnt := cnt\<rparr>)) in
     if old \<noteq> 1 then Inr h
     else res_bind (dealloc h (sh_buf s) (sh_cap s)) (\<lambda>h. Inr (h(blk p := None))))"

definition free_boxed_slice :: "heap \<Rightarrow> ptr \<Rightarrow> ptr \<Rightarrow> usize \<Rightarrow> heap res" where
  "free_boxed_slice h buf offset len =
     res_bind (offset_from offset buf) (\<lambda>d. dealloc h buf (d + len))"

text \<open>Dropping the box of an owner runs the destructor of the owner, which frees its memory.\<close>

definition owned_drop_impl :: "heap \<Rightarrow> ptr \<Rightarrow> heap res" where
  "owned_drop_impl h p =
     res_bind (get_owned h p) (\<lambda>ow.
     let (old_cnt, cnt) = fetch_sub (ow_ref_cnt ow) 1;
         h = h(blk p \<mapsto> Owned (ow\<lparr>ow_ref_cnt := cnt\<rparr>)) in
     res_bind (rust_assert (old_cnt > 0 \<and> old_cnt \<le> ref_limit) ''non-zero refcount and no underflow'') (\<lambda>_.
     if old_cnt \<noteq> 1 then Inr h
     else res_bind (owner_drop h (ow_owner ow)) (\<lambda>h. Inr (h(blk p := None)))))"

text \<open>The same for the \<open>Shared\<close> of \<^verbatim>\<open>bytes_mut.rs\<close>, whose vector is dropped with it\<close>

definition increment_shared :: "heap \<Rightarrow> ptr \<Rightarrow> heap res" where
  "increment_shared h p =
     res_bind (get_shared_v h p) (\<lambda>s.
     let (old_size, cnt) = fetch_add (sv_ref_count s) 1;
         h = h(blk p \<mapsto> Shared_V (s\<lparr>sv_ref_count := cnt\<rparr>)) in
     if unat old_size > isize_max then Inl Abort else Inr h)"

definition release_shared_v :: "heap \<Rightarrow> ptr \<Rightarrow> heap res" where
  "release_shared_v h p =
     res_bind (get_shared_v h p) (\<lambda>s.
     let (old, cnt) = fetch_sub (sv_ref_count s) 1;
         h = h(blk p \<mapsto> Shared_V (s\<lparr>sv_ref_count := cnt\<rparr>)) in
     if old \<noteq> 1 then Inr h
     else res_bind (vec_drop h (sv_vec s)) (\<lambda>h. Inr (h(blk p := None))))"

definition shared_v_unique :: "shared_v \<Rightarrow> bool" where
  "shared_v_unique s \<longleftrightarrow> atomic_load (sv_ref_count s) = 1"

section \<open>The vtables: clone\<close>

definition static_clone :: "heap \<Rightarrow> ptr \<Rightarrow> usize \<Rightarrow> bytes res" where
  "static_clone h p len = res_bind (heap_read h p len) (\<lambda>_. Inr (from_static p len))"

definition owned_clone :: "heap \<Rightarrow> ptr \<Rightarrow> ptr \<Rightarrow> usize \<Rightarrow> (bytes \<times> heap) res" where
  "owned_clone h data p len =
     (let owned = atomic_load data in
      res_bind (get_owned h owned) (\<lambda>ow.
      let (old_cnt, cnt) = fetch_add (ow_ref_cnt ow) 1;
          h = h(blk owned \<mapsto> Owned (ow\<lparr>ow_ref_cnt := cnt\<rparr>)) in
      if old_cnt > ref_limit then Inl Abort
      else Inr (\<lparr>b_ptr = p, b_len = len, b_data = owned, b_vtable = OWNED_VTABLE\<rparr>, h)))"

definition promotable_even_clone ::
  "allocator \<Rightarrow> heap \<Rightarrow> ptr \<Rightarrow> ptr \<Rightarrow> usize \<Rightarrow> (bytes \<times> ptr \<times> heap) res" where
  "promotable_even_clone alloc h data p len =
     (let sh = atomic_load data; kind = addr_of sh AND KIND_MASK in
      if kind = KIND_ARC then
        res_bind (shallow_clone_arc h sh p len) (\<lambda>(b, h). Inr (b, data, h))
      else
        res_bind (rust_assert (kind = KIND_VEC) ''kind == KIND_VEC'') (\<lambda>_.
        let buf = ptr_map sh clear_kind in shallow_clone_vec alloc h data sh buf p len))"

definition promotable_odd_clone ::
  "allocator \<Rightarrow> heap \<Rightarrow> ptr \<Rightarrow> ptr \<Rightarrow> usize \<Rightarrow> (bytes \<times> ptr \<times> heap) res" where
  "promotable_odd_clone alloc h data p len =
     (let sh = atomic_load data; kind = addr_of sh AND KIND_MASK in
      if kind = KIND_ARC then
        res_bind (shallow_clone_arc h sh p len) (\<lambda>(b, h). Inr (b, data, h))
      else
        res_bind (rust_assert (kind = KIND_VEC) ''kind == KIND_VEC'') (\<lambda>_.
        shallow_clone_vec alloc h data sh sh p len))"

definition shared_clone :: "heap \<Rightarrow> ptr \<Rightarrow> ptr \<Rightarrow> usize \<Rightarrow> (bytes \<times> heap) res" where
  "shared_clone h data p len = shallow_clone_arc h (atomic_load data) p len"

definition shared_v_clone :: "heap \<Rightarrow> ptr \<Rightarrow> ptr \<Rightarrow> usize \<Rightarrow> (bytes \<times> heap) res" where
  "shared_v_clone h data p len =
     (let sh = atomic_load data in
      res_bind (increment_shared h sh) (\<lambda>h. Inr (with_vtable p len sh SHARED_V_VTABLE, h)))"

definition bytes_clone :: "allocator \<Rightarrow> heap \<Rightarrow> bytes \<Rightarrow> (bytes \<times> bytes \<times> heap) res" where
  "bytes_clone alloc h self =
     (let data = b_data self; p = b_ptr self; len = b_len self;
          same_data = (\<lambda>(b, h). Inr (b, data, h)) in
      res_bind
        (case b_vtable self of
           STATIC_VTABLE \<Rightarrow> res_bind (static_clone h p len) (\<lambda>b. Inr (b, data, h))
         | OWNED_VTABLE \<Rightarrow> res_bind (owned_clone h data p len) same_data
         | PROMOTABLE_EVEN_VTABLE \<Rightarrow> promotable_even_clone alloc h data p len
         | PROMOTABLE_ODD_VTABLE \<Rightarrow> promotable_odd_clone alloc h data p len
         | SHARED_VTABLE \<Rightarrow> res_bind (shared_clone h data p len) same_data
         | SHARED_V_VTABLE \<Rightarrow> res_bind (shared_v_clone h data p len) same_data)
        (\<lambda>(ret, data, h). Inr (ret, self\<lparr>b_data := data\<rparr>, h)))"

section \<open>The vtables: drop\<close>

definition static_drop :: "heap \<Rightarrow> ptr \<Rightarrow> ptr \<Rightarrow> usize \<Rightarrow> heap res" where
  "static_drop h data p len = Inr h"

definition owned_drop :: "heap \<Rightarrow> ptr \<Rightarrow> heap res" where
  "owned_drop h data = owned_drop_impl h (atomic_load data)"

definition promotable_even_drop :: "heap \<Rightarrow> ptr \<Rightarrow> ptr \<Rightarrow> usize \<Rightarrow> heap res" where
  "promotable_even_drop h data p len =
     with_mut data (\<lambda>sh.
       let kind = addr_of sh AND KIND_MASK in
       if kind = KIND_ARC then release_shared h sh
       else
         res_bind (rust_assert (kind = KIND_VEC) ''kind == KIND_VEC'') (\<lambda>_.
         let buf = ptr_map sh clear_kind in free_boxed_slice h buf p len))"

definition promotable_odd_drop :: "heap \<Rightarrow> ptr \<Rightarrow> ptr \<Rightarrow> usize \<Rightarrow> heap res" where
  "promotable_odd_drop h data p len =
     with_mut data (\<lambda>sh.
       let kind = addr_of sh AND KIND_MASK in
       if kind = KIND_ARC then release_shared h sh
       else
         res_bind (rust_assert (kind = KIND_VEC) ''kind == KIND_VEC'') (\<lambda>_.
         free_boxed_slice h sh p len))"

definition shared_drop :: "heap \<Rightarrow> ptr \<Rightarrow> heap res" where
  "shared_drop h data = with_mut data (\<lambda>sh. release_shared h sh)"

definition shared_v_drop :: "heap \<Rightarrow> ptr \<Rightarrow> heap res" where
  "shared_v_drop h data = with_mut data (\<lambda>sh. release_shared_v h sh)"

definition bytes_drop :: "heap \<Rightarrow> bytes \<Rightarrow> heap res" where
  "bytes_drop h self =
     (case b_vtable self of
        STATIC_VTABLE \<Rightarrow> static_drop h (b_data self) (b_ptr self) (b_len self)
      | OWNED_VTABLE \<Rightarrow> owned_drop h (b_data self)
      | PROMOTABLE_EVEN_VTABLE \<Rightarrow> promotable_even_drop h (b_data self) (b_ptr self) (b_len self)
      | PROMOTABLE_ODD_VTABLE \<Rightarrow> promotable_odd_drop h (b_data self) (b_ptr self) (b_len self)
      | SHARED_VTABLE \<Rightarrow> shared_drop h (b_data self)
      | SHARED_V_VTABLE \<Rightarrow> shared_v_drop h (b_data self))"

text \<open>
  \<open>from_owner\<close> boxes the owner and then asks it for its bytes: \<open>as_ref\<close> is code of the owner's
  type, called once with the heap and the boxed owner, and returns a pointer and a length or
  panics. A panic unwinds through \<open>ret\<close>, whose \<open>Drop\<close> cleans up; the result is then
  \<^term>\<open>Err p\<close>, the panic that goes on, with the heap it leaves.
\<close>

definition from_owner ::
  "allocator \<Rightarrow> (heap \<Rightarrow> addr option \<Rightarrow> (ptr \<times> usize) res) \<Rightarrow> heap \<Rightarrow> addr option \<Rightarrow>
     ((bytes, panic) result \<times> heap) res" where
  "from_owner alloc as_ref h owner =
     res_bind (new_block alloc h 24 8 (Owned \<lparr>ow_ref_cnt = 1, ow_owner = owner\<rparr>)) (\<lambda>(a, h).
     let owned = Ptr a 0;
         ret = \<lparr>b_ptr = dangling, b_len = 0, b_data = owned, b_vtable = OWNED_VTABLE\<rparr> in
     res_bind (get_owned h owned) (\<lambda>ow.
     case as_ref h (ow_owner ow) of
       Inr (p, len) \<Rightarrow> Inr (Ok (ret\<lparr>b_ptr := p, b_len := len\<rparr>), h)
     | Inl (Panic p) \<Rightarrow> res_bind (bytes_drop h ret) (\<lambda>h. Inr (Err p, h))
     | Inl e \<Rightarrow> Inl e))"

section \<open>The vtables: is_unique\<close>

definition static_is_unique :: "ptr \<Rightarrow> bool" where
  "static_is_unique data = False"

definition owned_is_unique :: "ptr \<Rightarrow> bool" where
  "owned_is_unique data = False"

definition promotable_is_unique :: "heap \<Rightarrow> ptr \<Rightarrow> bool res" where
  "promotable_is_unique h data =
     (let sh = atomic_load data; kind = addr_of sh AND KIND_MASK in
      if kind = KIND_ARC then res_bind (get_shared h sh) (\<lambda>s. Inr (sh_ref_cnt s = 1))
      else Inr True)"

definition shared_is_unique :: "heap \<Rightarrow> ptr \<Rightarrow> bool res" where
  "shared_is_unique h data = res_bind (get_shared h (atomic_load data)) (\<lambda>s. Inr (sh_ref_cnt s = 1))"

definition shared_v_is_unique :: "heap \<Rightarrow> ptr \<Rightarrow> bool res" where
  "shared_v_is_unique h data = res_bind (get_shared_v h (atomic_load data)) (\<lambda>s. Inr (sv_ref_count s = 1))"

definition is_unique :: "heap \<Rightarrow> bytes \<Rightarrow> bool res" where
  "is_unique h self =
     (case b_vtable self of
        STATIC_VTABLE \<Rightarrow> Inr (static_is_unique (b_data self))
      | OWNED_VTABLE \<Rightarrow> Inr (owned_is_unique (b_data self))
      | PROMOTABLE_EVEN_VTABLE \<Rightarrow> promotable_is_unique h (b_data self)
      | PROMOTABLE_ODD_VTABLE \<Rightarrow> promotable_is_unique h (b_data self)
      | SHARED_VTABLE \<Rightarrow> shared_is_unique h (b_data self)
      | SHARED_V_VTABLE \<Rightarrow> shared_v_is_unique h (b_data self))"

section \<open>The vtables: into_vec\<close>

definition static_to_vec :: "allocator \<Rightarrow> heap \<Rightarrow> ptr \<Rightarrow> usize \<Rightarrow> (hvec \<times> heap) res" where
  "static_to_vec alloc h p len = res_bind (heap_read h p len) (\<lambda>bs. to_vec alloc h bs)"

definition owned_to_vec :: "allocator \<Rightarrow> heap \<Rightarrow> ptr \<Rightarrow> ptr \<Rightarrow> usize \<Rightarrow> (hvec \<times> heap) res" where
  "owned_to_vec alloc h data p len =
     res_bind (heap_read h p len) (\<lambda>bs.
     res_bind (to_vec alloc h bs) (\<lambda>(v, h).
     res_bind (owned_drop_impl h (atomic_load data)) (\<lambda>h. Inr (v, h))))"

definition shared_to_vec_impl :: "allocator \<Rightarrow> heap \<Rightarrow> ptr \<Rightarrow> ptr \<Rightarrow> usize \<Rightarrow> (hvec \<times> heap) res" where
  "shared_to_vec_impl alloc h sh p len =
     res_bind (get_shared h sh) (\<lambda>s.
     let (r, cnt) = compare_exchange (sh_ref_cnt s) 1 0 in
     case r of
       Ok _ \<Rightarrow>
         let h = h(blk sh := None); buf = sh_buf s; cap = sh_cap s in
         res_bind (ptr_copy h p buf len) (\<lambda>h.
         res_bind (from_raw_parts h buf len cap) (\<lambda>v. Inr (v, h)))
     | Err _ \<Rightarrow>
         res_bind (heap_read h p len) (\<lambda>bs.
         res_bind (to_vec alloc h bs) (\<lambda>(v, h).
         res_bind (release_shared h sh) (\<lambda>h. Inr (v, h)))))"

definition promotable_to_vec ::
  "allocator \<Rightarrow> heap \<Rightarrow> ptr \<Rightarrow> ptr \<Rightarrow> usize \<Rightarrow> (ptr \<Rightarrow> ptr) \<Rightarrow> (hvec \<times> heap) res" where
  "promotable_to_vec alloc h data p len f =
     (let sh = atomic_load data; kind = addr_of sh AND KIND_MASK in
      if kind = KIND_ARC then shared_to_vec_impl alloc h sh p len
      else
        res_bind (rust_assert (kind = KIND_VEC) ''kind == KIND_VEC'') (\<lambda>_.
        let buf = f sh in
        res_bind (offset_from p buf) (\<lambda>d.
        let cap = d + len in
        res_bind (ptr_copy h p buf len) (\<lambda>h.
        res_bind (from_raw_parts h buf len cap) (\<lambda>v. Inr (v, h))))))"

definition promotable_even_to_vec :: "allocator \<Rightarrow> heap \<Rightarrow> ptr \<Rightarrow> ptr \<Rightarrow> usize \<Rightarrow> (hvec \<times> heap) res" where
  "promotable_even_to_vec alloc h data p len = promotable_to_vec alloc h data p len (\<lambda>sh. ptr_map sh clear_kind)"

definition promotable_odd_to_vec :: "allocator \<Rightarrow> heap \<Rightarrow> ptr \<Rightarrow> ptr \<Rightarrow> usize \<Rightarrow> (hvec \<times> heap) res" where
  "promotable_odd_to_vec alloc h data p len = promotable_to_vec alloc h data p len (\<lambda>sh. sh)"

definition shared_to_vec :: "allocator \<Rightarrow> heap \<Rightarrow> ptr \<Rightarrow> ptr \<Rightarrow> usize \<Rightarrow> (hvec \<times> heap) res" where
  "shared_to_vec alloc h data p len = shared_to_vec_impl alloc h (atomic_load data) p len"

text \<open>\<open>mem::take\<close> leaves an empty vector behind, which is then dropped.\<close>

definition shared_v_to_vec :: "allocator \<Rightarrow> heap \<Rightarrow> ptr \<Rightarrow> ptr \<Rightarrow> usize \<Rightarrow> (hvec \<times> heap) res" where
  "shared_v_to_vec alloc h data p len =
     (let sh = atomic_load data in
      res_bind (get_shared_v h sh) (\<lambda>s.
      if shared_v_unique s then
        let vec = sv_vec s; h = h(blk sh \<mapsto> Shared_V (s\<lparr>sv_vec := vec_new\<rparr>)) in
        res_bind (release_shared_v h sh) (\<lambda>h.
        res_bind (ptr_copy h p (hv_ptr vec) len) (\<lambda>h.
        Inr (vec\<lparr>hv_len := len\<rparr>, h)))
      else
        res_bind (heap_read h p len) (\<lambda>bs.
        res_bind (to_vec alloc h bs) (\<lambda>(v, h).
        res_bind (release_shared_v h sh) (\<lambda>h. Inr (v, h))))))"

definition into_vec :: "allocator \<Rightarrow> heap \<Rightarrow> bytes \<Rightarrow> (hvec \<times> heap) res" where
  "into_vec alloc h self =
     (let data = b_data self; p = b_ptr self; len = b_len self in
      case b_vtable self of
        STATIC_VTABLE \<Rightarrow> static_to_vec alloc h p len
      | OWNED_VTABLE \<Rightarrow> owned_to_vec alloc h data p len
      | PROMOTABLE_EVEN_VTABLE \<Rightarrow> promotable_even_to_vec alloc h data p len
      | PROMOTABLE_ODD_VTABLE \<Rightarrow> promotable_odd_to_vec alloc h data p len
      | SHARED_VTABLE \<Rightarrow> shared_to_vec alloc h data p len
      | SHARED_V_VTABLE \<Rightarrow> shared_v_to_vec alloc h data p len)"

lemmas to_vec_defs = promotable_even_to_vec_def promotable_odd_to_vec_def shared_to_vec_def promotable_to_vec_def

lemmas trivial_vtable_defs [simp] = static_drop_def static_is_unique_def owned_is_unique_def

section \<open>Methods\<close>

definition as_slice :: "heap \<Rightarrow> bytes \<Rightarrow> u8 list res" where
  "as_slice h self = heap_read h (b_ptr self) (b_len self)"

definition inc_start :: "heap \<Rightarrow> bytes \<Rightarrow> usize \<Rightarrow> bytes res" where
  "inc_start h self by =
     res_bind (rust_assert (b_len self \<ge> by) ''internal: inc_start out of bounds'') (\<lambda>_.
     res_bind (usize_sub (b_len self) by) (\<lambda>len.
     res_bind (ptr_add h (b_ptr self) by) (\<lambda>p.
     Inr (self\<lparr>b_len := len, b_ptr := p\<rparr>))))"

definition bytes_advance :: "heap \<Rightarrow> bytes \<Rightarrow> usize \<Rightarrow> bytes res" where
  "bytes_advance h self cnt =
     res_bind (rust_assert (cnt \<le> b_len self) ''cannot advance past `remaining`'') (\<lambda>_.
     inc_start h self cnt)"

text \<open>\<open>Bound<usize>\<close> of the standard library\<close>

datatype bound = Included usize | Excluded usize | Unbounded

definition expect :: "'a option \<Rightarrow> string \<Rightarrow> 'a res" where
  "expect r msg = (case r of Some x \<Rightarrow> Inr x | None \<Rightarrow> Inl (Panic (Expect_failed msg)))"

definition range_begin :: "bound \<Rightarrow> usize res" where
  "range_begin b =
     (case b of
        Included n \<Rightarrow> Inr n
      | Excluded n \<Rightarrow> expect (checked_add n 1) ''out of range''
      | Unbounded \<Rightarrow> Inr 0)"

definition range_end :: "usize \<Rightarrow> bound \<Rightarrow> usize res" where
  "range_end len b =
     (case b of
        Included n \<Rightarrow> expect (checked_add n 1) ''out of range''
      | Excluded n \<Rightarrow> Inr n
      | Unbounded \<Rightarrow> Inr len)"

definition bytes_slice ::
  "allocator \<Rightarrow> heap \<Rightarrow> bytes \<Rightarrow> bound \<Rightarrow> bound \<Rightarrow> (bytes \<times> bytes \<times> heap) res" where
  "bytes_slice alloc h self lo hi =
     res_bind (range_begin lo) (\<lambda>begin.
     res_bind (range_end (b_len self) hi) (\<lambda>end'.
     res_bind (rust_assert (begin \<le> end') ''range start must not be greater than end'') (\<lambda>_.
     res_bind (rust_assert (end' \<le> b_len self) ''range end out of bounds'') (\<lambda>_.
     if end' = begin then
       res_bind (new_empty_with_ptr (wrapping_add (b_ptr self) begin)) (\<lambda>ret. Inr (ret, self, h))
     else
       res_bind (bytes_clone alloc h self) (\<lambda>(ret, self, h).
       res_bind (ptr_add h (b_ptr ret) begin) (\<lambda>p.
       Inr (ret\<lparr>b_len := end' - begin, b_ptr := p\<rparr>, self, h)))))))"

definition slice_ref ::
  "allocator \<Rightarrow> heap \<Rightarrow> bytes \<Rightarrow> ptr \<Rightarrow> usize \<Rightarrow> (bytes \<times> bytes \<times> heap) res" where
  "slice_ref alloc h self sub sub_len =
     (if sub_len = 0 then Inr (bytes_new, self, h)
      else
        let bytes_p = addr_of (b_ptr self); bytes_len = b_len self; sub_p = addr_of sub in
        res_bind (rust_assert (sub_p \<ge> bytes_p) ''subset pointer is smaller than self pointer'') (\<lambda>_.
        res_bind (rust_assert (sub_p + sub_len \<le> bytes_p + bytes_len) ''subset is out of bounds'') (\<lambda>_.
        let sub_offset = sub_p - bytes_p in
        bytes_slice alloc h self (Included sub_offset) (Excluded (sub_offset + sub_len)))))"

definition split_off :: "allocator \<Rightarrow> heap \<Rightarrow> bytes \<Rightarrow> usize \<Rightarrow> (bytes \<times> bytes \<times> heap) res" where
  "split_off alloc h self at =
     (if at = b_len self then
        res_bind (new_empty_with_ptr (wrapping_add (b_ptr self) at)) (\<lambda>ret. Inr (ret, self, h))
      else if at = 0 then
        res_bind (new_empty_with_ptr (b_ptr self)) (\<lambda>empty. Inr (self, empty, h))
      else
        res_bind (rust_assert (at \<le> b_len self) ''split_off out of bounds'') (\<lambda>_.
        res_bind (bytes_clone alloc h self) (\<lambda>(ret, self, h).
        let self = self\<lparr>b_len := at\<rparr> in
        res_bind (inc_start h ret at) (\<lambda>ret. Inr (ret, self, h)))))"

definition split_to :: "allocator \<Rightarrow> heap \<Rightarrow> bytes \<Rightarrow> usize \<Rightarrow> (bytes \<times> bytes \<times> heap) res" where
  "split_to alloc h self at =
     (if at = b_len self then
        let end_ptr = wrapping_add (b_ptr self) at in
        res_bind (new_empty_with_ptr end_ptr) (\<lambda>empty. Inr (self, empty, h))
      else if at = 0 then
        res_bind (new_empty_with_ptr (b_ptr self)) (\<lambda>ret. Inr (ret, self, h))
      else
        res_bind (rust_assert (at \<le> b_len self) ''split_to out of bounds'') (\<lambda>_.
        res_bind (bytes_clone alloc h self) (\<lambda>(ret, self, h).
        res_bind (inc_start h self at) (\<lambda>self.
        Inr (ret\<lparr>b_len := at\<rparr>, self, h)))))"

definition bytes_truncate :: "allocator \<Rightarrow> heap \<Rightarrow> bytes \<Rightarrow> usize \<Rightarrow> (bytes \<times> heap) res" where
  "bytes_truncate alloc h self len =
     (if len < b_len self then
        if b_vtable self = PROMOTABLE_EVEN_VTABLE \<or> b_vtable self = PROMOTABLE_ODD_VTABLE then
          res_bind (split_off alloc h self len) (\<lambda>(ret, self, h).
          res_bind (bytes_drop h ret) (\<lambda>h. Inr (self, h)))
        else Inr (self\<lparr>b_len := len\<rparr>, h)
      else Inr (self, h))"

definition bytes_clear :: "allocator \<Rightarrow> heap \<Rightarrow> bytes \<Rightarrow> (bytes \<times> heap) res" where
  "bytes_clear alloc h self = bytes_truncate alloc h self 0"

definition bytes_copy_to_bytes :: "allocator \<Rightarrow> heap \<Rightarrow> bytes \<Rightarrow> usize \<Rightarrow> (bytes \<times> bytes \<times> heap) res" where
  "bytes_copy_to_bytes alloc h self len = split_to alloc h self len"

definition bytes_eq :: "heap \<Rightarrow> bytes \<Rightarrow> bytes \<Rightarrow> bool res" where
  "bytes_eq h self other =
     res_bind (as_slice h self) (\<lambda>a. res_bind (as_slice h other) (\<lambda>b. Inr (a = b)))"

end
