(* ===== verification/Bytes_Mut.thy ===== *)
theory Bytes_Mut
  imports Bytes Buf_Adapters
begin

unbundle bit_operations_syntax

text \<open>
  \<open>BytesMut\<close> (\<^verbatim>\<open>patches/bytes/src/bytes_mut.rs\<close>): a unique handle to a part of a buffer, which it
  may write and grow. Its data pointer is tagged: a plain number with the offset into the vector
  and the original capacity while the handle owns the vector alone (\<open>KIND_VEC\<close>), else the
  address of a reference-counted \<open>Shared\<close>. Debug assertions are part of the definitions.
\<close>

section \<open>The handle\<close>

record bytes_mut =
  bm_ptr :: ptr
  bm_len :: usize
  bm_cap :: usize
  bm_data :: ptr

definition MAX_ORIGINAL_CAPACITY_WIDTH :: usize where "MAX_ORIGINAL_CAPACITY_WIDTH = 17"
definition MIN_ORIGINAL_CAPACITY_WIDTH :: usize where "MIN_ORIGINAL_CAPACITY_WIDTH = 10"
definition ORIGINAL_CAPACITY_MASK :: usize where "ORIGINAL_CAPACITY_MASK = 28"
definition ORIGINAL_CAPACITY_OFFSET :: usize where "ORIGINAL_CAPACITY_OFFSET = 2"
definition VEC_POS_OFFSET :: usize where "VEC_POS_OFFSET = 5"
definition MAX_VEC_POS :: usize where "MAX_VEC_POS = drop_bit VEC_POS_OFFSET usize_max"
definition NOT_VEC_POS_MASK :: usize where "NOT_VEC_POS_MASK = 31"
definition PTR_WIDTH :: usize where "PTR_WIDTH = 64"

text \<open>\<open>usize::leading_zeros\<close> and \<open><<\<close>, which drops the bits that leave the word\<close>

fun bit_width :: "nat \<Rightarrow> nat" where
  "bit_width n = (if n = 0 then 0 else Suc (bit_width (n div 2)))"

declare bit_width.simps [simp del]

definition leading_zeros :: "usize \<Rightarrow> nat" where
  "leading_zeros n = 64 - bit_width n"

definition usize_shl :: "usize \<Rightarrow> nat \<Rightarrow> usize" where
  "usize_shl a n = take_bit 64 (push_bit n a)"

definition original_capacity_to_repr :: "usize \<Rightarrow> usize" where
  "original_capacity_to_repr cap =
     (let width = PTR_WIDTH - leading_zeros (drop_bit MIN_ORIGINAL_CAPACITY_WIDTH cap) in
      min width (MAX_ORIGINAL_CAPACITY_WIDTH - MIN_ORIGINAL_CAPACITY_WIDTH))"

definition original_capacity_from_repr :: "usize \<Rightarrow> usize" where
  "original_capacity_from_repr repr =
     (if repr = 0 then 0 else usize_shl 1 (repr + (MIN_ORIGINAL_CAPACITY_WIDTH - 1)))"

definition vptr :: "ptr \<Rightarrow> ptr res" where
  "vptr p = expect (if addr_of p = 0 then None else Some p) ''Vec pointer should be non-null''"

definition invalid_ptr :: "usize \<Rightarrow> ptr" where
  "invalid_ptr addr = wrapping_add null_ptr addr"

definition rebuild_vec :: "heap \<Rightarrow> ptr \<Rightarrow> usize \<Rightarrow> usize \<Rightarrow> usize \<Rightarrow> hvec res" where
  "rebuild_vec h p len cap pos =
     res_bind (ptr_sub h p pos) (\<lambda>p.
     res_bind (usize_add len pos) (\<lambda>len.
     res_bind (usize_add cap pos) (\<lambda>cap.
     from_raw_parts h p len cap)))"

definition kind :: "bytes_mut \<Rightarrow> usize" where
  "kind self = addr_of (bm_data self) AND KIND_MASK"

definition get_vec_pos :: "bytes_mut \<Rightarrow> usize res" where
  "get_vec_pos self =
     res_bind (rust_assert (kind self = KIND_VEC) ''kind == KIND_VEC'') (\<lambda>_.
     Inr (drop_bit VEC_POS_OFFSET (addr_of (bm_data self))))"

definition set_vec_pos :: "bytes_mut \<Rightarrow> usize \<Rightarrow> bytes_mut res" where
  "set_vec_pos self pos =
     res_bind (rust_assert (kind self = KIND_VEC) ''kind == KIND_VEC'') (\<lambda>_.
     res_bind (rust_assert (pos \<le> MAX_VEC_POS) ''pos <= MAX_VEC_POS'') (\<lambda>_.
     Inr (self\<lparr>bm_data :=
       invalid_ptr (usize_shl pos VEC_POS_OFFSET OR (addr_of (bm_data self) AND NOT_VEC_POS_MASK))\<rparr>)))"

section \<open>Constructors\<close>

definition vec_data :: "usize \<Rightarrow> ptr" where
  "vec_data original_capacity_repr = invalid_ptr (usize_shl original_capacity_repr ORIGINAL_CAPACITY_OFFSET OR KIND_VEC)"

definition bytes_mut_from_vec :: "hvec \<Rightarrow> bytes_mut res" where
  "bytes_mut_from_vec vec =
     res_bind (vptr (hv_ptr vec)) (\<lambda>p.
     Inr \<lparr>bm_ptr = p, bm_len = hv_len vec, bm_cap = hv_cap vec,
       bm_data = vec_data (original_capacity_to_repr (hv_cap vec))\<rparr>)"

definition with_capacity :: "allocator \<Rightarrow> heap \<Rightarrow> usize \<Rightarrow> (bytes_mut \<times> heap) res" where
  "with_capacity alloc h capacity =
     res_bind (vec_with_capacity alloc h capacity) (\<lambda>(v, h).
     res_bind (bytes_mut_from_vec v) (\<lambda>m. Inr (m, h)))"

definition bytes_mut_new :: "allocator \<Rightarrow> heap \<Rightarrow> (bytes_mut \<times> heap) res" where
  "bytes_mut_new alloc h = with_capacity alloc h 0"

text \<open>\<open>vec![0; len]\<close>\<close>

definition zeroed :: "allocator \<Rightarrow> heap \<Rightarrow> usize \<Rightarrow> (bytes_mut \<times> heap) res" where
  "zeroed alloc h len =
     (if len > isize_max then capacity_overflow
      else
        res_bind (to_vec alloc h (replicate len 0)) (\<lambda>(v, h).
        res_bind (bytes_mut_from_vec v) (\<lambda>m. Inr (m, h))))"

definition bytes_mut_from_slice :: "allocator \<Rightarrow> heap \<Rightarrow> u8 list \<Rightarrow> (bytes_mut \<times> heap) res" where
  "bytes_mut_from_slice alloc h src =
     res_bind (to_vec alloc h src) (\<lambda>(v, h).
     res_bind (bytes_mut_from_vec v) (\<lambda>m. Inr (m, h)))"

section \<open>Sharing\<close>

definition promote_to_shared :: "allocator \<Rightarrow> heap \<Rightarrow> bytes_mut \<Rightarrow> u64 \<Rightarrow> (bytes_mut \<times> heap) res" where
  "promote_to_shared alloc h self ref_cnt =
     res_bind (rust_assert (kind self = KIND_VEC) ''kind == KIND_VEC'') (\<lambda>_.
     res_bind (rust_assert (ref_cnt = 1 \<or> ref_cnt = 2) ''ref_cnt == 1 || ref_cnt == 2'') (\<lambda>_.
     let original_capacity_repr =
           drop_bit ORIGINAL_CAPACITY_OFFSET (addr_of (bm_data self) AND ORIGINAL_CAPACITY_MASK);
         off = drop_bit VEC_POS_OFFSET (addr_of (bm_data self)) in
     res_bind (rebuild_vec h (bm_ptr self) (bm_len self) (bm_cap self) off) (\<lambda>vec.
     res_bind (new_block alloc h 40 8 (Shared_V \<lparr>sv_vec = vec,
       sv_original_capacity_repr = original_capacity_repr, sv_ref_count = ref_cnt\<rparr>)) (\<lambda>(a, h).
     res_bind (rust_assert (a AND KIND_MASK = KIND_ARC) ''aligned Shared'') (\<lambda>_.
     Inr (self\<lparr>bm_data := Ptr a 0\<rparr>, h))))))"

text \<open>The copy of the handle comes first, then the handle itself.\<close>

definition shallow_clone :: "allocator \<Rightarrow> heap \<Rightarrow> bytes_mut \<Rightarrow> (bytes_mut \<times> bytes_mut \<times> heap) res" where
  "shallow_clone alloc h self =
     (if kind self = KIND_ARC then
        res_bind (increment_shared h (bm_data self)) (\<lambda>h. Inr (self, self, h))
      else
        res_bind (promote_to_shared alloc h self 2) (\<lambda>(self, h). Inr (self, self, h)))"

definition advance_unchecked :: "allocator \<Rightarrow> heap \<Rightarrow> bytes_mut \<Rightarrow> usize \<Rightarrow> (bytes_mut \<times> heap) res" where
  "advance_unchecked alloc h self cnt =
     (if cnt = 0 then Inr (self, h)
      else
        res_bind (rust_assert (cnt \<le> bm_cap self) ''internal: set_start out of bounds'') (\<lambda>_.
        res_bind
          (if kind self = KIND_VEC then
             res_bind (get_vec_pos self) (\<lambda>vec_pos.
             res_bind (usize_add vec_pos cnt) (\<lambda>pos.
             if pos \<le> MAX_VEC_POS then res_bind (set_vec_pos self pos) (\<lambda>self. Inr (self, h))
             else promote_to_shared alloc h self 1))
           else Inr (self, h)) (\<lambda>(self, h).
        res_bind (ptr_add h (bm_ptr self) cnt) (\<lambda>p.
        res_bind (vptr p) (\<lambda>p.
        res_bind (usize_sub (bm_cap self) cnt) (\<lambda>cap.
        Inr (self\<lparr>bm_ptr := p, bm_len := bm_len self - cnt, bm_cap := cap\<rparr>, h)))))))"

definition bytes_mut_drop :: "heap \<Rightarrow> bytes_mut \<Rightarrow> heap res" where
  "bytes_mut_drop h self =
     (if kind self = KIND_VEC then
        res_bind (get_vec_pos self) (\<lambda>off.
        res_bind (rebuild_vec h (bm_ptr self) (bm_len self) (bm_cap self) off) (\<lambda>v.
        vec_drop h v))
      else if kind self = KIND_ARC then release_shared_v h (bm_data self)
      else Inr h)"

definition freeze :: "allocator \<Rightarrow> heap \<Rightarrow> bytes_mut \<Rightarrow> (bytes \<times> heap) res" where
  "freeze alloc h self =
     (if kind self = KIND_VEC then
        res_bind (get_vec_pos self) (\<lambda>off.
        res_bind (rebuild_vec h (bm_ptr self) (bm_len self) (bm_cap self) off) (\<lambda>vec.
        res_bind (from_vec alloc h vec) (\<lambda>(b, h).
        res_bind (bytes_advance h b off) (\<lambda>b. Inr (b, h)))))
      else
        res_bind (rust_assert (kind self = KIND_ARC) ''kind == KIND_ARC'') (\<lambda>_.
        Inr (with_vtable (bm_ptr self) (bm_len self) (bm_data self) SHARED_V_VTABLE, h)))"

section \<open>Splitting\<close>

definition bytes_mut_split_off ::
  "allocator \<Rightarrow> heap \<Rightarrow> bytes_mut \<Rightarrow> usize \<Rightarrow> (bytes_mut \<times> bytes_mut \<times> heap) res" where
  "bytes_mut_split_off alloc h self at =
     res_bind (rust_assert (at \<le> bm_cap self) ''split_off out of bounds'') (\<lambda>_.
     res_bind (shallow_clone alloc h self) (\<lambda>(other, self, h).
     res_bind (advance_unchecked alloc h other at) (\<lambda>(other, h).
     Inr (other, self\<lparr>bm_cap := at, bm_len := min (bm_len self) at\<rparr>, h))))"

definition bytes_mut_split_to ::
  "allocator \<Rightarrow> heap \<Rightarrow> bytes_mut \<Rightarrow> usize \<Rightarrow> (bytes_mut \<times> bytes_mut \<times> heap) res" where
  "bytes_mut_split_to alloc h self at =
     res_bind (rust_assert (at \<le> bm_len self) ''split_to out of bounds'') (\<lambda>_.
     res_bind (shallow_clone alloc h self) (\<lambda>(other, self, h).
     res_bind (advance_unchecked alloc h self at) (\<lambda>(self, h).
     Inr (other\<lparr>bm_cap := at, bm_len := at\<rparr>, self, h))))"

definition bytes_mut_split :: "allocator \<Rightarrow> heap \<Rightarrow> bytes_mut \<Rightarrow> (bytes_mut \<times> bytes_mut \<times> heap) res" where
  "bytes_mut_split alloc h self = bytes_mut_split_to alloc h self (bm_len self)"

definition set_len :: "bytes_mut \<Rightarrow> usize \<Rightarrow> bytes_mut res" where
  "set_len self len =
     res_bind (rust_assert (len \<le> bm_cap self) ''set_len out of bounds'') (\<lambda>_.
     Inr (self\<lparr>bm_len := len\<rparr>))"

definition bytes_mut_truncate :: "bytes_mut \<Rightarrow> usize \<Rightarrow> bytes_mut res" where
  "bytes_mut_truncate self len = (if len \<le> bm_len self then set_len self len else Inr self)"

definition bytes_mut_clear :: "bytes_mut \<Rightarrow> bytes_mut res" where
  "bytes_mut_clear self = set_len self 0"

definition bytes_mut_advance :: "allocator \<Rightarrow> heap \<Rightarrow> bytes_mut \<Rightarrow> usize \<Rightarrow> (bytes_mut \<times> heap) res" where
  "bytes_mut_advance alloc h self cnt =
     res_bind (rust_assert (cnt \<le> bm_len self) ''cannot advance past `remaining`'') (\<lambda>_.
     advance_unchecked alloc h self cnt)"

definition bytes_mut_copy_to_bytes ::
  "allocator \<Rightarrow> heap \<Rightarrow> bytes_mut \<Rightarrow> usize \<Rightarrow> (bytes \<times> bytes_mut \<times> heap) res" where
  "bytes_mut_copy_to_bytes alloc h self len =
     res_bind (bytes_mut_split_to alloc h self len) (\<lambda>(other, self, h).
     res_bind (freeze alloc h other) (\<lambda>(b, h). Inr (b, self, h)))"

section \<open>Reserving\<close>

text \<open>A \<open>checked_add\<close> whose failure is a panic, or \<open>false\<close> when nothing may be allocated\<close>

definition add_or_give_up ::
  "bool \<Rightarrow> usize \<Rightarrow> usize \<Rightarrow> 'a \<Rightarrow> (usize \<Rightarrow> 'a res) \<Rightarrow> 'a res" where
  "add_or_give_up allocate a b give_up f =
     (case checked_add a b of
        Some c \<Rightarrow> f c
      | None \<Rightarrow> if \<not> allocate then Inr give_up else Inl (Panic (Expect_failed ''overflow'')))"

text \<open>\<open>kind == KIND_VEC\<close>\<close>

definition reserve_vec ::
  "allocator \<Rightarrow> heap \<Rightarrow> bytes_mut \<Rightarrow> usize \<Rightarrow> bool \<Rightarrow> (bool \<times> bytes_mut \<times> heap) res" where
  "reserve_vec alloc h self additional allocate =
     res_bind (get_vec_pos self) (\<lambda>off.
     res_bind (usize_sub (bm_cap self) (bm_len self)) (\<lambda>spare.
     res_bind (usize_add spare off) (\<lambda>space.
     if space \<ge> additional \<and> off \<ge> bm_len self then
       res_bind (ptr_sub h (bm_ptr self) off) (\<lambda>base_ptr.
       res_bind (copy_nonoverlapping h (bm_ptr self) base_ptr (bm_len self)) (\<lambda>h.
       res_bind (vptr base_ptr) (\<lambda>p.
       res_bind (set_vec_pos (self\<lparr>bm_ptr := p\<rparr>) 0) (\<lambda>self.
       res_bind (usize_add (bm_cap self) off) (\<lambda>cap.
       Inr (True, self\<lparr>bm_cap := cap\<rparr>, h))))))
     else if \<not> allocate then Inr (False, self, h)
     else
       res_bind (rebuild_vec h (bm_ptr self) (bm_len self) (bm_cap self) off) (\<lambda>v.
       res_bind (vec_reserve alloc h v additional) (\<lambda>(v, h).
       res_bind (ptr_add h (hv_ptr v) off) (\<lambda>p.
       res_bind (vptr p) (\<lambda>p.
       res_bind (usize_sub (hv_cap v) off) (\<lambda>cap.
       res_bind (rust_assert (bm_len self = hv_len v - off) ''self.len == v.len() - off'') (\<lambda>_.
       Inr (True, self\<lparr>bm_ptr := p, bm_cap := cap\<rparr>, h)))))))))) "

text \<open>The buffer is shared with nobody else.\<close>

definition reserve_unique ::
  "allocator \<Rightarrow> heap \<Rightarrow> bytes_mut \<Rightarrow> shared_v \<Rightarrow> usize \<Rightarrow> bool \<Rightarrow> (bool \<times> bytes_mut \<times> heap) res" where
  "reserve_unique alloc h self s new_cap allocate =
     (let v = sv_vec s; v_capacity = hv_cap v; p = hv_ptr v; len = bm_len self in
      res_bind (offset_from (bm_ptr self) p) (\<lambda>offset.
      add_or_give_up allocate new_cap offset (False, self, h) (\<lambda>new_cap_plus_offset.
      if v_capacity \<ge> new_cap_plus_offset then Inr (True, self\<lparr>bm_cap := new_cap\<rparr>, h)
      else if v_capacity \<ge> new_cap \<and> offset \<ge> len then
        res_bind (copy_nonoverlapping h (bm_ptr self) p len) (\<lambda>h.
        res_bind (vptr p) (\<lambda>p.
        Inr (True, self\<lparr>bm_ptr := p, bm_cap := hv_cap v\<rparr>, h)))
      else if \<not> allocate then Inr (False, self, h)
      else
        let double = usize_shl (hv_cap v) 1; new_cap = max double new_cap_plus_offset in
        res_bind (rust_assert (offset + len \<le> hv_cap v) ''offset + len <= v.capacity()'') (\<lambda>_.
        let v = v\<lparr>hv_len := offset + len\<rparr> in
        res_bind (usize_sub new_cap (hv_len v)) (\<lambda>additional.
        res_bind (vec_reserve alloc h v additional) (\<lambda>(v, h).
        let h = h(blk (bm_data self) \<mapsto> Shared_V (s\<lparr>sv_vec := v\<rparr>)) in
        res_bind (ptr_add h (hv_ptr v) offset) (\<lambda>p.
        res_bind (vptr p) (\<lambda>p.
        res_bind (usize_sub (hv_cap v) offset) (\<lambda>cap.
        Inr (True, self\<lparr>bm_ptr := p, bm_cap := cap\<rparr>, h))))))))))"

text \<open>The buffer is shared: the bytes move to a new vector.\<close>

definition reserve_shared ::
  "allocator \<Rightarrow> heap \<Rightarrow> bytes_mut \<Rightarrow> shared_v \<Rightarrow> usize \<Rightarrow> (bool \<times> bytes_mut \<times> heap) res" where
  "reserve_shared alloc h self s new_cap =
     (let original_capacity_repr = sv_original_capacity_repr s;
          original_capacity = original_capacity_from_repr original_capacity_repr;
          new_cap = max new_cap original_capacity in
      res_bind (vec_with_capacity alloc h new_cap) (\<lambda>(v, h).
      res_bind (heap_read h (bm_ptr self) (bm_len self)) (\<lambda>bs.
      res_bind (vec_extend_from_slice alloc h v bs) (\<lambda>(v, h).
      res_bind (release_shared_v h (bm_data self)) (\<lambda>h.
      res_bind (vptr (hv_ptr v)) (\<lambda>p.
      res_bind (rust_assert (bm_len self = hv_len v) ''self.len == v.len()'') (\<lambda>_.
      Inr (True, self\<lparr>bm_data := vec_data original_capacity_repr, bm_ptr := p, bm_cap := hv_cap v\<rparr>, h))))))))"

definition reserve_inner ::
  "allocator \<Rightarrow> heap \<Rightarrow> bytes_mut \<Rightarrow> usize \<Rightarrow> bool \<Rightarrow> (bool \<times> bytes_mut \<times> heap) res" where
  "reserve_inner alloc h self additional allocate =
     (if kind self = KIND_VEC then reserve_vec alloc h self additional allocate
      else
        res_bind (rust_assert (kind self = KIND_ARC) ''kind == KIND_ARC'') (\<lambda>_.
        add_or_give_up allocate (bm_len self) additional (False, self, h) (\<lambda>new_cap.
        res_bind (get_shared_v h (bm_data self)) (\<lambda>s.
        if shared_v_unique s then reserve_unique alloc h self s new_cap allocate
        else if \<not> allocate then Inr (False, self, h)
        else reserve_shared alloc h self s new_cap))))"

definition reserve :: "allocator \<Rightarrow> heap \<Rightarrow> bytes_mut \<Rightarrow> usize \<Rightarrow> (bytes_mut \<times> heap) res" where
  "reserve alloc h self additional =
     res_bind (usize_sub (bm_cap self) (bm_len self)) (\<lambda>rem.
     if additional \<le> rem then Inr (self, h)
     else res_bind (reserve_inner alloc h self additional True) (\<lambda>(_, self, h). Inr (self, h)))"

definition try_reclaim :: "allocator \<Rightarrow> heap \<Rightarrow> bytes_mut \<Rightarrow> usize \<Rightarrow> (bool \<times> bytes_mut \<times> heap) res" where
  "try_reclaim alloc h self additional =
     res_bind (usize_sub (bm_cap self) (bm_len self)) (\<lambda>rem.
     if additional \<le> rem then Inr (True, self, h)
     else reserve_inner alloc h self additional False)"

section \<open>Writing\<close>

text \<open>
  \<open>spare_capacity_mut()\<close> as the pointer and the length of the slice; the bytes go there by
  \<open>copy_nonoverlapping\<close> from a slice that is not part of the buffer, or by \<open>write_bytes\<close>.
\<close>

definition spare_capacity_mut :: "heap \<Rightarrow> bytes_mut \<Rightarrow> (ptr \<times> usize) res" where
  "spare_capacity_mut h self =
     res_bind (ptr_add h (bm_ptr self) (bm_len self)) (\<lambda>p.
     res_bind (usize_sub (bm_cap self) (bm_len self)) (\<lambda>len.
     Inr (p, len)))"

definition bytes_mut_advance_mut :: "bytes_mut \<Rightarrow> usize \<Rightarrow> bytes_mut res" where
  "bytes_mut_advance_mut self cnt =
     res_bind (usize_sub (bm_cap self) (bm_len self)) (\<lambda>remaining.
     if cnt > remaining then panic_advance \<lparr>requested = cnt, available = remaining\<rparr>
     else Inr (self\<lparr>bm_len := bm_len self + cnt\<rparr>))"

definition bytes_mut_extend_from_slice ::
  "allocator \<Rightarrow> heap \<Rightarrow> bytes_mut \<Rightarrow> u8 list \<Rightarrow> (bytes_mut \<times> heap) res" where
  "bytes_mut_extend_from_slice alloc h self src =
     (let cnt = length src in
      res_bind (reserve alloc h self cnt) (\<lambda>(self, h).
      res_bind (spare_capacity_mut h self) (\<lambda>(dst, dst_len).
      res_bind (rust_assert (dst_len \<ge> cnt) ''dst.len() >= cnt'') (\<lambda>_.
      res_bind (heap_write h dst src) (\<lambda>h.
      res_bind (bytes_mut_advance_mut self cnt) (\<lambda>self. Inr (self, h)))))))"

definition bytes_mut_put_slice :: "allocator \<Rightarrow> heap \<Rightarrow> bytes_mut \<Rightarrow> u8 list \<Rightarrow> (bytes_mut \<times> heap) res" where
  "bytes_mut_put_slice alloc h self src = bytes_mut_extend_from_slice alloc h self src"

definition bytes_mut_put_bytes :: "allocator \<Rightarrow> heap \<Rightarrow> bytes_mut \<Rightarrow> u8 \<Rightarrow> usize \<Rightarrow> (bytes_mut \<times> heap) res" where
  "bytes_mut_put_bytes alloc h self val cnt =
     res_bind (reserve alloc h self cnt) (\<lambda>(self, h).
     res_bind (spare_capacity_mut h self) (\<lambda>(dst, dst_len).
     res_bind (rust_assert (dst_len \<ge> cnt) ''dst.len() >= cnt'') (\<lambda>_.
     res_bind (heap_write h dst (replicate cnt val)) (\<lambda>h.
     res_bind (bytes_mut_advance_mut self cnt) (\<lambda>self. Inr (self, h))))))"

definition resize :: "allocator \<Rightarrow> heap \<Rightarrow> bytes_mut \<Rightarrow> usize \<Rightarrow> u8 \<Rightarrow> (bytes_mut \<times> heap) res" where
  "resize alloc h self new_len val =
     (case checked_sub new_len (bm_len self) of
        None \<Rightarrow> res_bind (bytes_mut_truncate self new_len) (\<lambda>self. Inr (self, h))
      | Some additional \<Rightarrow>
          if additional = 0 then Inr (self, h)
          else
            res_bind (reserve alloc h self additional) (\<lambda>(self, h).
            res_bind (spare_capacity_mut h self) (\<lambda>(dst, _).
            res_bind (heap_write h dst (replicate additional val)) (\<lambda>h.
            res_bind (set_len self new_len) (\<lambda>self. Inr (self, h))))))"

definition bytes_mut_as_slice :: "heap \<Rightarrow> bytes_mut \<Rightarrow> u8 list res" where
  "bytes_mut_as_slice h self = heap_read h (bm_ptr self) (bm_len self)"

text \<open>\<open>self[i] = val\<close> through \<open>DerefMut\<close>\<close>

definition index_mut :: "heap \<Rightarrow> bytes_mut \<Rightarrow> usize \<Rightarrow> u8 \<Rightarrow> heap res" where
  "index_mut h self i val =
     res_bind (bytes_mut_as_slice h self) (\<lambda>s.
     if i < length s then heap_write h (Ptr (blk (bm_ptr self)) (off (bm_ptr self) + i)) [val]
     else Inl (Panic Slice_index))"

text \<open>\<open>Ok(())\<close> drops \<open>other\<close>; \<open>Err(other)\<close> gives it back.\<close>

definition try_unsplit :: "heap \<Rightarrow> bytes_mut \<Rightarrow> bytes_mut \<Rightarrow> (bytes_mut option \<times> bytes_mut \<times> heap) res" where
  "try_unsplit h self other =
     (if bm_cap other = 0 then res_bind (bytes_mut_drop h other) (\<lambda>h. Inr (None, self, h))
      else
        res_bind (ptr_add h (bm_ptr self) (bm_len self)) (\<lambda>p.
        if addr_of p = addr_of (bm_ptr other) \<and> kind self = KIND_ARC \<and> kind other = KIND_ARC \<and>
          bm_data self = bm_data other
        then
          res_bind (usize_add (bm_len self) (bm_len other)) (\<lambda>len.
          res_bind (usize_add (bm_cap self) (bm_cap other)) (\<lambda>cap.
          res_bind (bytes_mut_drop h other) (\<lambda>h.
          Inr (None, self\<lparr>bm_len := len, bm_cap := cap\<rparr>, h))))
        else Inr (Some other, self, h)))"

definition unsplit :: "allocator \<Rightarrow> heap \<Rightarrow> bytes_mut \<Rightarrow> bytes_mut \<Rightarrow> (bytes_mut \<times> heap) res" where
  "unsplit alloc h self other =
     (if bm_len self = 0 then res_bind (bytes_mut_drop h self) (\<lambda>h. Inr (other, h))
      else
        res_bind (try_unsplit h self other) (\<lambda>(r, self, h).
        case r of
          None \<Rightarrow> Inr (self, h)
        | Some other \<Rightarrow>
            res_bind (bytes_mut_as_slice h other) (\<lambda>bs.
            res_bind (bytes_mut_extend_from_slice alloc h self bs) (\<lambda>(self, h).
            res_bind (bytes_mut_drop h other) (\<lambda>h. Inr (self, h))))))"

definition bytes_mut_clone :: "allocator \<Rightarrow> heap \<Rightarrow> bytes_mut \<Rightarrow> (bytes_mut \<times> heap) res" where
  "bytes_mut_clone alloc h self =
     res_bind (bytes_mut_as_slice h self) (\<lambda>bs. bytes_mut_from_slice alloc h bs)"

section \<open>Conversions\<close>

text \<open>\<open>From<BytesMut> for Vec<u8>\<close>\<close>

definition bytes_mut_into_vec :: "allocator \<Rightarrow> heap \<Rightarrow> bytes_mut \<Rightarrow> (hvec \<times> heap) res" where
  "bytes_mut_into_vec alloc h bytes =
     (let finish = (\<lambda>(vec, h).
        res_bind (ptr_copy h (bm_ptr bytes) (hv_ptr vec) (bm_len bytes)) (\<lambda>h.
        Inr (vec\<lparr>hv_len := bm_len bytes\<rparr>, h))) in
      if kind bytes = KIND_VEC then
        res_bind (get_vec_pos bytes) (\<lambda>off.
        res_bind (rebuild_vec h (bm_ptr bytes) (bm_len bytes) (bm_cap bytes) off) (\<lambda>vec.
        finish (vec, h)))
      else
        res_bind (get_shared_v h (bm_data bytes)) (\<lambda>s.
        if shared_v_unique s then
          let vec = sv_vec s; h = h(blk (bm_data bytes) \<mapsto> Shared_V (s\<lparr>sv_vec := vec_new\<rparr>)) in
          res_bind (release_shared_v h (bm_data bytes)) (\<lambda>h. finish (vec, h))
        else
          res_bind (bytes_mut_as_slice h bytes) (\<lambda>bs.
          res_bind (to_vec alloc h bs) (\<lambda>(v, h).
          res_bind (bytes_mut_drop h bytes) (\<lambda>h. Inr (v, h))))))"

text \<open>\<open>into_mut\<close> of the vtables\<close>

definition static_to_mut :: "allocator \<Rightarrow> heap \<Rightarrow> ptr \<Rightarrow> usize \<Rightarrow> (bytes_mut \<times> heap) res" where
  "static_to_mut alloc h p len = res_bind (heap_read h p len) (\<lambda>bs. bytes_mut_from_slice alloc h bs)"

definition owned_to_mut :: "allocator \<Rightarrow> heap \<Rightarrow> ptr \<Rightarrow> ptr \<Rightarrow> usize \<Rightarrow> (bytes_mut \<times> heap) res" where
  "owned_to_mut alloc h data p len =
     res_bind (owned_to_vec alloc h data p len) (\<lambda>(v, h).
     res_bind (bytes_mut_from_vec v) (\<lambda>m. Inr (m, h)))"

definition shared_to_mut_impl :: "allocator \<Rightarrow> heap \<Rightarrow> ptr \<Rightarrow> ptr \<Rightarrow> usize \<Rightarrow> (bytes_mut \<times> heap) res" where
  "shared_to_mut_impl alloc h sh p len =
     res_bind (get_shared h sh) (\<lambda>s.
     if atomic_load (sh_ref_cnt s) = 1 then
       let h = h(blk sh := None); buf = sh_buf s; cap = sh_cap s in
       res_bind (offset_from p buf) (\<lambda>off.
       res_bind (from_raw_parts h buf (len + off) cap) (\<lambda>v.
       res_bind (bytes_mut_from_vec v) (\<lambda>b. advance_unchecked alloc h b off)))
     else
       res_bind (heap_read h p len) (\<lambda>bs.
       res_bind (to_vec alloc h bs) (\<lambda>(v, h).
       res_bind (release_shared h sh) (\<lambda>h.
       res_bind (bytes_mut_from_vec v) (\<lambda>m. Inr (m, h))))))"

definition promotable_to_mut ::
  "allocator \<Rightarrow> heap \<Rightarrow> ptr \<Rightarrow> ptr \<Rightarrow> usize \<Rightarrow> (ptr \<Rightarrow> ptr) \<Rightarrow> (bytes_mut \<times> heap) res" where
  "promotable_to_mut alloc h data p len f =
     (let sh = atomic_load data; kind = addr_of sh AND KIND_MASK in
      if kind = KIND_ARC then shared_to_mut_impl alloc h sh p len
      else
        res_bind (rust_assert (kind = KIND_VEC) ''kind == KIND_VEC'') (\<lambda>_.
        let buf = f sh in
        res_bind (offset_from p buf) (\<lambda>off.
        let cap = off + len in
        res_bind (from_raw_parts h buf cap cap) (\<lambda>v.
        res_bind (bytes_mut_from_vec v) (\<lambda>b. advance_unchecked alloc h b off)))))"

definition promotable_even_to_mut :: "allocator \<Rightarrow> heap \<Rightarrow> ptr \<Rightarrow> ptr \<Rightarrow> usize \<Rightarrow> (bytes_mut \<times> heap) res" where
  "promotable_even_to_mut alloc h data p len = promotable_to_mut alloc h data p len (\<lambda>sh. ptr_map sh clear_kind)"

definition promotable_odd_to_mut :: "allocator \<Rightarrow> heap \<Rightarrow> ptr \<Rightarrow> ptr \<Rightarrow> usize \<Rightarrow> (bytes_mut \<times> heap) res" where
  "promotable_odd_to_mut alloc h data p len = promotable_to_mut alloc h data p len (\<lambda>sh. sh)"

definition shared_to_mut :: "allocator \<Rightarrow> heap \<Rightarrow> ptr \<Rightarrow> ptr \<Rightarrow> usize \<Rightarrow> (bytes_mut \<times> heap) res" where
  "shared_to_mut alloc h data p len = shared_to_mut_impl alloc h (atomic_load data) p len"

definition shared_v_to_mut :: "allocator \<Rightarrow> heap \<Rightarrow> ptr \<Rightarrow> ptr \<Rightarrow> usize \<Rightarrow> (bytes_mut \<times> heap) res" where
  "shared_v_to_mut alloc h data p len =
     (let sh = atomic_load data in
      res_bind (get_shared_v h sh) (\<lambda>s.
      if shared_v_unique s then
        let v_capacity = hv_cap (sv_vec s); v_ptr = hv_ptr (sv_vec s) in
        res_bind (offset_from p v_ptr) (\<lambda>offset.
        res_bind (usize_sub v_capacity offset) (\<lambda>cap.
        res_bind (vptr p) (\<lambda>p.
        Inr (\<lparr>bm_ptr = p, bm_len = len, bm_cap = cap, bm_data = sh\<rparr>, h))))
      else
        res_bind (heap_read h p len) (\<lambda>bs.
        res_bind (to_vec alloc h bs) (\<lambda>(v, h).
        res_bind (release_shared_v h sh) (\<lambda>h.
        res_bind (bytes_mut_from_vec v) (\<lambda>m. Inr (m, h)))))))"

definition into_mut :: "allocator \<Rightarrow> heap \<Rightarrow> bytes \<Rightarrow> (bytes_mut \<times> heap) res" where
  "into_mut alloc h bytes =
     (let data = b_data bytes; p = b_ptr bytes; len = b_len bytes in
      case b_vtable bytes of
        STATIC_VTABLE \<Rightarrow> static_to_mut alloc h p len
      | OWNED_VTABLE \<Rightarrow> owned_to_mut alloc h data p len
      | PROMOTABLE_EVEN_VTABLE \<Rightarrow> promotable_even_to_mut alloc h data p len
      | PROMOTABLE_ODD_VTABLE \<Rightarrow> promotable_odd_to_mut alloc h data p len
      | SHARED_VTABLE \<Rightarrow> shared_to_mut alloc h data p len
      | SHARED_V_VTABLE \<Rightarrow> shared_v_to_mut alloc h data p len)"

definition try_into_mut :: "allocator \<Rightarrow> heap \<Rightarrow> bytes \<Rightarrow> ((bytes_mut, bytes) result \<times> heap) res" where
  "try_into_mut alloc h self =
     res_bind (is_unique h self) (\<lambda>unique.
     if unique then res_bind (into_mut alloc h self) (\<lambda>(m, h). Inr (Ok m, h))
     else Inr (Err self, h))"

end
