(* ===== verification/Bytes_Inv.thy ===== *)
theory Bytes_Inv
  imports Bytes_Mut
begin

unbundle bit_operations_syntax

text \<open>
  The invariant of all live handles, \<open>Bytes\<close> and \<open>BytesMut\<close> together, and how it moves:
  reference counts are the numbers of handles, no two owners share a buffer, nothing is leaked,
  and the part of a buffer that a \<open>BytesMut\<close> may write belongs to no other handle.
\<close>

section \<open>Handles\<close>

datatype handle = HB bytes | HM bytes_mut

fun h_ptr :: "handle \<Rightarrow> ptr" where
  "h_ptr (HB b) = b_ptr b"
| "h_ptr (HM m) = bm_ptr m"

fun h_len :: "handle \<Rightarrow> usize" where
  "h_len (HB b) = b_len b"
| "h_len (HM m) = bm_len m"

fun h_cap :: "handle \<Rightarrow> usize" where
  "h_cap (HB b) = b_len b"
| "h_cap (HM m) = bm_cap m"

fun is_mut :: "handle \<Rightarrow> bool" where
  "is_mut (HB b) = False"
| "is_mut (HM m) = True"

definition vec_pos :: "bytes_mut \<Rightarrow> usize" where
  "vec_pos m = drop_bit VEC_POS_OFFSET (addr_of (bm_data m))"

text \<open>
  A handle that owns memory names its resource by a block: the buffer itself while the handle
  owns it alone, else the \<open>Shared\<close> or the \<open>Owned\<close> that its data pointer points to.
\<close>

fun key :: "handle \<Rightarrow> addr option" where
  "key (HB b) = (if b_vtable b = STATIC_VTABLE then None else Some (blk (b_data b)))"
| "key (HM m) =
     (if kind m = KIND_VEC then (if vec_pos m + bm_cap m = 0 then None else Some (blk (bm_ptr m)))
      else Some (blk (bm_data m)))"

definition buf_of :: "handle \<Rightarrow> addr option" where
  "buf_of x = (if blk (h_ptr x) = 0 then None else Some (blk (h_ptr x)))"

definition region :: "handle \<Rightarrow> nat set" where
  "region x = {off (h_ptr x) ..< off (h_ptr x) + h_cap x}"

definition keys :: "handle multiset \<Rightarrow> addr set" where
  "keys hs = {k. \<exists>x \<in># hs. key x = Some k}"

definition refs :: "handle multiset \<Rightarrow> addr \<Rightarrow> nat" where
  "refs hs k = size (filter_mset (\<lambda>x. key x = Some k) hs)"

section \<open>Resources\<close>

definition res_buf :: "heap \<Rightarrow> addr \<Rightarrow> addr option" where
  "res_buf h k =
     (case h k of
        Some (Buffer _) \<Rightarrow> Some k
      | Some (Shared s) \<Rightarrow> Some (blk (sh_buf s))
      | Some (Owned ow) \<Rightarrow> ow_owner ow
      | Some (Shared_V s) \<Rightarrow> if hv_cap (sv_vec s) = 0 then None else Some (blk (hv_ptr (sv_vec s)))
      | _ \<Rightarrow> None)"

definition res_count :: "heap \<Rightarrow> addr \<Rightarrow> nat" where
  "res_count h k =
     (case h k of
        Some (Buffer _) \<Rightarrow> 1
      | Some (Shared s) \<Rightarrow> unat (sh_ref_cnt s)
      | Some (Owned ow) \<Rightarrow> unat (ow_ref_cnt ow)
      | Some (Shared_V s) \<Rightarrow> unat (sv_ref_count s)
      | _ \<Rightarrow> 0)"

definition res_ok :: "heap \<Rightarrow> addr \<Rightarrow> bool" where
  "res_ok h k =
     (case h k of
        Some (Buffer cs) \<Rightarrow> cs \<noteq> []
      | Some (Shared s) \<Rightarrow>
          off (sh_buf s) = 0 \<and> 0 < sh_cap s \<and>
          (\<exists>cs. h (blk (sh_buf s)) = Some (Buffer cs) \<and> length cs = sh_cap s)
      | Some (Owned ow) \<Rightarrow> (\<forall>u. ow_owner ow = Some u \<longrightarrow> (\<exists>cs. h u = Some (Buffer cs)))
      | Some (Shared_V s) \<Rightarrow>
          sv_original_capacity_repr s \<le> 7 \<and>
          (if hv_cap (sv_vec s) = 0 then hv_ptr (sv_vec s) = dangling
           else off (hv_ptr (sv_vec s)) = 0 \<and>
             (\<exists>cs. h (blk (hv_ptr (sv_vec s))) = Some (Buffer cs) \<and> length cs = hv_cap (sv_vec s)))
      | _ \<Rightarrow> False)"

lemma res_ok_allocated: "res_ok h k \<Longrightarrow> h k \<noteq> None"
  by (auto simp: res_ok_def split: option.splits)

lemma res_ok_buffer: "res_ok h k \<Longrightarrow> res_buf h k = Some u \<Longrightarrow> \<exists>cs. h u = Some (Buffer cs)"
  by (auto simp: res_ok_def res_buf_def split: option.splits block.splits if_splits)

lemma res_ok_not_static: "res_ok h k \<Longrightarrow> h k \<noteq> Some (Static bs)"
  by (auto simp: res_ok_def)

section \<open>Well-formed handles\<close>

fun kind_ok :: "heap \<Rightarrow> handle \<Rightarrow> bool" where
  "kind_ok h (HB b) =
     (let k = blk (b_data b); o' = off (b_data b) in
      case b_vtable b of
        STATIC_VTABLE \<Rightarrow> blk (b_ptr b) = 0 \<or> (\<exists>bs. h (blk (b_ptr b)) = Some (Static bs))
      | OWNED_VTABLE \<Rightarrow> o' = 0 \<and> (\<exists>ow. h k = Some (Owned ow))
      | SHARED_VTABLE \<Rightarrow> o' = 0 \<and> (\<exists>s. h k = Some (Shared s))
      | PROMOTABLE_EVEN_VTABLE \<Rightarrow> even k \<and> (o' = 0 \<and> (\<exists>s. h k = Some (Shared s)) \<or> o' = 1 \<and> (\<exists>cs. h k = Some (Buffer cs)))
      | PROMOTABLE_ODD_VTABLE \<Rightarrow>
          o' = 0 \<and> (even k \<and> (\<exists>s. h k = Some (Shared s)) \<or> odd k \<and> (\<exists>cs. h k = Some (Buffer cs)))
      | SHARED_V_VTABLE \<Rightarrow> o' = 0 \<and> even k \<and> (\<exists>s. h k = Some (Shared_V s)))"
| "kind_ok h (HM m) =
     (if kind m = KIND_VEC then
        blk (bm_data m) = 0 \<and> off (bm_data m) < 2 ^ 64 \<and>
        (if vec_pos m + bm_cap m = 0 then bm_ptr m = dangling
         else off (bm_ptr m) = vec_pos m \<and> (\<exists>cs. h (blk (bm_ptr m)) = Some (Buffer cs)))
      else off (bm_data m) = 0 \<and> (\<exists>s. h (blk (bm_data m)) = Some (Shared_V s)))"

text \<open>
  How a handle lies in the buffer of its resource. What is not yet shared, or only among
  \<open>Bytes\<close>, is initialised from the start of the buffer.
\<close>

definition lies :: "heap \<Rightarrow> handle \<Rightarrow> addr \<Rightarrow> bool" where
  "lies h x k =
     (let start = off (h_ptr x) in
      case h k of
        Some (Buffer cs) \<Rightarrow> start + h_cap x = length cs \<and> None \<notin> set (take (start + h_len x) cs)
      | Some (Shared s) \<Rightarrow>
          (\<exists>cs. h (blk (h_ptr x)) = Some (Buffer cs) \<and>
            start + h_cap x \<le> length cs \<and> None \<notin> set (take (start + h_len x) cs))
      | Some (Owned ow) \<Rightarrow> True
      | Some (Shared_V s) \<Rightarrow>
          (if blk (h_ptr x) = 0 then h_ptr x = dangling \<and> h_cap x = 0
           else (\<exists>cs. h (blk (h_ptr x)) = Some (Buffer cs) \<and> start + h_cap x \<le> length cs))
      | _ \<Rightarrow> False)"

definition h_slice :: "heap \<Rightarrow> handle \<Rightarrow> u8 list res" where
  "h_slice h x = heap_read h (h_ptr x) (h_len x)"

definition handle_ok :: "heap \<Rightarrow> handle \<Rightarrow> bool" where
  "handle_ok h x \<longleftrightarrow>
     kind_ok h x \<and> 0 < addr_of (h_ptr x) \<and> h_len x \<le> h_cap x \<and> (\<exists>bs. h_slice h x = Inr bs) \<and>
     (\<forall>k. key x = Some k \<longrightarrow> res_buf h k = buf_of x \<and> lies h x k)"

definition contents :: "heap \<Rightarrow> handle \<Rightarrow> u8 list" where
  "contents h x = (case h_slice h x of Inr bs \<Rightarrow> bs | Inl _ \<Rightarrow> [])"

lemma h_slice_contents: "handle_ok h x \<Longrightarrow> h_slice h x = Inr (contents h x)"
  by (auto simp: handle_ok_def contents_def)

lemma read_contents:
  "handle_ok h (HB b) \<Longrightarrow> heap_read h (b_ptr b) (b_len b) = Inr (contents h (HB b))"
  "handle_ok h (HM m) \<Longrightarrow> heap_read h (bm_ptr m) (bm_len m) = Inr (contents h (HM m))"
  by (drule h_slice_contents, simp add: h_slice_def)+

lemma length_contents: "handle_ok h x \<Longrightarrow> length (contents h x) = h_len x"
  using h_slice_contents [of h x] heap_read_length by (simp add: h_slice_def)

section \<open>The invariant\<close>

definition clash :: "handle \<Rightarrow> handle \<Rightarrow> bool" where
  "clash x y \<longleftrightarrow> key x \<noteq> None \<and> key x = key y \<and> (is_mut x \<or> is_mut y) \<and> region x \<inter> region y \<noteq> {}"

definition exclusive :: "handle multiset \<Rightarrow> bool" where
  "exclusive hs \<longleftrightarrow> (\<forall>x y. {#x, y#} \<subseteq># hs \<longrightarrow> \<not> clash x y)"

text \<open>
  \<open>vs\<close> are the buffers that vectors own. Everything allocated is owned by exactly one
  resource or vector, and no allocation is larger than \<open>isize::MAX\<close>.
\<close>

definition separate :: "heap \<Rightarrow> addr set \<Rightarrow> addr set \<Rightarrow> bool" where
  "separate h ks vs \<longleftrightarrow>
     (\<forall>k \<in> ks. \<forall>k' \<in> ks. \<forall>u. res_buf h k = Some u \<longrightarrow> res_buf h k' = Some u \<longrightarrow> k = k') \<and>
     (\<forall>k \<in> ks. \<forall>u. res_buf h k = Some u \<longrightarrow> (u \<in> ks \<longrightarrow> u = k) \<and> u \<notin> vs) \<and>
     ks \<inter> vs = {} \<and> (\<forall>v \<in> vs. \<exists>cs. h v = Some (Buffer cs))"

lemma separateD:
  assumes "separate h ks vs"
  shows "k \<in> ks \<Longrightarrow> k' \<in> ks \<Longrightarrow> res_buf h k = Some u \<Longrightarrow> res_buf h k' = Some u \<Longrightarrow> k = k'"
    "k \<in> ks \<Longrightarrow> res_buf h k = Some u \<Longrightarrow> u \<in> ks \<Longrightarrow> u = k"
    "k \<in> ks \<Longrightarrow> res_buf h k = Some u \<Longrightarrow> u \<notin> vs"
    "k \<in> ks \<Longrightarrow> k \<notin> vs" "v \<in> vs \<Longrightarrow> \<exists>cs. h v = Some (Buffer cs)"
  using assms unfolding separate_def by blast+

lemma separateI:
  assumes "\<And>k k' u. k \<in> ks \<Longrightarrow> res_buf h k = Some u \<Longrightarrow> k' \<in> ks \<Longrightarrow> res_buf h k' = Some u \<Longrightarrow> k = k'"
    "\<And>k u. k \<in> ks \<Longrightarrow> res_buf h k = Some u \<Longrightarrow> u \<in> ks \<Longrightarrow> u = k"
    "\<And>k u. k \<in> ks \<Longrightarrow> res_buf h k = Some u \<Longrightarrow> u \<notin> vs"
    "\<And>k. k \<in> ks \<Longrightarrow> k \<notin> vs" "\<And>v. v \<in> vs \<Longrightarrow> \<exists>cs. h v = Some (Buffer cs)"
  shows "separate h ks vs"
  unfolding separate_def using assms by blast

definition no_leak :: "heap \<Rightarrow> addr set \<Rightarrow> addr set \<Rightarrow> bool" where
  "no_leak h ks vs \<longleftrightarrow>
     (\<forall>a b. h a = Some b \<longrightarrow> (\<exists>bs. b = Static bs) \<or> a \<in> vs \<or> a \<in> ks \<or> (\<exists>k \<in> ks. res_buf h k = Some a))"

definition bounded :: "heap \<Rightarrow> bool" where
  "bounded h \<longleftrightarrow> finite (dom h) \<and> h 0 = None \<and> (\<forall>a cs. cells_of h a = Some cs \<longrightarrow> length cs \<le> isize_max)"

definition bytes_inv :: "heap \<Rightarrow> handle multiset \<Rightarrow> addr set \<Rightarrow> bool" where
  "bytes_inv h hs vs \<longleftrightarrow>
     bounded h \<and> exclusive hs \<and>
     (\<forall>x \<in># hs. handle_ok h x) \<and>
     (\<forall>k \<in> keys hs. res_ok h k \<and> res_count h k = refs hs k) \<and>
     separate h (keys hs) vs \<and> no_leak h (keys hs) vs"

lemma bytes_invD:
  assumes "bytes_inv h hs vs"
  shows "finite (dom h)" "h 0 = None" "x \<in># hs \<Longrightarrow> handle_ok h x"
    "k \<in> keys hs \<Longrightarrow> res_ok h k" "k \<in> keys hs \<Longrightarrow> res_count h k = refs hs k"
    "separate h (keys hs) vs" "no_leak h (keys hs) vs"
    "bounded h" "exclusive hs"
  using assms by (auto simp: bytes_inv_def bounded_def)

lemma bytes_invI:
  assumes "bounded h" "exclusive hs" "\<And>x. x \<in># hs \<Longrightarrow> handle_ok h x"
    "\<And>k. k \<in> keys hs \<Longrightarrow> res_ok h k" "\<And>k. k \<in> keys hs \<Longrightarrow> res_count h k = refs hs k"
    "separate h (keys hs) vs" "no_leak h (keys hs) vs"
  shows "bytes_inv h hs vs"
  using assms by (simp add: bytes_inv_def)

lemma boundedD:
  assumes "bounded h"
  shows "finite (dom h)" "h 0 = None" "h a = Some (Buffer cs) \<Longrightarrow> length cs \<le> isize_max"
    "h a = Some (Static bs) \<Longrightarrow> length bs \<le> isize_max"
proof -
  have cells: "cells_of h a = Some cs \<Longrightarrow> length cs \<le> isize_max" for a cs
    using assms by (simp add: bounded_def)
  show "finite (dom h)" "h 0 = None" using assms by (simp_all add: bounded_def)
  show "h a = Some (Buffer cs) \<Longrightarrow> length cs \<le> isize_max" using cells [of a cs] by (simp add: cells_of_def)
  show "h a = Some (Static bs) \<Longrightarrow> length bs \<le> isize_max" using cells [of a "map Some bs"] by (simp add: cells_of_def)
qed

lemma boundedI:
  assumes "finite (dom h)" "h 0 = None" "\<And>a cs. h a = Some (Buffer cs) \<Longrightarrow> length cs \<le> isize_max"
    "\<And>a bs. h a = Some (Static bs) \<Longrightarrow> length bs \<le> isize_max"
  shows "bounded h"
  using assms by (auto simp: bounded_def cells_of_def split: option.splits block.splits)

lemma block_nonzero: "bytes_inv h hs vs \<Longrightarrow> h a = Some x \<Longrightarrow> a \<noteq> 0"
  by (metis bytes_invD(2) option.distinct(1))

lemma not_vec:
  assumes "bytes_inv h hs vs"
  shows "k \<in> keys hs \<Longrightarrow> k \<notin> vs" "k \<in> keys hs \<Longrightarrow> res_buf h k = Some u \<Longrightarrow> u \<notin> vs" "h a = None \<Longrightarrow> a \<notin> vs"
  using bytes_invD(6) [OF assms] by (auto simp: separate_def)

text \<open>What an operation must leave alone: the contents of other handles, the buffers of vectors, static data\<close>

definition undisturbed :: "heap \<Rightarrow> handle multiset \<Rightarrow> addr set \<Rightarrow> heap \<Rightarrow> bool" where
  "undisturbed h hs vs h' \<longleftrightarrow>
     (\<forall>x \<in># hs. contents h' x = contents h x) \<and> (\<forall>v \<in> vs. h' v = h v) \<and>
     (\<forall>a bs. h' a = Some (Static bs) \<longleftrightarrow> h a = Some (Static bs))"

lemma undisturbed_refl [simp]: "undisturbed h hs vs h"
  by (simp add: undisturbed_def)

lemma undisturbed_trans:
  "undisturbed h hs vs h1 \<Longrightarrow> undisturbed h1 hs vs h2 \<Longrightarrow> undisturbed h hs vs h2"
  by (simp add: undisturbed_def)

lemma undisturbed_mono:
  "undisturbed h hs vs h' \<Longrightarrow> hs' \<subseteq># hs \<Longrightarrow> vs' \<subseteq> vs \<Longrightarrow> undisturbed h hs' vs' h'"
  by (auto simp: undisturbed_def dest: mset_subset_eqD)

lemma undisturbed_fewer: "undisturbed h hs vs h' \<Longrightarrow> vs' \<subseteq> vs \<Longrightarrow> undisturbed h hs vs' h'"
  by (auto simp: undisturbed_def)

lemma keys_add [simp]: "keys (add_mset b hs) = set_option (key b) \<union> keys hs"
  by (auto simp: keys_def)

lemma keys_empty [simp]: "keys {#} = {}"
  by (simp add: keys_def)

lemma refs_add [simp]: "refs (add_mset b hs) k = (if key b = Some k then Suc (refs hs k) else refs hs k)"
  by (simp add: refs_def)

lemma refs_zero_iff: "refs hs k = 0 \<longleftrightarrow> k \<notin> keys hs"
  by (auto simp: refs_def keys_def filter_mset_eq_conv)

lemma clash_sym: "clash x y \<longleftrightarrow> clash y x"
  by (auto simp: clash_def)

lemma exclusive_empty [simp]: "exclusive {#}"
  by (simp add: exclusive_def)

lemma exclusive_add [simp]: "exclusive (add_mset x hs) \<longleftrightarrow> exclusive hs \<and> (\<forall>y \<in># hs. \<not> clash x y)"
proof
  assume ex: "exclusive (add_mset x hs)"
  have "{#a, b#} \<subseteq># add_mset x hs" if "{#a, b#} \<subseteq># hs" for a b
    using that by (meson mset_subset_eq_add_right subset_mset.order_trans mset_subset_eq_insertD multi_psub_of_add_self subset_mset.less_imp_le)
  moreover have "{#x, y#} \<subseteq># add_mset x hs" if "y \<in># hs" for y using that by simp
  ultimately show "exclusive hs \<and> (\<forall>y \<in># hs. \<not> clash x y)" using ex by (auto simp: exclusive_def)
next
  assume ex: "exclusive hs \<and> (\<forall>y \<in># hs. \<not> clash x y)"
  show "exclusive (add_mset x hs)"
    unfolding exclusive_def
  proof (intro allI impI)
    fix a b assume ab: "{#a, b#} \<subseteq># add_mset x hs"
    show "\<not> clash a b"
    proof (cases "a = x \<or> b = x")
      case True
      with ab have "a = x \<and> b \<in># hs \<or> b = x \<and> a \<in># hs" by (auto simp: add_mset_commute [of a b])
      with ex show ?thesis using clash_sym by blast
    next
      case False
      with ab have "{#a, b#} \<subseteq># hs" by (auto simp: insert_subset_eq_iff)
      with ex show ?thesis by (simp add: exclusive_def)
    qed
  qed
qed

lemma exclusive_union:
  "exclusive (hs + hs') \<longleftrightarrow> exclusive hs \<and> exclusive hs' \<and> (\<forall>x \<in># hs. \<forall>y \<in># hs'. \<not> clash x y)"
  by (induction hs) auto

end
