(* ===== verification/Bytes_Frame.thy ===== *)
theory Bytes_Frame
  imports Bytes_Inv
begin

unbundle bit_operations_syntax

text \<open>
  How the invariant of \<open>Bytes_Inv\<close> moves: what it depends on, and the changes of the heap and
  of the handles that keep it. Every operation of \<open>Bytes\<close> and \<open>BytesMut\<close> is a
  composition of these.
\<close>

section \<open>What the invariant depends on\<close>

text \<open>Blocks up to the value of their reference count\<close>

fun strip :: "block \<Rightarrow> block" where
  "strip (Shared s) = Shared (s\<lparr>sh_ref_cnt := 0\<rparr>)"
| "strip (Owned ow) = Owned (ow\<lparr>ow_ref_cnt := 0\<rparr>)"
| "strip (Shared_V s) = Shared_V (s\<lparr>sv_ref_count := 0\<rparr>)"
| "strip b = b"

definition agree :: "addr set \<Rightarrow> heap \<Rightarrow> heap \<Rightarrow> bool" where
  "agree A h h' \<longleftrightarrow> (\<forall>a \<in> A. map_option strip (h' a) = map_option strip (h a))"

lemma strip_eq_Buffer [simp]: "strip b = Buffer cs \<longleftrightarrow> b = Buffer cs"
  by (cases b) auto

lemma strip_eq_Static [simp]: "strip b = Static bs \<longleftrightarrow> b = Static bs"
  by (cases b) auto

lemma map_strip_simps [simp]:
  "map_option strip x = Some (Buffer cs) \<longleftrightarrow> x = Some (Buffer cs)"
  "map_option strip x = Some (Static bs) \<longleftrightarrow> x = Some (Static bs)"
  by (cases x; simp)+

lemma agreeD_Buffer: "agree A h h' \<Longrightarrow> a \<in> A \<Longrightarrow> h' a = Some (Buffer cs) \<longleftrightarrow> h a = Some (Buffer cs)"
  unfolding agree_def by (metis map_strip_simps(1))

lemma agreeD_Static: "agree A h h' \<Longrightarrow> a \<in> A \<Longrightarrow> h' a = Some (Static bs) \<longleftrightarrow> h a = Some (Static bs)"
  unfolding agree_def by (metis map_strip_simps(2))

lemma agreeD_None: "agree A h h' \<Longrightarrow> a \<in> A \<Longrightarrow> h' a = None \<longleftrightarrow> h a = None"
  unfolding agree_def by (metis option.map_disc_iff)

lemma agree_mono: "agree A h h' \<Longrightarrow> B \<subseteq> A \<Longrightarrow> agree B h h'"
  by (auto simp: agree_def)

lemma agree_eq: "(\<And>a. a \<in> A \<Longrightarrow> h' a = h a) \<Longrightarrow> agree A h h'"
  by (simp add: agree_def)

lemma strip_cases:
  assumes "strip b' = strip b"
  obtains (Static) bs where "b = Static bs" "b' = Static bs"
    | (Buffer) cs where "b = Buffer cs" "b' = Buffer cs"
    | (Shared) s s' where "b = Shared s" "b' = Shared s'" "sh_buf s' = sh_buf s" "sh_cap s' = sh_cap s"
    | (Owned) ow ow' where "b = Owned ow" "b' = Owned ow'" "ow_owner ow' = ow_owner ow"
    | (Shared_V) s s' where "b = Shared_V s" "b' = Shared_V s'" "sv_vec s' = sv_vec s"
        "sv_original_capacity_repr s' = sv_original_capacity_repr s"
proof (cases b)
  case (Shared s)
  with assms obtain s' where "b' = Shared s'" "s'\<lparr>sh_ref_cnt := 0\<rparr> = s\<lparr>sh_ref_cnt := 0\<rparr>" by (cases b') auto
  with Shared that(3) show thesis by (cases s; cases s') auto
next
  case (Owned ow)
  with assms obtain ow' where "b' = Owned ow'" "ow'\<lparr>ow_ref_cnt := 0\<rparr> = ow\<lparr>ow_ref_cnt := 0\<rparr>" by (cases b') auto
  with Owned that(4) show thesis by (cases ow; cases ow') auto
next
  case (Shared_V s)
  with assms obtain s' where "b' = Shared_V s'" "s'\<lparr>sv_ref_count := 0\<rparr> = s\<lparr>sv_ref_count := 0\<rparr>" by (cases b') auto
  with Shared_V that(5) show thesis by (cases s; cases s') auto
qed (use assms that in auto)

lemma agree_cases:
  assumes "agree A h h'" "a \<in> A"
  obtains (None) "h a = None" "h' a = None"
    | (Static) bs where "h a = Some (Static bs)" "h' a = Some (Static bs)"
    | (Buffer) cs where "h a = Some (Buffer cs)" "h' a = Some (Buffer cs)"
    | (Shared) s s' where "h a = Some (Shared s)" "h' a = Some (Shared s')"
        "sh_buf s' = sh_buf s" "sh_cap s' = sh_cap s"
    | (Owned) ow ow' where "h a = Some (Owned ow)" "h' a = Some (Owned ow')" "ow_owner ow' = ow_owner ow"
    | (Shared_V) s s' where "h a = Some (Shared_V s)" "h' a = Some (Shared_V s')" "sv_vec s' = sv_vec s"
        "sv_original_capacity_repr s' = sv_original_capacity_repr s"
proof (cases "h a")
  case None
  with agreeD_None [OF assms] that(1) show thesis by simp
next
  case (Some b)
  with assms have "map_option strip (h' a) = Some (strip b)" by (simp add: agree_def)
  then obtain b' where b': "h' a = Some b'" "strip b' = strip b" by auto
  from b'(2) show thesis by (cases rule: strip_cases) (use Some b'(1) that in auto)
qed

lemma agree_cells_of: "agree A h h' \<Longrightarrow> a \<in> A \<Longrightarrow> cells_of h' a = cells_of h a"
  by (erule (1) agree_cases) (simp_all add: cells_of_def)

lemma agree_res_buf: "agree A h h' \<Longrightarrow> k \<in> A \<Longrightarrow> res_buf h' k = res_buf h k"
  by (erule (1) agree_cases) (simp_all add: res_buf_def)

lemma agree_res_ok:
  assumes "agree A h h'" "k \<in> A" "set_option (res_buf h k) \<subseteq> A" "res_ok h k"
  shows "res_ok h' k"
  using assms(1,2)
proof (cases rule: agree_cases)
  case (Shared s s')
  with assms agreeD_Buffer [OF assms(1)] show ?thesis by (auto simp: res_ok_def res_buf_def)
next
  case (Owned ow ow')
  with assms agreeD_Buffer [OF assms(1)] show ?thesis by (auto simp: res_ok_def res_buf_def)
next
  case (Shared_V s s')
  with assms agreeD_Buffer [OF assms(1)] show ?thesis by (auto simp: res_ok_def res_buf_def split: if_splits)
qed (use assms(4) in \<open>simp_all add: res_ok_def\<close>)

lemma agree_lies:
  assumes "agree A h h'" "k \<in> A" "blk (h_ptr x) \<in> A" "lies h x k"
  shows "lies h' x k"
  using assms(1,2)
proof (cases rule: agree_cases)
  case (Shared s s')
  with assms agreeD_Buffer [OF assms(1,3)] show ?thesis by (auto simp: lies_def)
next
  case (Shared_V s s')
  with assms agreeD_Buffer [OF assms(1,3)] show ?thesis by (auto simp: lies_def Let_def split: if_splits)
qed (use assms(4) in \<open>simp_all add: lies_def\<close>)

text \<open>The blocks a handle depends on\<close>

definition footprint :: "handle \<Rightarrow> addr set" where
  "footprint x = insert (blk (h_ptr x)) (set_option (key x))"

lemma agree_slice: "agree A h h' \<Longrightarrow> blk (h_ptr x) \<in> A \<Longrightarrow> h_slice h' x = h_slice h x"
  by (simp add: h_slice_def heap_read_def agree_cells_of)

lemma agree_contents: "agree (footprint x) h h' \<Longrightarrow> contents h' x = contents h x"
  by (simp add: contents_def agree_slice footprint_def)

lemma agree_block_kinds:
  assumes "agree A h h'" "a \<in> A"
  shows "(\<exists>cs. h' a = Some (Buffer cs)) \<longleftrightarrow> (\<exists>cs. h a = Some (Buffer cs))"
    "(\<exists>bs. h' a = Some (Static bs)) \<longleftrightarrow> (\<exists>bs. h a = Some (Static bs))"
    "(\<exists>s. h' a = Some (Shared s)) \<longleftrightarrow> (\<exists>s. h a = Some (Shared s))"
    "(\<exists>ow. h' a = Some (Owned ow)) \<longleftrightarrow> (\<exists>ow. h a = Some (Owned ow))"
    "(\<exists>s. h' a = Some (Shared_V s)) \<longleftrightarrow> (\<exists>s. h a = Some (Shared_V s))"
  by (rule agree_cases [OF assms]; simp)+

lemma agree_kind_ok:
  assumes "agree (footprint x) h h'" "kind_ok h x"
  shows "kind_ok h' x"
proof (cases x)
  case (HB b)
  have p: "blk (b_ptr b) \<in> footprint x" using HB by (simp add: footprint_def)
  show ?thesis
  proof (cases "b_vtable b = STATIC_VTABLE")
    case True
    with assms(2) HB agree_block_kinds(2) [OF assms(1) p] show ?thesis by simp
  next
    case False
    then have "blk (b_data b) \<in> footprint x" using HB by (simp add: footprint_def)
    from False assms(2) HB agree_block_kinds [OF assms(1) this] show ?thesis
      by (cases "b_vtable b") (simp_all add: Let_def)
  qed
next
  case (HM m)
  have p: "blk (bm_ptr m) \<in> footprint x" using HM by (simp add: footprint_def)
  have "kind m \<noteq> KIND_VEC \<Longrightarrow> blk (bm_data m) \<in> footprint x" using HM by (simp add: footprint_def)
  with assms(2) HM agree_block_kinds(1) [OF assms(1) p] agree_block_kinds(5) [OF assms(1)] show ?thesis
    by (auto split: if_splits)
qed

lemma agree_handle_ok:
  assumes agree: "agree (footprint x) h h'" and ok: "handle_ok h x"
  shows "handle_ok h' x"
proof -
  have p: "blk (h_ptr x) \<in> footprint x" by (simp add: footprint_def)
  have k: "k \<in> footprint x" if "key x = Some k" for k using that by (simp add: footprint_def)
  have "res_buf h' k = buf_of x \<and> lies h' x k" if "key x = Some k" for k
    using ok that agree_res_buf [OF agree k [OF that]] agree_lies [OF agree k [OF that] p] by (simp add: handle_ok_def)
  then show ?thesis using ok agree_kind_ok [OF agree] agree_slice [OF agree p] by (simp add: handle_ok_def)
qed

text \<open>What does not touch the changed blocks is as before.\<close>

lemma frame_handle:
  assumes "\<forall>a. a \<notin> T \<longrightarrow> h' a = h a" "footprint c \<inter> T = {}"
  shows "contents h' c = contents h c" "handle_ok h c \<Longrightarrow> handle_ok h' c"
proof -
  have "agree (footprint c) h h'" by (rule agree_eq) (use assms in blast)
  then show "contents h' c = contents h c" "handle_ok h c \<Longrightarrow> handle_ok h' c"
    by (rule agree_contents, rule agree_handle_ok)
qed

lemma frame_resource:
  assumes "\<forall>a. a \<notin> T \<longrightarrow> h' a = h a" "k \<notin> T"
  shows "res_buf h' k = res_buf h k" "res_count h' k = res_count h k"
    "res_ok h k \<Longrightarrow> (\<And>u. res_buf h k = Some u \<Longrightarrow> u \<notin> T) \<Longrightarrow> res_ok h' k"
proof -
  show "res_buf h' k = res_buf h k" "res_count h' k = res_count h k"
    using assms by (simp_all add: res_buf_def res_count_def)
  assume ok: "res_ok h k" and u: "\<And>u. res_buf h k = Some u \<Longrightarrow> u \<notin> T"
  show "res_ok h' k"
    by (rule agree_res_ok [where A = "- T"]) (use assms ok u in \<open>auto intro: agree_eq\<close>)
qed

section \<open>Facts about one handle\<close>

lemma key_resource:
  assumes "bytes_inv h hs vs" "c \<in># hs" "key c = Some k"
  shows "k \<in> keys hs" "res_buf h k = buf_of c" "h k \<noteq> None" "k \<noteq> 0"
    "buf_of c = Some u \<Longrightarrow> \<exists>cs. h u = Some (Buffer cs)" "h k \<noteq> Some (Static bs)" "lies h c k" "res_ok h k"
proof -
  show k: "k \<in> keys hs" using assms by (auto simp: keys_def)
  show rb: "res_buf h k = buf_of c" and "lies h c k"
    using bytes_invD(3) [OF assms(1,2)] assms(3) by (simp_all add: handle_ok_def)
  show ok: "res_ok h k" using bytes_invD(4) [OF assms(1) k] .
  then show a: "h k \<noteq> None" "h k \<noteq> Some (Static bs)" using res_ok_allocated res_ok_not_static by blast+
  then show "k \<noteq> 0" using block_nonzero [OF assms(1), of k] by blast
  from ok rb show "buf_of c = Some u \<Longrightarrow> \<exists>cs. h u = Some (Buffer cs)" using res_ok_buffer by metis
qed

lemma keyless_block:
  assumes "bytes_inv h hs vs" "c \<in># hs" "key c = None"
  shows "h (blk (h_ptr c)) = None \<or> (\<exists>bs. h (blk (h_ptr c)) = Some (Static bs))"
  using bytes_invD(2) [OF assms(1)] bytes_invD(3) [OF assms(1,2)] assms(3)
  by (cases c) (auto simp: handle_ok_def dangling_def split: if_splits)

lemma footprint_allocated:
  assumes "bytes_inv h hs vs" "c \<in># hs" "a \<in> footprint c"
  shows "h a \<noteq> None \<or> a = 0"
proof (cases "key c")
  case None
  then have "a = blk (h_ptr c)" using assms(3) by (simp add: footprint_def)
  with None bytes_invD(3) [OF assms(1,2)] show ?thesis
    by (cases c) (auto simp: handle_ok_def dangling_def split: if_splits)
next
  case (Some k)
  with key_resource(3,5) [OF assms(1,2) Some] assms(3) show ?thesis by (auto simp: footprint_def buf_of_def)
qed

text \<open>Handles of other resources do not touch a resource or its buffer.\<close>

lemma footprint_disjoint:
  assumes inv: "bytes_inv h hs vs" and k: "k \<in> keys hs" "U = set_option (res_buf h k)" and c: "c \<in># hs" "key c \<noteq> Some k"
  shows "footprint c \<inter> insert k U = {}"
proof -
  have ok: "res_ok h k" using inv k(1) by (rule bytes_invD)
  have kU: "h a \<noteq> None \<and> (\<forall>bs. h a \<noteq> Some (Static bs))" if "a \<in> insert k U" for a
    using that res_ok_allocated [OF ok] res_ok_not_static [OF ok] res_ok_buffer [OF ok] k(2) by auto
  have p: "blk (h_ptr c) \<notin> insert k U" if "key c = None"
    using keyless_block [OF inv c(1) that] kU by blast
  show ?thesis
  proof (cases "key c")
    case None
    with p show ?thesis by (auto simp: footprint_def)
  next
    case (Some k')
    note r = key_resource [OF inv c(1) Some]
    have ne: "k' \<noteq> k" using Some c(2) by simp
    have sep: "separate h (keys hs) vs" using inv by (rule bytes_invD)
    have "blk (h_ptr c) \<notin> insert k U"
    proof (cases "blk (h_ptr c) = 0")
      case True
      with kU block_nonzero [OF inv] show ?thesis by (metis not_None_eq)
    next
      case False
      then have rb: "res_buf h k' = Some (blk (h_ptr c))" using r(2) by (simp add: buf_of_def)
      with sep r(1) k ne show ?thesis unfolding separate_def by (metis insertE option.set_cases)
    qed
    moreover have "k' \<notin> U" using sep r(1) k ne unfolding separate_def by (metis option.set_cases)
    ultimately show ?thesis using Some ne by (auto simp: footprint_def)
  qed
qed

end
