(* ===== verification/Bytes_Moves.thy ===== *)
theory Bytes_Moves
  imports Bytes_Frame
begin

unbundle bit_operations_syntax

text \<open>The changes of the heap and of the handles that keep the invariant.\<close>

section \<open>Handles\<close>

text \<open>Reference counts change, the handles of every resource with them.\<close>

lemma inv_recount:
  assumes inv: "bytes_inv h hs vs" and agree: "agree UNIV h h'" and keys: "keys hs' = keys hs" and ex: "exclusive hs'"
    and handles: "\<And>x. x \<in># hs' \<Longrightarrow> handle_ok h x"
    and counts: "\<And>k. k \<in> keys hs \<Longrightarrow> res_count h' k = refs hs' k"
  shows "bytes_inv h' hs' vs"
proof (rule bytes_invI)
  note rb = agree_res_buf [OF agree UNIV_I] and none = agreeD_None [OF agree UNIV_I]
  have dom: "dom h' = dom h" using none by (auto simp: dom_def)
  show "bounded h'" using bytes_invD(8) [OF inv] none dom agree_cells_of [OF agree UNIV_I] by (simp add: bounded_def)
  show "separate h' (keys hs') vs"
    using bytes_invD(6) [OF inv] agreeD_Buffer [OF agree UNIV_I] by (simp add: separate_def rb keys)
  show "no_leak h' (keys hs') vs"
    unfolding no_leak_def rb keys
  proof (intro allI impI)
    fix a b assume a: "h' a = Some b"
    with none have "\<exists>b0. h a = Some b0" by (metis not_None_eq)
    then obtain b0 where b0: "h a = Some b0" by blast
    from bytes_invD(7) [OF inv] b0 agreeD_Static [OF agree UNIV_I, of a] a
    show "(\<exists>bs. b = Static bs) \<or> a \<in> vs \<or> a \<in> keys hs \<or> (\<exists>k\<in>keys hs. res_buf h k = Some a)"
      unfolding no_leak_def by (metis option.inject)
  qed
  show "res_ok h' k" if "k \<in> keys hs'" for k
    using agree_res_ok [OF agree UNIV_I _ bytes_invD(4) [OF inv]] that keys by simp
  show "handle_ok h' x" if "x \<in># hs'" for x
    using agree_handle_ok [OF agree_mono [OF agree subset_UNIV] handles [OF that]] .
qed (use ex counts keys in auto)

text \<open>A handle is replaced by another view into the same part of the same buffer.\<close>

lemma inv_reslice:
  assumes inv: "bytes_inv h (add_mset x hs) vs" and x': "key x' = key x" "handle_ok h x'"
    and "region x' \<subseteq> region x" "is_mut x' \<Longrightarrow> is_mut x"
  shows "bytes_inv h (add_mset x' hs) vs"
proof (rule inv_recount [OF inv])
  have "clash x' y \<Longrightarrow> clash x y" for y using assms(2,4,5) by (auto simp: clash_def)
  then show "exclusive (add_mset x' hs)" using bytes_invD(9) [OF inv] by auto
qed (use inv x' in \<open>auto simp: agree_def bytes_inv_def\<close>)

text \<open>Handles without a key own nothing.\<close>

lemma inv_keyless:
  "key x = None \<Longrightarrow> handle_ok h x \<Longrightarrow> bytes_inv h (add_mset x hs) vs \<longleftrightarrow> bytes_inv h hs vs"
  by (auto simp: bytes_inv_def clash_def)

section \<open>Releasing\<close>

text \<open>
  The last handle of a resource goes: its buffer is freed, or goes to a vector with
  whatever contents, and the resource is freed.
\<close>

definition given_up :: "heap \<Rightarrow> addr set \<Rightarrow> addr set \<Rightarrow> addr set \<Rightarrow> bool" where
  "given_up h' U vs vs' \<longleftrightarrow>
     (\<forall>u \<in> U. h' u = None) \<and> vs' = vs \<or>
     (\<forall>u \<in> U. \<exists>cs. h' u = Some (Buffer cs) \<and> length cs \<le> isize_max) \<and> vs' = U \<union> vs"

lemma separate_release:
  assumes sep: "separate h (insert k ks) vs" and k: "k \<notin> ks" "U = set_option (res_buf h k)"
    and same: "\<forall>a. a \<notin> insert k U \<longrightarrow> h' a = h a" and buf: "given_up h' U vs vs'"
  shows "k' \<in> ks \<Longrightarrow> k' \<notin> insert k U" "k' \<in> ks \<Longrightarrow> res_buf h k' = Some w \<Longrightarrow> w \<notin> insert k U" "separate h' ks vs'"
proof -
  have Uk: "res_buf h k = Some u" if "u \<in> U" for u using that k(2) by (simp add: elem_set)
  have u: "U \<inter> ks = {}" "U \<inter> vs = {}" using separateD(2,3) [OF sep insertI1 Uk] k(1) by blast+
  show out: "k' \<in> ks \<Longrightarrow> k' \<notin> insert k U" for k' using u(1) k(1) by auto
  show buf_out: "k' \<in> ks \<Longrightarrow> res_buf h k' = Some w \<Longrightarrow> w \<notin> insert k U" for k' w
  proof
    fix k' w assume k': "k' \<in> ks" "res_buf h k' = Some w" and "w \<in> insert k U"
    then have "w \<in> U" using separateD(2) [OF sep, of k' w] k(1) by auto
    then have "res_buf h k = Some w" by (rule Uk)
    with k' separateD(1) [OF sep, of k' k w] k(1) show False by auto
  qed
  have rb: "res_buf h' k' = res_buf h k'" if "k' \<in> ks" for k'
    using frame_resource(1) [OF same out [OF that]] .
  show "separate h' ks vs'"
    unfolding separate_def
  proof (intro conjI ballI allI impI)
    fix k1 k2 w assume "k1 \<in> ks" "k2 \<in> ks" "res_buf h' k1 = Some w" "res_buf h' k2 = Some w"
    then show "k1 = k2" using separateD(1) [OF sep, of k1 k2 w] rb by simp
  next
    fix k1 w assume k1: "k1 \<in> ks" "res_buf h' k1 = Some w"
    then have rbw: "res_buf h k1 = Some w" using rb by simp
    then have w: "w \<notin> vs" "w \<in> ks \<longrightarrow> w = k1" using k1(1) sep unfolding separate_def by auto
    then show "w \<notin> vs'" using buf buf_out [OF k1(1) rbw] by (auto simp: given_up_def)
    show "w \<in> ks \<Longrightarrow> w = k1" using w(2) by simp
  next
    show "ks \<inter> vs' = {}" using sep buf u(1) unfolding separate_def given_up_def by auto
  next
    fix v assume v: "v \<in> vs'"
    show "\<exists>cs. h' v = Some (Buffer cs)"
    proof (cases "v \<in> vs")
      case True
      then have "v \<notin> insert k U" using sep u(2) unfolding separate_def by auto
      with True same sep show ?thesis unfolding separate_def by auto
    qed (use v buf in \<open>auto simp: given_up_def\<close>)
  qed
qed

lemma no_leak_release:
  assumes leak: "no_leak h (insert k ks) vs" and k: "U = set_option (res_buf h k)"
    and same: "\<forall>a. a \<notin> insert k U \<longrightarrow> h' a = h a" and gone: "k \<notin> U \<Longrightarrow> h' k = None"
    and buf: "given_up h' U vs vs'" and rb: "\<And>k'. k' \<in> ks \<Longrightarrow> res_buf h' k' = res_buf h k'"
  shows "no_leak h' ks vs'"
  unfolding no_leak_def
proof (intro allI impI)
  fix a x assume a: "h' a = Some x"
  show "(\<exists>bs. x = Static bs) \<or> a \<in> vs' \<or> a \<in> ks \<or> (\<exists>k\<in>ks. res_buf h' k = Some a)"
  proof (cases "a \<in> insert k U")
    case True
    with a gone have "a \<in> U" by (cases "k \<in> U") auto
    with a buf show ?thesis by (auto simp: given_up_def)
  next
    case False
    with same a have "h a = Some x" by simp
    moreover have "vs \<subseteq> vs'" using buf by (auto simp: given_up_def)
    ultimately consider bs where "x = Static bs" | "a \<in> vs'" | "a \<in> ks" | k' where "k' \<in> ks" "res_buf h k' = Some a"
      using leak [unfolded no_leak_def, rule_format, of a x] False k by (auto simp: elem_set)
    then show ?thesis using rb by cases auto
  qed
qed

lemma bounded_change:
  assumes "bounded h" "finite T" "\<forall>a. a \<notin> T \<longrightarrow> h' a = h a" "0 \<notin> T"
    and "\<And>a. a \<in> T \<Longrightarrow> h' a = None \<or> h' a = h a \<or> (\<exists>cs. h' a = Some (Buffer cs) \<and> length cs \<le> isize_max) \<or> cells_of h' a = None"
  shows "bounded h'"
proof (rule boundedI)
  show "finite (dom h')"
  proof (rule finite_subset)
    show "dom h' \<subseteq> T \<union> dom h" using assms(3) by (auto simp: dom_def)
  qed (use assms(2) boundedD(1) [OF assms(1)] in simp)
  show "h' 0 = None" using assms(3,4) boundedD(2) [OF assms(1)] by simp
  show "length cs \<le> isize_max" if "h' a = Some (Buffer cs)" for a cs
    using that boundedD(3) [OF assms(1), of a cs] assms(3) assms(5) [of a] by (cases "a \<in> T") (auto simp: cells_of_def)
  show "length cs \<le> isize_max" if "h' a = Some (Static cs)" for a cs
    using that boundedD(4) [OF assms(1), of a cs] assms(3) assms(5) [of a] by (cases "a \<in> T") (auto simp: cells_of_def)
qed

lemma inv_release:
  assumes inv: "bytes_inv h (add_mset b hs) vs" and k: "key b = Some k" "k \<notin> keys hs" and U: "U = set_option (buf_of b)"
    and same: "\<forall>a. a \<notin> insert k U \<longrightarrow> h' a = h a" and gone: "k \<notin> U \<Longrightarrow> h' k = None"
    and buf: "given_up h' U vs vs'"
  shows "bytes_inv h' hs vs'" "c \<in># hs \<Longrightarrow> contents h' c = contents h c"
proof -
  let ?H = "add_mset b hs"
  have b: "b \<in># ?H" by simp
  note bk = key_resource [OF inv b k(1)]
  have U': "U = set_option (res_buf h k)" using bk(2) U by simp
  have keq: "keys ?H = insert k (keys hs)" using k by simp
  have sep: "separate h (insert k (keys hs)) vs" and leak: "no_leak h (insert k (keys hs)) vs"
    using bytes_invD(6,7) [OF inv] keq by simp_all
  note rel = separate_release [OF sep k(2) U' same buf]
  have fp: "footprint c \<inter> insert k U = {}" if "c \<in># hs" for c
  proof (rule footprint_disjoint [OF inv bk(1) U'])
    show "key c \<noteq> Some k" using that k(2) by (auto simp: keys_def)
  qed (use that in simp)
  show "c \<in># hs \<Longrightarrow> contents h' c = contents h c" using frame_handle(1) [OF same fp] .
  have out: "k' \<notin> insert k U" if "k' \<in> keys hs" for k' using rel(1) [OF that] .
  note res = frame_resource [OF same out]
  show "bytes_inv h' hs vs'"
  proof (rule bytes_invI)
    show "bounded h'"
    proof (rule bounded_change [OF bytes_invD(8) [OF inv] _ same])
      show "0 \<notin> insert k U" using bk(4) U by (auto simp: buf_of_def)
      show "a \<in> insert k U \<Longrightarrow> h' a = None \<or> h' a = h a \<or> (\<exists>cs. h' a = Some (Buffer cs) \<and> length cs \<le> isize_max) \<or> cells_of h' a = None" for a
        using gone buf by (cases "a \<in> U") (auto simp: given_up_def)
    qed (simp add: U')
    show "exclusive hs" using bytes_invD(9) [OF inv] by simp
    show "res_ok h' k'" if "k' \<in> keys hs" for k'
      using res(3) [OF that] rel(2) [OF that] bytes_invD(4) [OF inv, of k'] that keq by blast
    show "res_count h' k' = refs hs k'" if "k' \<in> keys hs" for k'
      using res(2) [OF that] bytes_invD(5) [OF inv, of k'] that k keq by auto
    show "handle_ok h' c" if "c \<in># hs" for c
      using frame_handle(2) [OF same fp [OF that]] bytes_invD(3) [OF inv, of c] that by simp
    show "separate h' (keys hs) vs'" by (rule rel(3))
    show "no_leak h' (keys hs) vs'" by (rule no_leak_release [OF leak U' same gone buf res(1)])
  qed
qed

section \<open>Acquiring\<close>

text \<open>
  A new resource takes over the buffer of a vector, with handles that all belong to it. (A vector
  without capacity has no buffer.)
\<close>

lemma separate_acquire:
  assumes sep: "separate h ks vs" and u: "set_option ub \<subseteq> vs" and k: "h' = h \<and> ub = Some k \<or> h k = None"
    and same: "\<And>a. a \<noteq> k \<or> h a \<noteq> None \<Longrightarrow> h' a = h a" and rbk: "res_buf h' k = ub"
    and rb: "\<And>k'. k' \<in> ks \<Longrightarrow> res_buf h' k' = res_buf h k' \<and> res_buf h k' \<noteq> Some k"
  shows "separate h' (insert k ks) (vs - set_option ub)"
  unfolding separate_def
proof (intro conjI ballI allI impI)
  have rbu: "res_buf h k' = Some w \<Longrightarrow> ub \<noteq> Some w" if "k' \<in> ks" for k' w
    using separateD(3) [OF sep that, of w] u by auto
  have one: "k1 = k2" if "k1 \<in> ks" "k2 \<in> insert k ks" "res_buf h' k1 = Some w" "res_buf h' k2 = Some w" for k1 k2 w
  proof (cases "k2 \<in> ks")
    case True
    with that rb separateD(1) [OF sep, of k1 k2 w] show ?thesis by simp
  next
    case False
    with that rb [OF that(1)] rbu [OF that(1), of w] rbk show ?thesis by auto
  qed
  fix k1 k2 w assume "k1 \<in> insert k ks" "k2 \<in> insert k ks" "res_buf h' k1 = Some w" "res_buf h' k2 = Some w"
  then show "k1 = k2" using one [of k1 k2 w] one [of k2 k1 w] by auto
next
  fix k1 w assume k1: "k1 \<in> insert k ks" "res_buf h' k1 = Some w"
  show "w \<notin> vs - set_option ub"
  proof (cases "k1 = k")
    case True
    with k1 rbk show ?thesis by auto
  next
    case False
    with k1 rb sep show ?thesis unfolding separate_def by auto
  qed
  assume w: "w \<in> insert k ks"
  show "w = k1"
  proof (cases "k1 = k")
    case True
    with k1 rbk u have "w \<in> vs" by auto
    with w sep True show ?thesis unfolding separate_def by auto
  next
    case False
    with k1 rb w sep show ?thesis unfolding separate_def by auto
  qed
next
  show "insert k ks \<inter> (vs - set_option ub) = {}" using sep k unfolding separate_def by fastforce
next
  fix v assume v: "v \<in> vs - set_option ub"
  then have "\<exists>cs. h v = Some (Buffer cs)" using sep unfolding separate_def by auto
  then obtain cs where "h v = Some (Buffer cs)" by blast
  moreover from this have "h' v = h v" by (intro same) simp
  ultimately show "\<exists>cs. h' v = Some (Buffer cs)" by simp
qed

lemma no_leak_acquire:
  assumes leak: "no_leak h ks vs" and rbk: "res_buf h' k = ub"
    and same: "\<And>a. a \<noteq> k \<or> h a \<noteq> None \<Longrightarrow> h' a = h a"
    and rb: "\<And>k'. k' \<in> ks \<Longrightarrow> res_buf h' k' = res_buf h k' \<and> res_buf h k' \<noteq> Some k"
  shows "no_leak h' (insert k ks) (vs - set_option ub)"
  unfolding no_leak_def
proof (intro allI impI)
  fix a x assume a: "h' a = Some x"
  show "(\<exists>bs. x = Static bs) \<or> a \<in> vs - set_option ub \<or> a \<in> insert k ks \<or> (\<exists>k'\<in>insert k ks. res_buf h' k' = Some a)"
  proof (cases "a = k \<or> ub = Some a")
    case True
    with rbk show ?thesis by blast
  next
    case False
    with a same [of a] have "h a = Some x" by simp
    then consider bs where "x = Static bs" | "a \<in> vs" | "a \<in> ks" | k' where "k' \<in> ks" "res_buf h k' = Some a"
      using leak unfolding no_leak_def by blast
    then show ?thesis using rb False by cases (auto simp: elem_set)
  qed
qed

lemma keys_refs_acquire:
  assumes new: "new \<noteq> {#}" "\<forall>c \<in># new. key c = Some k" and k: "k \<notin> keys hs"
  shows "keys (new + hs) = insert k (keys hs)" "refs (new + hs) k' = (if k' = k then size new else refs hs k')"
proof -
  from new(1) obtain c0 where "c0 \<in># new" by blast
  with new(2) show "keys (new + hs) = insert k (keys hs)" by (auto simp: keys_def)
  have "filter_mset (\<lambda>b. key b = Some k') new = (if k' = k then new else {#})"
    using new(2) by (auto simp: filter_mset_eq_conv)
  moreover have "refs hs k = 0" using k by (simp add: refs_zero_iff)
  ultimately show "refs (new + hs) k' = (if k' = k then size new else refs hs k')" by (simp add: refs_def)
qed

lemma acquire_outside:
  assumes inv: "bytes_inv h hs vs" and ub: "set_option ub \<subseteq> vs"
    and h': "h' = h \<and> ub = Some k \<or> h k = None \<and> 0 < k \<and> (\<exists>x. h' = h(k \<mapsto> x))"
  shows "k \<notin> keys hs" "k' \<in> keys hs \<Longrightarrow> res_buf h k' \<noteq> Some k" "h k = None \<Longrightarrow> 0 < k"
proof -
  have sep: "separate h (keys hs) vs" using inv by (rule bytes_invD)
  have alloc: "h k' \<noteq> None" if "k' \<in> keys hs" for k' using bytes_invD(4) [OF inv that] res_ok_allocated by blast
  have kvs: "h' = h \<Longrightarrow> ub = Some k \<Longrightarrow> k \<in> vs" using ub by simp
  show "k \<notin> keys hs" using h' alloc sep kvs unfolding separate_def by blast
  have "h k \<noteq> None" if "h' = h" "ub = Some k" using kvs [OF that] sep unfolding separate_def by auto
  then show "h k = None \<Longrightarrow> 0 < k" using h' by auto
  show "res_buf h k' \<noteq> Some k" if "k' \<in> keys hs"
  proof
    assume "res_buf h k' = Some k"
    moreover from this have "\<exists>cs. h k = Some (Buffer cs)" using res_ok_buffer [OF bytes_invD(4) [OF inv that]] by blast
    ultimately show False using not_vec(2) [OF inv that] h' kvs by auto
  qed
qed

lemma acquire_cells:
  assumes inv: "bytes_inv h hs vs" and ub: "set_option ub \<subseteq> vs" and res: "res_buf h' k = ub" "res_ok h' k" and k: "h k = None"
  shows "cells_of h' k = None"
proof -
  have "h' k \<noteq> Some (Buffer cs)" for cs
  proof
    assume "h' k = Some (Buffer cs)"
    with res(1) ub have "k \<in> vs" by (auto simp: res_buf_def)
    with k bytes_invD(6) [OF inv] show False unfolding separate_def by auto
  qed
  with res(2) show ?thesis by (auto simp: res_ok_def cells_of_def split: option.splits block.splits)
qed

lemma inv_acquire:
  assumes inv: "bytes_inv h hs vs" and ub: "set_option ub \<subseteq> vs"
    and h': "h' = h \<and> ub = Some k \<or> h k = None \<and> 0 < k \<and> (\<exists>x. h' = h(k \<mapsto> x))"
    and new: "new \<noteq> {#}" "\<forall>c \<in># new. key c = Some k" "\<forall>c \<in># new. handle_ok h' c" "exclusive new"
    and res: "res_buf h' k = ub" "res_ok h' k" "res_count h' k = size new"
  shows "bytes_inv h' (new + hs) (vs - set_option ub)" "c \<in># hs \<Longrightarrow> contents h' c = contents h c"
proof -
  have sep: "separate h (keys hs) vs" using inv by (rule bytes_invD)
  have ok: "res_ok h k'" if "k' \<in> keys hs" for k' using inv that by (rule bytes_invD)
  note knew = acquire_outside(1) [OF inv ub h'] and rbk = acquire_outside(2) [OF inv ub h'] and k0 = acquire_outside(3) [OF inv ub h']
  note cells = acquire_cells [OF inv ub res(1,2)]
  have same: "h' a = h a" if "a \<noteq> k \<or> h a \<noteq> None" for a using h' that by auto
  let ?T = "{a. a = k \<and> h a = None}"
  have same': "\<forall>a. a \<notin> ?T \<longrightarrow> h' a = h a" using same by simp
  have fp: "footprint c \<inter> ?T = {}" if "c \<in># hs" for c
    using footprint_allocated [OF inv that, of k] k0 by auto
  show "c \<in># hs \<Longrightarrow> contents h' c = contents h c" using frame_handle(1) [OF same' fp] .
  have out: "k' \<notin> ?T" if "k' \<in> keys hs" for k' using that knew by auto
  note fr = frame_resource [OF same' out]
  have rb: "res_buf h' k' = res_buf h k' \<and> res_buf h k' \<noteq> Some k" if "k' \<in> keys hs" for k'
    using fr(1) [OF that] rbk [OF that] by simp
  note kr = keys_refs_acquire [OF new(1,2) knew]
  show "bytes_inv h' (new + hs) (vs - set_option ub)"
  proof (rule bytes_invI)
    show "bounded h'"
      by (rule bounded_change [OF bytes_invD(8) [OF inv] _ same']) (use k0 cells in \<open>auto intro: gr0I\<close>)
    have "\<not> clash x y" if "x \<in># new" "y \<in># hs" for x y
      using that new(2) knew by (auto simp: clash_def keys_def)
    then show "exclusive (new + hs)" using bytes_invD(9) [OF inv] new(4) by (simp add: exclusive_union)
    show "res_ok h' k'" if "k' \<in> keys (new + hs)" for k'
    proof (cases "k' = k")
      case False
      then have k': "k' \<in> keys hs" using that kr(1) by simp
      have "w \<notin> ?T" if "res_buf h k' = Some w" for w using that rbk [OF k'] by auto
      then show ?thesis by (rule fr(3) [OF k' ok [OF k']])
    qed (simp add: res(2))
    show "res_count h' k' = refs (new + hs) k'" if "k' \<in> keys (new + hs)" for k'
      using that kr res(3) fr(2) [of k'] bytes_invD(5) [OF inv, of k'] by auto
    show "handle_ok h' c" if "c \<in># new + hs" for c
      using that new(3) frame_handle(2) [OF same' fp] bytes_invD(3) [OF inv] by auto
    show "separate h' (keys (new + hs)) (vs - set_option ub)"
      unfolding kr(1) by (rule separate_acquire [OF sep ub _ same res(1) rb]) (use h' in auto)
    show "no_leak h' (keys (new + hs)) (vs - set_option ub)"
      unfolding kr(1) by (rule no_leak_acquire [OF bytes_invD(7) [OF inv] res(1) same rb])
  qed
qed

lemma undisturbed_fresh:
  assumes inv: "bytes_inv h hs vs" and a: "h a = None" "0 < a" and y: "\<And>bs. y \<noteq> Static bs"
  shows "undisturbed h hs vs (h(a \<mapsto> y))"
proof -
  have "footprint c \<inter> {a} = {}" if "c \<in># hs" for c using footprint_allocated [OF inv that, of a] a by auto
  then have "contents (h(a \<mapsto> y)) c = contents h c" if "c \<in># hs" for c
    using that by (intro frame_handle(1) [of "{a}"]) auto
  with a y not_vec(3) [OF inv a(1)] show ?thesis by (auto simp: undisturbed_def)
qed

text \<open>A new block takes over the buffer of a vector.\<close>

lemma acquire_block:
  assumes inv: "bytes_inv h hs vs" and ub: "set_option ub \<subseteq> vs" and a: "h a = None" "0 < a" "h' = h(a \<mapsto> y)"
    and new: "new \<noteq> {#}" "\<forall>c \<in># new. key c = Some a" "\<forall>c \<in># new. handle_ok h' c" "exclusive new"
    and res: "res_buf h' a = ub" "res_ok h' a" "res_count h' a = size new"
  shows "bytes_inv h' (new + hs) (vs - set_option ub)" "undisturbed h hs vs h'"
proof -
  have "h' = h \<and> ub = Some a \<or> h a = None \<and> 0 < a \<and> (\<exists>x. h' = h(a \<mapsto> x))" using a by blast
  note acq = inv_acquire [OF inv ub this new res]
  show "bytes_inv h' (new + hs) (vs - set_option ub)" by (rule acq)
  show "undisturbed h hs vs h'" using undisturbed_fresh [OF inv a(1,2)] res_ok_not_static [OF res(2)] a(3) by auto
qed

section \<open>Vectors\<close>

text \<open>A vector gets a new buffer, changes its buffer, or frees it.\<close>

lemma separate_vec_change:
  assumes sep: "separate h K vs" and rb: "\<And>k. k \<in> K \<Longrightarrow> res_buf h' k = res_buf h k"
    and out: "\<And>k. k \<in> K \<Longrightarrow> k \<noteq> a" "\<And>k u. k \<in> K \<Longrightarrow> res_buf h k = Some u \<Longrightarrow> u \<noteq> a"
    and h': "h' = h(a := x)" "x = None \<or> (\<exists>cs. x = Some (Buffer cs))" and vs': "vs' = (if x = None then vs - {a} else insert a vs)"
  shows "separate h' K vs'"
proof (rule separateI)
  fix k k' u assume k: "k \<in> K" "res_buf h' k = Some u"
  then have rbk: "res_buf h k = Some u" using rb by simp
  show "k' \<in> K \<Longrightarrow> res_buf h' k' = Some u \<Longrightarrow> k = k'" using separateD(1) [OF sep k(1) _ rbk] rb by simp
  show "u \<in> K \<Longrightarrow> u = k" using separateD(2) [OF sep k(1) rbk] .
  show "u \<notin> vs'" using separateD(3) [OF sep k(1) rbk] out(2) [OF k(1) rbk] vs' by auto
next
  show "k \<notin> vs'" if "k \<in> K" for k using separateD(4) [OF sep that] out(1) [OF that] vs' by auto
  show "\<exists>cs. h' v = Some (Buffer cs)" if "v \<in> vs'" for v
    using that separateD(5) [OF sep, of v] h' vs' by (cases "v = a") (auto split: if_splits)
qed

lemma no_leak_vec_change:
  assumes leak: "no_leak h K vs" and rb: "\<And>k. k \<in> K \<Longrightarrow> res_buf h' k = res_buf h k"
    and h': "h' = h(a := x)" and vs': "vs' = (if x = None then vs - {a} else insert a vs)"
  shows "no_leak h' K vs'"
  unfolding no_leak_def
proof (intro allI impI)
  fix b y assume b: "h' b = Some y"
  show "(\<exists>bs. y = Static bs) \<or> b \<in> vs' \<or> b \<in> K \<or> (\<exists>k\<in>K. res_buf h' k = Some b)"
  proof (cases "b = a")
    case True
    with b h' vs' show ?thesis by auto
  next
    case False
    with b h' have hb: "h b = Some y" by simp
    have "b \<in> vs \<Longrightarrow> b \<in> vs'" using False vs' by simp
    with leak [unfolded no_leak_def, rule_format, OF hb] rb show ?thesis by metis
  qed
qed

lemma inv_vec_change:
  assumes inv: "bytes_inv h hs vs" and a: "h a = None \<and> a \<noteq> 0 \<or> a \<in> vs" and h': "h' = h(a := x)"
    and x: "x = None \<or> (\<exists>cs. x = Some (Buffer cs) \<and> length cs \<le> isize_max)"
    and vs': "vs' = (if x = None then vs - {a} else insert a vs)"
  shows "bytes_inv h' hs vs'" "undisturbed h hs (vs - {a}) h'"
proof -
  have sep: "separate h (keys hs) vs" using inv by (rule bytes_invD)
  have same: "\<forall>b. b \<notin> {a} \<longrightarrow> h' b = h b" using h' by simp
  have nz: "a \<noteq> 0" using a separateD(5) [OF sep, of a] bytes_invD(2) [OF inv] by (cases "a = 0") auto
  have hb: "h a = None \<or> (\<exists>cs. h a = Some (Buffer cs))" using a separateD(5) [OF sep, of a] by auto
  have ka: "k \<noteq> a" if "k \<in> keys hs" for k
    using that a separateD(4) [OF sep, of k] res_ok_allocated [OF bytes_invD(4) [OF inv that]] by auto
  have ua: "u \<noteq> a" if "k \<in> keys hs" "res_buf h k = Some u" for k u
    using a separateD(3) [OF sep that] res_ok_buffer [OF bytes_invD(4) [OF inv that(1)] that(2)] by auto
  have fp: "footprint c \<inter> {a} = {}" if c: "c \<in># hs" for c
  proof (cases "key c")
    case None
    then have "footprint c = {blk (h_ptr c)}" by (simp add: footprint_def)
    with keyless_block [OF inv c None] footprint_allocated [OF inv c] hb nz show ?thesis by fastforce
  next
    case (Some k)
    note r = key_resource [OF inv c Some]
    have "blk (h_ptr c) \<noteq> a" using ua [OF r(1)] r(2) nz by (auto simp: buf_of_def split: if_splits)
    with Some ka [OF r(1)] show ?thesis by (simp add: footprint_def)
  qed
  have "h' b = Some (Static bs) \<longleftrightarrow> h b = Some (Static bs)" for b bs using h' hb x by auto
  then show "undisturbed h hs (vs - {a}) h'"
    using frame_handle(1) [OF same fp] same by (simp add: undisturbed_def)
  have out: "k \<notin> {a}" if "k \<in> keys hs" for k using ka [OF that] by simp
  note fr = frame_resource [OF same out]
  show "bytes_inv h' hs vs'"
  proof (rule bytes_invI)
    show "bounded h'" by (rule bounded_change [OF bytes_invD(8) [OF inv] _ same]) (use nz x h' in auto)
    show "exclusive hs" using inv by (rule bytes_invD)
    show "res_ok h' k" if "k \<in> keys hs" for k
      using fr(3) [OF that bytes_invD(4) [OF inv that]] ua [OF that] by blast
    show "res_count h' k = refs hs k" if "k \<in> keys hs" for k
      using fr(2) [OF that] bytes_invD(5) [OF inv that] by simp
    show "handle_ok h' c" if "c \<in># hs" for c using frame_handle(2) [OF same fp [OF that] bytes_invD(3) [OF inv that]] .
    show "separate h' (keys hs) vs'" by (rule separate_vec_change [OF sep fr(1) ka ua h' _ vs']) (use x in auto)
    show "no_leak h' (keys hs) vs'" by (rule no_leak_vec_change [OF bytes_invD(7) [OF inv] fr(1) h' vs'])
  qed
qed

section \<open>Writing\<close>

text \<open>What a \<open>BytesMut\<close> writes into its own part of the buffer, no other handle can see.\<close>

lemma heap_read_outside:
  assumes "h u = Some (Buffer cs)" "blk p = u" "length cs' = length cs"
    and "\<And>i. off p \<le> i \<Longrightarrow> i < off p + n \<Longrightarrow> i < length cs \<Longrightarrow> cs' ! i = cs ! i"
  shows "heap_read (h(u \<mapsto> Buffer cs')) p n = heap_read h p n"
proof (cases "off p + n \<le> length cs")
  case True
  have "take n (drop (off p) cs') = take n (drop (off p) cs)"
    by (rule nth_equalityI) (use assms True in auto)
  with assms show ?thesis by (simp add: heap_read_def cells_of_def)
qed (use assms in \<open>simp add: heap_read_def cells_of_def\<close>)

lemma mutable_resource:
  assumes "handle_ok h x" "is_mut x" "key x = Some k"
  shows "(\<exists>cs. h k = Some (Buffer cs)) \<or> (\<exists>s. h k = Some (Shared_V s))"
  using assms by (cases x) (auto simp: handle_ok_def split: if_splits)

text \<open>A write inside the region of one handle is not seen by another handle to the same buffer.\<close>

lemma write_not_seen:
  assumes inv: "bytes_inv h (add_mset x hs) vs" and mut: "is_mut x" "key x = Some k" "buf_of x = Some u"
    and buf: "h u = Some (Buffer cs)" "length cs' = length cs" "h' = h(u \<mapsto> Buffer cs')"
    and outside: "\<And>i. i < length cs \<Longrightarrow> i \<notin> region x \<Longrightarrow> cs' ! i = cs ! i"
    and c: "c \<in># hs" "key c = Some k"
  shows "contents h' c = contents h c \<and> handle_ok h' c"
proof -
  have x: "x \<in># add_mset x hs" by simp
  note r = key_resource [OF inv x mut(2)]
  have rbu: "res_buf h k = Some u" using r(2) mut(3) by simp
  have rb: "res_buf h' j = res_buf h j" for j using buf by (simp add: res_buf_def)
  have alone: "h k \<noteq> Some (Buffer cs0)" for cs0
    using bytes_invD(5) [OF inv r(1)] c mut(2) refs_zero_iff [of hs k] by (auto simp: res_count_def keys_def)
  have ok: "handle_ok h c" using bytes_invD(3) [OF inv] c(1) by simp
  obtain s where s: "h k = Some (Shared_V s)"
    using mutable_resource [OF bytes_invD(3) [OF inv x] mut(1,2)] alone by blast
  then have ku: "k \<noteq> u" using buf(1) by auto
  have "\<not> clash x c" using bytes_invD(9) [OF inv] c(1) by simp
  then have disj: "region x \<inter> region c = {}" using mut c(2) by (auto simp: clash_def)
  have p: "blk (h_ptr c) = u" using ok c(2) rbu by (auto simp: handle_ok_def buf_of_def split: if_splits)
  have "h_slice h' c = h_slice h c"
    unfolding h_slice_def buf(3)
  proof (rule heap_read_outside [OF _ p, where h = h and cs = cs and cs' = cs'])
    fix i assume i: "off (h_ptr c) \<le> i" "i < off (h_ptr c) + h_len c" "i < length cs"
    then have "i \<in> region c" using ok by (auto simp: region_def handle_ok_def)
    with i disj show "cs' ! i = cs ! i" by (intro outside) auto
  qed (fact buf)+
  moreover have "kind_ok h' c = kind_ok h c"
    using buf p ku c(2) by (cases c) (auto simp: Let_def split: vtable.splits if_splits)
  moreover have "lies h' c k" using ok c(2) s buf p ku by (auto simp: handle_ok_def lies_def Let_def split: if_splits)
  ultimately show ?thesis using ok rb c(2) by (simp add: handle_ok_def contents_def)
qed

lemma inv_write:
  assumes inv: "bytes_inv h (add_mset x hs) vs" and mut: "is_mut x" "key x = Some k" "buf_of x = Some u"
    and buf: "h u = Some (Buffer cs)" "length cs' = length cs" "h' = h(u \<mapsto> Buffer cs')"
    and outside: "\<And>i. i < length cs \<Longrightarrow> i \<notin> region x \<Longrightarrow> cs' ! i = cs ! i"
    and x': "key x' = key x" "handle_ok h' x'" "region x' \<subseteq> region x"
  shows "bytes_inv h' (add_mset x' hs) vs" "undisturbed h hs vs h'"
proof -
  let ?H = "add_mset x hs"
  have x: "x \<in># ?H" by simp
  note r = key_resource [OF inv x mut(2)]
  have sep: "separate h (keys ?H) vs" using inv by (rule bytes_invD)
  have rbu: "res_buf h k = Some u" using r(2) mut(3) by simp
  have ks: "keys (add_mset x' hs) = keys ?H" using x'(1) by simp
  have same: "\<forall>a. a \<notin> {u} \<longrightarrow> h' a = h a" using buf(3) by simp
  have rb: "res_buf h' j = res_buf h j" "res_count h' j = res_count h j" for j
    using buf by (simp_all add: res_buf_def res_count_def)
  have fp: "footprint c \<inter> {u} = {}" if "c \<in># hs" "key c \<noteq> Some k" for c
    using footprint_disjoint [OF inv r(1) refl _ that(2)] that(1) rbu by auto
  have others: "contents h' c = contents h c \<and> handle_ok h' c" if c: "c \<in># hs" for c
    using write_not_seen [OF inv mut buf outside c] frame_handle [OF same fp [OF c]] bytes_invD(3) [OF inv, of c] c by auto
  have u: "u \<notin> vs" using separateD(3) [OF sep r(1) rbu] .
  then show "undisturbed h hs vs h'" using others buf by (auto simp: undisturbed_def)
  show "bytes_inv h' (add_mset x' hs) vs"
  proof (rule bytes_invI)
    have "length cs \<le> isize_max" "u \<noteq> 0"
      using boundedD(3) [OF bytes_invD(8) [OF inv] buf(1)] block_nonzero [OF inv buf(1)] .
    then show "bounded h'" by (intro bounded_change [OF bytes_invD(8) [OF inv] _ same]) (use buf in auto)
    have "clash x' y \<Longrightarrow> clash x y" for y using x'(1,3) mut(1) by (auto simp: clash_def)
    then show "exclusive (add_mset x' hs)" using bytes_invD(9) [OF inv] by auto
    show "res_ok h' j" if "j \<in> keys (add_mset x' hs)" for j
    proof -
      have "res_ok h j" by (rule bytes_invD(4) [OF inv]) (use that ks in blast)
      then show ?thesis using buf by (auto simp: res_ok_def split: option.splits block.splits if_splits)
    qed
    show "res_count h' j = refs (add_mset x' hs) j" if "j \<in> keys (add_mset x' hs)" for j
      using bytes_invD(5) [OF inv, of j] that ks rb x'(1) by simp
    show "handle_ok h' c" if "c \<in># add_mset x' hs" for c using that others x'(2) by auto
    show "separate h' (keys (add_mset x' hs)) vs"
      unfolding ks by (rule separateI) (use separateD [OF sep] rb u buf(3) in auto)
    show "no_leak h' (keys (add_mset x' hs)) vs"
      using bytes_invD(7) [OF inv] ks rb r(1) rbu buf unfolding no_leak_def by (metis fun_upd_apply)
  qed
qed

end
