(* ===== verification/Bytes_Ops.thy ===== *)
theory Bytes_Ops
  imports Bytes_Moves
begin

unbundle bit_operations_syntax

text \<open>
  Cloning, dropping and uniqueness of \<open>Bytes\<close> against the invariant: each operation returns,
  keeps the invariant and leaves the contents of all other handles alone. What the reference
  counts of the three counted resources do is shared with \<open>BytesMut\<close>.
\<close>

section \<open>Tags\<close>

lemma and_one_nat: "(n::nat) AND 1 = n mod 2"
  by (simp add: and_one_eq)

lemma kind_even: "even n \<Longrightarrow> n AND KIND_MASK = KIND_ARC"
  by (simp add: KIND_MASK_def KIND_ARC_def and_one_nat)

lemma kind_odd: "odd n \<Longrightarrow> n AND KIND_MASK = KIND_VEC"
  by (simp add: KIND_MASK_def KIND_VEC_def and_one_nat odd_iff_mod_2_eq_one)

lemma kind_neq [simp]: "KIND_ARC \<noteq> KIND_VEC" "KIND_VEC \<noteq> KIND_ARC"
  by (simp_all add: KIND_ARC_def KIND_VEC_def)

lemma untag: "even k \<Longrightarrow> ptr_map (Ptr k 1) clear_kind = Ptr k 0"
  by (simp add: ptr_map_def addr_of_def clear_kind_def kind_odd KIND_VEC_def)

lemma tag: "even k \<Longrightarrow> ptr_map (Ptr k 0) (\<lambda>a. a OR KIND_VEC) = Ptr k 1"
  by (auto simp: ptr_map_def addr_of_def KIND_VEC_def or_Suc_0_eq elim!: evenE)

lemma ref_limit_unat: "unat ref_limit = 2 ^ 63 - 1"
  by (simp add: ref_limit_def unat_drop_bit_eq unsigned_minus_1_eq_mask mask_eq_exp_minus_1 drop_bit_eq_div)

section \<open>The kinds of ownership\<close>

lemma handle_cases:
  assumes "handle_ok h (HB b)"
  obtains (static) "b_vtable b = STATIC_VTABLE" "key (HB b) = None"
    | (owned) k ow where "b_vtable b = OWNED_VTABLE" "key (HB b) = Some k" "b_data b = Ptr k 0" "h k = Some (Owned ow)"
    | (arc) k s where "b_vtable b \<in> {SHARED_VTABLE, PROMOTABLE_EVEN_VTABLE, PROMOTABLE_ODD_VTABLE}" "key (HB b) = Some k"
        "b_data b = Ptr k 0" "h k = Some (Shared s)"
        "b_vtable b \<noteq> SHARED_VTABLE \<Longrightarrow> addr_of (b_data b) AND KIND_MASK = KIND_ARC"
    | (vec) k cs where "b_vtable b = PROMOTABLE_EVEN_VTABLE \<or> b_vtable b = PROMOTABLE_ODD_VTABLE"
        "key (HB b) = Some k" "h k = Some (Buffer cs)" "addr_of (b_data b) AND KIND_MASK = KIND_VEC"
        "b_vtable b = PROMOTABLE_EVEN_VTABLE \<Longrightarrow> ptr_map (b_data b) clear_kind = Ptr k 0"
        "b_vtable b = PROMOTABLE_ODD_VTABLE \<Longrightarrow> b_data b = Ptr k 0"
    | (arcv) k s where "b_vtable b = SHARED_V_VTABLE" "key (HB b) = Some k" "b_data b = Ptr k 0" "h k = Some (Shared_V s)" "even k"
proof -
  obtain k d where d: "b_data b = Ptr k d" by (cases "b_data b")
  have kok: "kind_ok h (HB b)" using assms by (simp add: handle_ok_def)
  show thesis
  proof (cases "b_vtable b")
    case STATIC_VTABLE
    then show thesis by (intro static) simp_all
  next
    case OWNED_VTABLE
    with kok d obtain ow where "h k = Some (Owned ow)" "d = 0" by auto
    with OWNED_VTABLE d show thesis by (intro owned) simp_all
  next
    case SHARED_VTABLE
    with kok d obtain s where "h k = Some (Shared s)" "d = 0" by auto
    with SHARED_VTABLE d show thesis by (intro arc) simp_all
  next
    case SHARED_V_VTABLE
    with kok d obtain s where "h k = Some (Shared_V s)" "d = 0" "even k" by auto
    with SHARED_V_VTABLE d show thesis by (intro arcv) simp_all
  next
    case PROMOTABLE_EVEN_VTABLE
    with kok d have ev: "even k" and "d = 0 \<and> (\<exists>s. h k = Some (Shared s)) \<or> d = 1 \<and> (\<exists>cs. h k = Some (Buffer cs))"
      by auto
    then consider s where "d = 0" "h k = Some (Shared s)" | cs where "d = 1" "h k = Some (Buffer cs)" by blast
    then show thesis
    proof cases
      case (1 s)
      with PROMOTABLE_EVEN_VTABLE d ev show thesis by (intro arc) (simp_all add: addr_of_def kind_even)
    next
      case (2 cs)
      with PROMOTABLE_EVEN_VTABLE d ev untag [OF ev] show thesis
        by (intro vec) (simp_all add: addr_of_def kind_odd)
    qed
  next
    case PROMOTABLE_ODD_VTABLE
    with kok d have d0: "d = 0" and "even k \<and> (\<exists>s. h k = Some (Shared s)) \<or> odd k \<and> (\<exists>cs. h k = Some (Buffer cs))"
      by auto
    then consider s where "even k" "h k = Some (Shared s)" | cs where "odd k" "h k = Some (Buffer cs)" by blast
    then show thesis
    proof cases
      case (1 s)
      with PROMOTABLE_ODD_VTABLE d d0 show thesis by (intro arc) (simp_all add: addr_of_def kind_even)
    next
      case (2 cs)
      with PROMOTABLE_ODD_VTABLE d d0 show thesis by (intro vec) (simp_all add: addr_of_def kind_odd)
    qed
  qed
qed

section \<open>Views into the same buffer\<close>

text \<open>Only a handle that owns its buffer alone must keep reaching to the end.\<close>

definition shrinkable :: "heap \<Rightarrow> handle \<Rightarrow> bool" where
  "shrinkable h x \<longleftrightarrow> (\<forall>k cs. key x = Some k \<longrightarrow> h k \<noteq> Some (Buffer cs))"

lemma not_in_shorter_prefix: "None \<notin> set (take n cs) \<Longrightarrow> m \<le> n \<Longrightarrow> None \<notin> set (take m cs)"
  by (meson set_take_subset_set_take subset_code(1))

lemma lies_cong: "h_ptr x = h_ptr y \<Longrightarrow> h_len x = h_len y \<Longrightarrow> h_cap x = h_cap y \<Longrightarrow> lies h x k = lies h y k"
  by (simp add: lies_def Let_def split: option.split block.split)

lemma lies_part:
  assumes "lies h x k" "h_ptr x' = Ptr (blk (h_ptr x)) (off (h_ptr x) + a)" "a + h_cap x' \<le> h_cap x"
    and "a + h_len x' \<le> h_len x \<or> (\<exists>s. h k = Some (Shared_V s))"
    and "\<And>cs. h k = Some (Buffer cs) \<Longrightarrow> a + h_cap x' = h_cap x"
  shows "lies h x' k"
proof -
  have "None \<notin> set (take (off (h_ptr x) + h_len x) cs) \<Longrightarrow> a + h_len x' \<le> h_len x \<Longrightarrow>
      None \<notin> set (take (off (h_ptr x) + (a + h_len x')) cs)" for cs :: "u8 option list"
    by (erule not_in_shorter_prefix) simp
  with assms show ?thesis
    by (cases "h_ptr x") (auto simp: lies_def Let_def dangling_def add.assoc split: option.splits block.splits if_splits)
qed

lemma handle_reslice:
  assumes ok: "handle_ok h (HB b)" and range: "a + m \<le> b_len b" and "shrinkable h (HB b) \<or> a + m = b_len b"
    and p: "p = Ptr (blk (b_ptr b)) (off (b_ptr b) + a)"
  shows "handle_ok h (HB (b\<lparr>b_ptr := p, b_len := m\<rparr>))"
    "contents h (HB (b\<lparr>b_ptr := p, b_len := m\<rparr>)) = take m (drop a (contents h (HB b)))"
    "key (HB (b\<lparr>b_ptr := p, b_len := m\<rparr>)) = key (HB b)"
    "region (HB (b\<lparr>b_ptr := p, b_len := m\<rparr>)) \<subseteq> region (HB b)"
proof -
  let ?b = "HB (b\<lparr>b_ptr := p, b_len := m\<rparr>)"
  have addr: "0 < addr_of (b_ptr b)" using ok by (simp add: handle_ok_def)
  have slice: "h_slice h ?b = Inr (take m (drop a (contents h (HB b))))"
    using heap_read_slice [OF read_contents(1) [OF ok] range addr] by (simp add: h_slice_def p)
  then show "contents h ?b = take m (drop a (contents h (HB b)))" by (simp add: contents_def)
  show key: "key ?b = key (HB b)" by simp
  show "region ?b \<subseteq> region (HB b)" using range p by (auto simp: region_def)
  have "kind_ok h ?b = kind_ok h (HB b)" by (simp add: p Let_def cong: vtable.case_cong)
  moreover have "buf_of ?b = buf_of (HB b)" by (simp add: buf_of_def p)
  moreover have "lies h ?b k" if "lies h (HB b) k" "key (HB b) = Some k" for k
    by (rule lies_part [OF that(1), where a = a]) (use range assms(3) that(2) p in \<open>auto simp: shrinkable_def split: if_splits\<close>)
  ultimately show "handle_ok h ?b" using ok key addr slice p by (auto simp: handle_ok_def addr_of_def)
qed

lemma empty_handle:
  assumes "0 < addr_of p" "h 0 = None"
  shows "\<exists>b. new_empty_with_ptr p = Inr b \<and> handle_ok h (HB b) \<and> contents h (HB b) = [] \<and> key (HB b) = None \<and> b_len b = 0"
  using assms
  by (auto simp: new_empty_with_ptr_def rust_assert_def handle_ok_def contents_def
      h_slice_def heap_read_def without_provenance_def wrapping_add_def null_ptr_def addr_of_def)

lemma bytes_new_ok: "handle_ok h (HB bytes_new)" "contents h (HB bytes_new) = []" "key (HB bytes_new) = None"
  by (simp_all add: bytes_new_def from_static_def handle_ok_def contents_def h_slice_def
      heap_read_def dangling_def addr_of_def)

lemma inv_bytes_new [simp]: "bytes_inv h (add_mset (HB bytes_new) hs) vs \<longleftrightarrow> bytes_inv h hs vs"
  by (rule inv_keyless [OF bytes_new_ok(3,1)])

section \<open>Counting\<close>

lemma count_bump:
  fixes n :: u64
  assumes "unat n \<le> 2 ^ 63 - 1"
  shows "\<not> ref_limit < n" "unat (n + 1) = Suc (unat n)"
proof -
  show "\<not> ref_limit < n" using assms by (simp add: word_less_nat_alt ref_limit_unat)
  from assms have "unat n + 1 < 2 ^ 64" by simp
  then show "unat (n + 1) = Suc (unat n)"
    by (simp add: unat_word_ariths)
qed

lemma count_drop: "n \<noteq> 0 \<Longrightarrow> unat n = Suc (unat (n - 1))" for n :: u64
  by (simp add: unat_minus_one unat_gt_0)

lemma agree_recount:
  "h k = Some (Shared s) \<Longrightarrow> agree UNIV h (h(k \<mapsto> Shared (s\<lparr>sh_ref_cnt := n\<rparr>)))"
  "h k = Some (Owned ow) \<Longrightarrow> agree UNIV h (h(k \<mapsto> Owned (ow\<lparr>ow_ref_cnt := n\<rparr>)))"
  "h k = Some (Shared_V sv) \<Longrightarrow> agree UNIV h (h(k \<mapsto> Shared_V (sv\<lparr>sv_ref_count := n\<rparr>)))"
  by (auto simp: agree_def)

lemma refs_le_size: "refs hs k \<le> size hs"
  by (simp add: refs_def size_mset_mono)

lemma few_refs:
  assumes "bytes_inv h (add_mset x hs) vs" "key x = Some k" "size hs < 2 ^ 63 - 1"
  shows "res_count h k \<le> 2 ^ 63 - 1" "res_count h k = Suc (refs hs k)"
  using bytes_invD(5) [OF assms(1), of k] assms(2,3) refs_le_size [of hs k] by simp_all

text \<open>Two handles to parts of what one handle had\<close>

lemma exclusive_views:
  assumes "exclusive (add_mset x hs)" "key c = key x" "key x' = key x" "region c \<subseteq> region x" "region x' \<subseteq> region x"
    and "is_mut c \<or> is_mut x' \<Longrightarrow> is_mut x" "\<not> clash c x'"
  shows "exclusive (add_mset c (add_mset x' hs))"
proof -
  have "clash c y \<or> clash x' y \<Longrightarrow> clash x y" for y using assms(2-6) by (auto simp: clash_def)
  with assms(1,7) show ?thesis by (auto simp: clash_sym [of x' c])
qed

text \<open>One more handle for a counted resource\<close>

lemma inv_add_ref:
  assumes inv: "bytes_inv h (add_mset x hs) vs" and k: "key x = Some k" "key c = Some k" "key x' = Some k"
    and ok: "handle_ok h c" "handle_ok h x'" and ex: "exclusive (add_mset c (add_mset x' hs))"
    and h': "h' = h(k \<mapsto> y)" and agree: "agree UNIV h h'"
    and cnt: "res_count h' k = Suc (res_count h k)"
  shows "bytes_inv h' (add_mset c (add_mset x' hs)) vs" "contents h' z = contents h z" "undisturbed h hs vs h'"
proof -
  show "contents h' z = contents h z" for z using agree_contents [OF agree_mono [OF agree subset_UNIV]] .
  moreover have "h' v = h v" if "v \<in> vs" for v using that not_vec(1) [OF inv, of k] k(1) h' by auto
  ultimately show "undisturbed h hs vs h'" using agreeD_Static [OF agree UNIV_I] by (simp add: undisturbed_def)
  show "bytes_inv h' (add_mset c (add_mset x' hs)) vs"
  proof (rule inv_recount [OF inv agree])
    show "keys (add_mset c (add_mset x' hs)) = keys (add_mset x hs)" using k by simp
    show "handle_ok h z" if "z \<in># add_mset c (add_mset x' hs)" for z
      using that ok bytes_invD(3) [OF inv] by auto
    fix k' assume k': "k' \<in> keys (add_mset x hs)"
    show "res_count h' k' = refs (add_mset c (add_mset x' hs)) k'"
      using bytes_invD(5) [OF inv k'] cnt k h' by (auto simp: res_count_def)
  qed (rule ex)
qed

definition dropped :: "heap \<Rightarrow> handle multiset \<Rightarrow> addr set \<Rightarrow> heap \<Rightarrow> bool" where
  "dropped h hs vs h' \<longleftrightarrow> bytes_inv h' hs vs \<and> undisturbed h hs vs h'"

text \<open>The last handle of a resource goes, and all its memory.\<close>

lemma dropped_release:
  assumes inv: "bytes_inv h (add_mset x hs) vs" and k: "key x = Some k" "k \<notin> keys hs"
    and h': "\<And>a. h' a = (if a = k \<or> buf_of x = Some a then None else h a)"
  shows "dropped h hs vs h'"
proof -
  have x: "x \<in># add_mset x hs" by simp
  note r = key_resource [OF inv x k(1)]
  have same: "\<forall>a. a \<notin> insert k (set_option (buf_of x)) \<longrightarrow> h' a = h a" using h' by auto
  have "given_up h' (set_option (buf_of x)) vs vs" using h' by (auto simp: given_up_def)
  note rel = inv_release [OF inv k refl same _ this]
  have "bytes_inv h' hs vs" "\<And>c. c \<in># hs \<Longrightarrow> contents h' c = contents h c" using rel h' by auto
  moreover have "h' v = h v" if "v \<in> vs" for v
    using that not_vec(1,2) [OF inv r(1)] r(2) h' by auto
  moreover have "h' a = Some (Static bs) \<longleftrightarrow> h a = Some (Static bs)" for a bs
    using h' r(5) [of a] r(6) [of bs] by auto
  ultimately show ?thesis by (simp add: dropped_def undisturbed_def)
qed

text \<open>One handle less for a resource that has others\<close>

lemma inv_drop_ref:
  assumes inv: "bytes_inv h (add_mset x hs) vs" and k: "key x = Some k"
    and h': "h' = h(k \<mapsto> y)" and agree: "agree UNIV h h'"
    and cnt: "res_count h k = Suc (res_count h' k)" "res_count h' k \<noteq> 0"
  shows "dropped h hs vs h'"
proof -
  have refs: "res_count h k = Suc (refs hs k)" using bytes_invD(5) [OF inv, of k] k by simp
  have others: "k \<in> keys hs"
    using refs cnt refs_zero_iff [of hs k] by simp
  have "bytes_inv h' hs vs"
  proof (rule inv_recount [OF inv agree])
    show "keys hs = keys (add_mset x hs)" using k others by auto
    show "exclusive hs" using bytes_invD(9) [OF inv] by simp
    show "handle_ok h z" if "z \<in># hs" for z using that bytes_invD(3) [OF inv] by auto
    fix k' assume k': "k' \<in> keys (add_mset x hs)"
    show "res_count h' k' = refs hs k'"
      using bytes_invD(5) [OF inv k'] refs cnt k h' by (auto simp: res_count_def)
  qed
  moreover have "h' v = h v" if "v \<in> vs" for v using that not_vec(1) [OF inv, of k] k h' by auto
  ultimately show ?thesis
    using agree_contents [OF agree_mono [OF agree subset_UNIV]] agreeD_Static [OF agree UNIV_I]
    by (simp add: dropped_def undisturbed_def)
qed

lemma alone:
  assumes "bytes_inv h (add_mset x hs) vs" "key x = Some k" "res_count h k = 1"
  shows "k \<notin> keys hs"
  using bytes_invD(5) [OF assms(1), of k] assms(2,3) by (simp add: refs_zero_iff [symmetric])

text \<open>A handle that owns its buffer alone\<close>

lemma sole_owner:
  assumes inv: "bytes_inv h (add_mset x hs) vs" and k: "key x = Some k" and buf: "h k = Some (Buffer cs)"
  shows "k \<notin> keys hs" "blk (h_ptr x) = k" "off (h_ptr x) + h_cap x = length cs" "k \<notin> vs" "k \<noteq> 0" "cs \<noteq> []"
    "None \<notin> set (take (off (h_ptr x) + h_len x) cs)" "bytes_inv h hs (insert k vs)"
proof -
  have x: "x \<in># add_mset x hs" by simp
  note r = key_resource [OF inv x k]
  show alone: "k \<notin> keys hs" using alone [OF inv k] buf by (simp add: res_count_def)
  have b: "buf_of x = Some k" using r(2) buf by (simp add: res_buf_def)
  then show "blk (h_ptr x) = k" by (simp add: buf_of_def split: if_splits)
  show "off (h_ptr x) + h_cap x = length cs" "None \<notin> set (take (off (h_ptr x) + h_len x) cs)"
    using r(7) buf by (simp_all add: lies_def Let_def)
  show "k \<notin> vs" using not_vec(1) [OF inv r(1)] .
  show "k \<noteq> 0" using r(4) .
  show "cs \<noteq> []" using r(8) buf by (simp add: res_ok_def)
  have "given_up h {k} vs (insert k vs)"
    using buf boundedD(3) [OF bytes_invD(8) [OF inv] buf] by (auto simp: given_up_def)
  then show "bytes_inv h hs (insert k vs)"
    by (intro inv_release(1) [OF inv k alone, of "{k}"]) (use b in auto)
qed

section \<open>Cloning\<close>

text \<open>What a clone must achieve, with \<open>b\<close> before, \<open>b'\<close> after and \<open>c\<close> the clone\<close>

definition cloned :: "heap \<Rightarrow> bytes \<Rightarrow> handle multiset \<Rightarrow> addr set \<Rightarrow> bytes \<Rightarrow> bytes \<Rightarrow> heap \<Rightarrow> bool" where
  "cloned h b hs vs c b' h' \<longleftrightarrow>
     bytes_inv h' (add_mset (HB c) (add_mset (HB b') hs)) vs \<and>
     contents h' (HB c) = contents h (HB b) \<and> contents h' (HB b') = contents h (HB b) \<and>
     undisturbed h hs vs h' \<and>
     b_ptr c = b_ptr b \<and> b_len c = b_len b \<and> b_ptr b' = b_ptr b \<and> b_len b' = b_len b \<and>
     shrinkable h' (HB c) \<and> shrinkable h' (HB b')"

text \<open>A clone that shares a counted resource\<close>

lemma cloned_add_ref:
  assumes inv: "bytes_inv h (add_mset (HB b) hs) vs" and k: "key (HB b) = Some k"
    and c: "key (HB c) = Some k" "kind_ok h (HB c)" "b_ptr c = b_ptr b" "b_len c = b_len b"
    and h': "h' = h(k \<mapsto> y)" and agree: "agree UNIV h h'"
    and cnt: "res_count h' k = Suc (res_count h k)" and y: "\<And>cs. y \<noteq> Buffer cs"
  shows "cloned h b hs vs c b h'"
proof -
  have bok: "handle_ok h (HB b)" using bytes_invD(3) [OF inv] by simp
  have reg: "region (HB c) = region (HB b)" using c by (simp add: region_def)
  have slice: "h_slice h (HB c) = h_slice h (HB b)" using c by (simp add: h_slice_def)
  have "lies h (HB c) k = lies h (HB b) k" "buf_of (HB c) = buf_of (HB b)"
    using c(3,4) lies_cong [of "HB c" "HB b"] by (simp_all add: buf_of_def)
  then have cok: "handle_ok h (HB c)" using bok k c slice by (auto simp: handle_ok_def)
  have "exclusive (add_mset (HB c) (add_mset (HB b) hs))"
    by (rule exclusive_views [OF bytes_invD(9) [OF inv]]) (use k c reg in \<open>auto simp: clash_def\<close>)
  note add = inv_add_ref [OF inv k c(1) k cok bok this h' agree cnt]
  have "contents h (HB c) = contents h (HB b)" using slice by (simp add: contents_def)
  then show ?thesis using add c k h' y by (auto simp: cloned_def shrinkable_def)
qed

lemma clone_shared:
  assumes inv: "bytes_inv h (add_mset (HB b) hs) vs" and k: "key (HB b) = Some k" and few: "size hs < 2 ^ 63 - 1"
    and s: "h k = Some (Shared s)" "b_data b = Ptr k 0"
  shows "\<exists>c h'. shallow_clone_arc h (b_data b) (b_ptr b) (b_len b) = Inr (c, h') \<and> cloned h b hs vs c b h'"
proof -
  let ?c = "\<lparr>b_ptr = b_ptr b, b_len = b_len b, b_data = Ptr k 0, b_vtable = SHARED_VTABLE\<rparr>"
  let ?h = "h(k \<mapsto> Shared (s\<lparr>sh_ref_cnt := sh_ref_cnt s + 1\<rparr>))"
  have small: "unat (sh_ref_cnt s) \<le> 2 ^ 63 - 1" using few_refs(1) [OF inv k few] s(1) by (simp add: res_count_def)
  have "cloned h b hs vs ?c b ?h"
    by (rule cloned_add_ref [OF inv k _ _ _ _ refl])
      (use s count_bump(2) [OF small] in \<open>simp_all add: res_count_def agree_recount\<close>)
  with s count_bump(1) [OF small] show ?thesis
    by (simp add: shallow_clone_arc_def get_shared_def atomic_defs Let_def)
qed

lemma clone_owned:
  assumes inv: "bytes_inv h (add_mset (HB b) hs) vs" and k: "key (HB b) = Some k" and few: "size hs < 2 ^ 63 - 1"
    and ow: "h k = Some (Owned ow)" "b_data b = Ptr k 0" "b_vtable b = OWNED_VTABLE"
  shows "\<exists>c h'. owned_clone h (b_data b) (b_ptr b) (b_len b) = Inr (c, h') \<and> cloned h b hs vs c b h'"
proof -
  let ?c = "\<lparr>b_ptr = b_ptr b, b_len = b_len b, b_data = Ptr k 0, b_vtable = OWNED_VTABLE\<rparr>"
  let ?h = "h(k \<mapsto> Owned (ow\<lparr>ow_ref_cnt := ow_ref_cnt ow + 1\<rparr>))"
  have small: "unat (ow_ref_cnt ow) \<le> 2 ^ 63 - 1" using few_refs(1) [OF inv k few] ow(1) by (simp add: res_count_def)
  have "cloned h b hs vs ?c b ?h"
    by (rule cloned_add_ref [OF inv k _ _ _ _ refl])
      (use ow count_bump(2) [OF small] in \<open>simp_all add: res_count_def agree_recount\<close>)
  with ow count_bump(1) [OF small] show ?thesis
    by (simp add: owned_clone_def get_owned_def atomic_defs Let_def)
qed

text \<open>Incrementing the count of the \<open>Shared\<close> of \<^verbatim>\<open>bytes_mut.rs\<close>\<close>

lemma increment_shared_ok:
  assumes inv: "bytes_inv h (add_mset x hs) vs" and k: "key x = Some k" and few: "size hs < 2 ^ 63 - 1"
    and s: "h k = Some (Shared_V s)"
  defines "h' \<equiv> h(k \<mapsto> Shared_V (s\<lparr>sv_ref_count := sv_ref_count s + 1\<rparr>))"
  shows "increment_shared h (Ptr k 0) = Inr h'" "res_count h' k = Suc (res_count h k)"
proof -
  have small: "unat (sv_ref_count s) \<le> 2 ^ 63 - 1" using few_refs(1) [OF inv k few] s(1) by (simp add: res_count_def)
  then show "increment_shared h (Ptr k 0) = Inr h'"
    using s by (simp add: h'_def increment_shared_def get_shared_v_def atomic_defs isize_max_def Let_def)
  show "res_count h' k = Suc (res_count h k)"
    using s count_bump(2) [OF small] by (simp add: h'_def res_count_def)
qed

lemma clone_shared_v:
  assumes inv: "bytes_inv h (add_mset (HB b) hs) vs" and k: "key (HB b) = Some k" and few: "size hs < 2 ^ 63 - 1"
    and s: "h k = Some (Shared_V s)" "b_data b = Ptr k 0" "even k"
  shows "\<exists>c h'. shared_v_clone h (b_data b) (b_ptr b) (b_len b) = Inr (c, h') \<and> cloned h b hs vs c b h'"
proof -
  let ?c = "with_vtable (b_ptr b) (b_len b) (Ptr k 0) SHARED_V_VTABLE"
  let ?h = "h(k \<mapsto> Shared_V (s\<lparr>sv_ref_count := sv_ref_count s + 1\<rparr>))"
  note inc = increment_shared_ok [OF inv k few s(1)]
  have "cloned h b hs vs ?c b ?h"
    by (rule cloned_add_ref [OF inv k _ _ _ _ refl _ inc(2)])
      (use s in \<open>simp_all add: with_vtable_def agree_recount\<close>)
  with s inc(1) show ?thesis by (simp add: shared_v_clone_def atomic_defs)
qed

context allocator_laws
begin

lemma clone_promote:
  assumes inv: "bytes_inv h (add_mset (HB b) hs) vs" and k: "key (HB b) = Some k" and buf: "h k = Some (Buffer cs)"
    and vt: "b_vtable b = PROMOTABLE_EVEN_VTABLE \<or> b_vtable b = PROMOTABLE_ODD_VTABLE"
  shows "\<exists>c d h'. shallow_clone_vec alloc h (b_data b) (b_data b) (Ptr k 0) (b_ptr b) (b_len b) = Inr (c, d, h') \<and>
    cloned h b hs vs c (b\<lparr>b_data := d\<rparr>) h'"
proof -
  note so = sole_owner [OF inv k buf, simplified]
  let ?s = "\<lparr>sh_buf = Ptr k 0, sh_cap = off (b_ptr b) + b_len b, sh_ref_cnt = 2\<rparr>"
  obtain a where a: "new_block alloc h 24 8 (Shared ?s) = Inr (a, h(a \<mapsto> Shared ?s))" "h a = None" "0 < a" "a mod 8 = 0"
    using new_block_ok [OF bytes_invD(1) [OF inv], of 24 8 "Shared ?s"] by auto
  have ev: "even a" using a(4) by presburger
  let ?h = "h(a \<mapsto> Shared ?s)"
  let ?c = "\<lparr>b_ptr = b_ptr b, b_len = b_len b, b_data = Ptr a 0, b_vtable = SHARED_VTABLE\<rparr>"
  let ?b = "b\<lparr>b_data := Ptr a 0\<rparr>" and ?new = "{#HB ?c, HB (b\<lparr>b_data := Ptr a 0\<rparr>)#}"
  have ne: "k \<noteq> a" using buf a(2) by auto
  have bok: "handle_ok h (HB b)" using bytes_invD(3) [OF inv] by simp
  have slice: "h_slice ?h (HB ?c) = h_slice h (HB b)" "h_slice ?h (HB ?b) = h_slice h (HB b)"
    using so(2) ne by (simp_all add: h_slice_def heap_read_cong)
  have ok: "handle_ok ?h (HB ?c)" "handle_ok ?h (HB ?b)" "key (HB ?c) = Some a" "key (HB ?b) = Some a"
    using bok slice so ev vt ne buf by (auto simp: handle_ok_def res_buf_def buf_of_def lies_def)
  have "res_buf ?h a = Some k" "res_ok ?h a" "res_count ?h a = size ?new" "exclusive ?new"
    using buf ne so(3,6) by (auto simp: res_buf_def res_ok_def res_count_def clash_def simp flip: length_greater_0_conv)
  then have "bytes_inv ?h (?new + hs) (insert k vs - set_option (Some k))" "undisturbed h hs (insert k vs) ?h"
    by (intro acquire_block [where new = ?new, OF so(8) _ a(2,3) refl]; use ok in simp)+
  then have "bytes_inv ?h (?new + hs) (insert k vs - set_option (Some k))" "undisturbed h hs vs ?h"
    by (auto elim: undisturbed_mono)
  with so(4) have "cloned h b hs vs ?c ?b ?h"
    using ok slice by (auto simp: cloned_def shrinkable_def contents_def)
  moreover have "shallow_clone_vec alloc h (b_data b) (b_data b) (Ptr k 0) (b_ptr b) (b_len b) = Inr (?c, Ptr a 0, ?h)"
    using a so(2) kind_even [OF ev]
    by (simp add: shallow_clone_vec_def offset_from_def rust_assert_def KIND_ARC_def atomic_defs)
  ultimately show ?thesis by blast
qed

text \<open>
  \<open>Clone for Bytes\<close>, whatever owns the memory: the clone is another handle to the same
  bytes, and both it and the original may shrink from now on.
\<close>

lemma bytes_clone_ok:
  assumes inv: "bytes_inv h (add_mset (HB b) hs) vs" and few: "size hs < 2 ^ 63 - 1"
  shows "\<exists>c b' h'. bytes_clone alloc h b = Inr (c, b', h') \<and> cloned h b hs vs c b' h'"
proof -
  have bok: "handle_ok h (HB b)" using bytes_invD(3) [OF inv] by simp
  then show ?thesis
  proof (cases rule: handle_cases)
    case static
    let ?c = "from_static (b_ptr b) (b_len b)"
    have c: "handle_ok h (HB ?c)" "key (HB ?c) = None" "contents h (HB ?c) = contents h (HB b)"
      using bok static by (auto simp: handle_ok_def from_static_def h_slice_def contents_def)
    with inv have "bytes_inv h (add_mset (HB ?c) (add_mset (HB b) hs)) vs" by (simp add: inv_keyless)
    with c static have "cloned h b hs vs ?c b h" by (auto simp: cloned_def from_static_def shrinkable_def)
    with static read_contents(1) [OF bok] show ?thesis
      by (simp add: bytes_clone_def static_clone_def)
  next
    case (owned k ow)
    from clone_owned [OF inv owned(2) few owned(4,3,1)] owned(1) show ?thesis
      by (auto simp: bytes_clone_def Let_def)
  next
    case (arc k s)
    from clone_shared [OF inv arc(2) few arc(4,3)] obtain c h' where
      c: "shallow_clone_arc h (b_data b) (b_ptr b) (b_len b) = Inr (c, h')" "cloned h b hs vs c b h'" by blast
    then have "bytes_clone alloc h b = Inr (c, b, h')"
      using arc(1,5)
      by (auto simp: bytes_clone_def shared_clone_def promotable_even_clone_def promotable_odd_clone_def atomic_defs Let_def)
    with c(2) show ?thesis by blast
  next
    case (vec k cs)
    from clone_promote [OF inv vec(2,3,1)] obtain c d h' where
      c: "shallow_clone_vec alloc h (b_data b) (b_data b) (Ptr k 0) (b_ptr b) (b_len b) = Inr (c, d, h')"
        "cloned h b hs vs c (b\<lparr>b_data := d\<rparr>) h'" by blast
    then have "bytes_clone alloc h b = Inr (c, b\<lparr>b_data := d\<rparr>, h')"
      using vec by (cases "b_vtable b")
        (simp_all add: bytes_clone_def promotable_even_clone_def promotable_odd_clone_def atomic_defs rust_assert_def Let_def)
    with c(2) show ?thesis by blast
  next
    case (arcv k s)
    from clone_shared_v [OF inv arcv(2) few arcv(4,3,5)] arcv(1) show ?thesis
      by (auto simp: bytes_clone_def Let_def)
  qed
qed

end

section \<open>Dropping\<close>

lemma release_shared_ok:
  assumes inv: "bytes_inv h (add_mset x hs) vs" and k: "key x = Some k" and s: "h k = Some (Shared s)"
  shows "\<exists>h'. release_shared h (Ptr k 0) = Inr h' \<and> dropped h hs vs h'"
proof -
  have x: "x \<in># add_mset x hs" by simp
  note r = key_resource [OF inv x k]
  let ?h = "h(k \<mapsto> Shared (s\<lparr>sh_ref_cnt := sh_ref_cnt s - 1\<rparr>))"
  have "unat (sh_ref_cnt s) = Suc (refs hs k)"
    using bytes_invD(5) [OF inv r(1)] s k by (simp add: res_count_def)
  then have nz: "sh_ref_cnt s \<noteq> 0" by auto
  show ?thesis
  proof (cases "sh_ref_cnt s = 1")
    case False
    have "dropped h hs vs ?h"
      by (rule inv_drop_ref [OF inv k refl])
        (use s False in \<open>simp_all add: agree_recount res_count_def count_drop [OF nz] unat_eq_0\<close>)
    then show ?thesis using False s by (simp add: release_shared_def get_shared_def atomic_defs Let_def)
  next
    case True
    from r(8) s r(2) obtain u cs where
      u: "sh_buf s = Ptr u 0" "buf_of x = Some u" "h u = Some (Buffer cs)" "length cs = sh_cap s"
      by (cases "sh_buf s") (auto simp: res_ok_def res_buf_def)
    then have ne: "u \<noteq> k" using s by auto
    have alone: "k \<notin> keys hs" using alone [OF inv k] s True by (simp add: res_count_def)
    have "dropped h hs vs (h(u := None, k := None))"
      by (rule dropped_release [OF inv k alone]) (use u(2) in auto)
    then show ?thesis using True s u ne
      by (simp add: release_shared_def get_shared_def dealloc_def atomic_defs Let_def fun_upd_twist)
  qed
qed

lemma release_shared_v_ok:
  assumes inv: "bytes_inv h (add_mset x hs) vs" and k: "key x = Some k" and s: "h k = Some (Shared_V s)"
  shows "\<exists>h'. release_shared_v h (Ptr k 0) = Inr h' \<and> dropped h hs vs h'"
proof -
  have x: "x \<in># add_mset x hs" by simp
  note r = key_resource [OF inv x k]
  let ?h = "h(k \<mapsto> Shared_V (s\<lparr>sv_ref_count := sv_ref_count s - 1\<rparr>))"
  have "unat (sv_ref_count s) = Suc (refs hs k)"
    using bytes_invD(5) [OF inv r(1)] s k by (simp add: res_count_def)
  then have nz: "sv_ref_count s \<noteq> 0" by auto
  show ?thesis
  proof (cases "sv_ref_count s = 1")
    case False
    have "dropped h hs vs ?h"
      by (rule inv_drop_ref [OF inv k refl])
        (use s False in \<open>simp_all add: agree_recount res_count_def count_drop [OF nz] unat_eq_0\<close>)
    then show ?thesis using False s by (simp add: release_shared_v_def get_shared_v_def atomic_defs Let_def)
  next
    case one: True
    have alone: "k \<notin> keys hs" using alone [OF inv k] s one by (simp add: res_count_def)
    show ?thesis
    proof (cases "hv_cap (sv_vec s) = 0")
      case True
      then have "buf_of x = None" using r(2) s by (simp add: res_buf_def)
      then have "dropped h hs vs (h(k := None))"
        by (intro dropped_release [OF inv k alone]) auto
      then show ?thesis using True one s
        by (simp add: release_shared_v_def get_shared_v_def vec_drop_def atomic_defs Let_def)
    next
      case False
      from False r(8) s r(2) obtain u cs where
        u: "hv_ptr (sv_vec s) = Ptr u 0" "buf_of x = Some u" "h u = Some (Buffer cs)" "length cs = hv_cap (sv_vec s)"
        by (cases "hv_ptr (sv_vec s)") (auto simp: res_ok_def res_buf_def)
      then have ne: "u \<noteq> k" using s by auto
      have "dropped h hs vs (h(u := None, k := None))"
        by (rule dropped_release [OF inv k alone]) (use u(2) in auto)
      then show ?thesis using one False s u ne
        by (simp add: release_shared_v_def get_shared_v_def vec_drop_def dealloc_def atomic_defs Let_def fun_upd_twist)
    qed
  qed
qed

lemma owned_drop_ok:
  assumes inv: "bytes_inv h (add_mset x hs) vs" and k: "key x = Some k" and ow: "h k = Some (Owned ow)"
    and few: "size hs < 2 ^ 63 - 1"
  shows "\<exists>h'. owned_drop_impl h (Ptr k 0) = Inr h' \<and> dropped h hs vs h'"
proof -
  have x: "x \<in># add_mset x hs" by simp
  note r = key_resource [OF inv x k]
  let ?h = "h(k \<mapsto> Owned (ow\<lparr>ow_ref_cnt := ow_ref_cnt ow - 1\<rparr>))"
  have cnt: "unat (ow_ref_cnt ow) = Suc (refs hs k)"
    using few_refs(2) [OF inv k few] ow by (simp add: res_count_def)
  then have nz: "ow_ref_cnt ow \<noteq> 0" by auto
  have small: "ow_ref_cnt ow \<le> ref_limit"
    using few_refs(1) [OF inv k few] ow by (simp add: word_le_nat_alt ref_limit_unat res_count_def)
  have guard: "rust_assert (ow_ref_cnt ow > 0 \<and> ow_ref_cnt ow \<le> ref_limit) msg = Inr ()" for msg
    using nz small by (simp add: rust_assert_def word_gt_0)
  show ?thesis
  proof (cases "ow_ref_cnt ow = 1")
    case False
    have "dropped h hs vs ?h"
      by (rule inv_drop_ref [OF inv k refl])
        (use ow False in \<open>simp_all add: agree_recount res_count_def count_drop [OF nz] unat_eq_0\<close>)
    then show ?thesis using False ow guard by (simp add: owned_drop_impl_def get_owned_def atomic_defs Let_def)
  next
    case True
    have u: "buf_of x = ow_owner ow" using r(2) ow by (simp add: res_buf_def)
    have alone: "k \<notin> keys hs" using alone [OF inv k] ow True by (simp add: res_count_def)
    show ?thesis
    proof (cases "ow_owner ow")
      case None
      have "dropped h hs vs (h(k := None))"
        by (rule dropped_release [OF inv k alone]) (use u None in auto)
      then show ?thesis using True ow None guard
        by (simp add: owned_drop_impl_def owner_drop_def get_owned_def atomic_defs Let_def)
    next
      case (Some a)
      with r(8) ow obtain cs where cs: "h a = Some (Buffer cs)" by (auto simp: res_ok_def)
      with ow have ne: "a \<noteq> k" by auto
      have "dropped h hs vs (h(a := None, k := None))"
        by (rule dropped_release [OF inv k alone]) (use u Some in auto)
      then show ?thesis using True ow Some cs ne guard
        by (simp add: owned_drop_impl_def owner_drop_def get_owned_def atomic_defs Let_def fun_upd_twist)
    qed
  qed
qed

text \<open>
  \<open>Drop for Bytes\<close>: the handle goes, and with the last handle of a resource all of its
  memory, exactly once.
\<close>

lemma bytes_drop_ok:
  assumes inv: "bytes_inv h (add_mset (HB b) hs) vs" and few: "size hs < 2 ^ 63 - 1"
  shows "\<exists>h'. bytes_drop h b = Inr h' \<and> dropped h hs vs h'"
proof -
  have bok: "handle_ok h (HB b)" using bytes_invD(3) [OF inv] by simp
  then show ?thesis
  proof (cases rule: handle_cases)
    case static
    with inv bok show ?thesis by (simp add: bytes_drop_def dropped_def inv_keyless)
  next
    case (owned k ow)
    with owned_drop_ok [OF inv owned(2,4) few] show ?thesis
      by (simp add: bytes_drop_def owned_drop_def atomic_defs)
  next
    case (arc k s)
    with release_shared_ok [OF inv arc(2,4)] show ?thesis
      by (auto simp: bytes_drop_def shared_drop_def promotable_even_drop_def promotable_odd_drop_def atomic_defs)
  next
    case (vec k cs)
    note so = sole_owner [OF inv vec(2,3), simplified]
    have "dropped h hs vs (h(k := None))"
      by (rule dropped_release [OF inv vec(2) so(1)]) (use so(2,5) in \<open>auto simp: buf_of_def\<close>)
    moreover have "free_boxed_slice h (Ptr k 0) (b_ptr b) (b_len b) = Inr (h(k := None))"
      using so(2,3) vec(3) by (simp add: free_boxed_slice_def offset_from_def dealloc_def)
    ultimately show ?thesis using vec
      by (cases "b_vtable b")
        (simp_all add: bytes_drop_def promotable_even_drop_def promotable_odd_drop_def atomic_defs rust_assert_def)
  next
    case (arcv k s)
    with release_shared_v_ok [OF inv arcv(2,4)] show ?thesis
      by (simp add: bytes_drop_def shared_v_drop_def atomic_defs)
  qed
qed

section \<open>Uniqueness\<close>

text \<open>\<open>is_unique\<close> is true exactly when no other handle shares the memory, which it can tell only for heap memory of its own.\<close>

lemma count_one_iff:
  assumes "bytes_inv h (add_mset x hs) vs" "key x = Some k"
  shows "res_count h k = 1 \<longleftrightarrow> (\<forall>c \<in># hs. key c \<noteq> Some k)"
  using bytes_invD(5) [OF assms(1), of k] assms(2) refs_zero_iff [of hs k] by (auto simp: keys_def)

lemma is_unique_iff:
  assumes inv: "bytes_inv h (add_mset (HB b) hs) vs"
  shows "is_unique h b =
    Inr (b_vtable b \<noteq> STATIC_VTABLE \<and> b_vtable b \<noteq> OWNED_VTABLE \<and> (\<forall>c \<in># hs. key c \<noteq> key (HB b)))"
proof -
  have bok: "handle_ok h (HB b)" using bytes_invD(3) [OF inv] by simp
  show ?thesis using bok
  proof (cases rule: handle_cases)
    case (arc k s)
    have "sh_ref_cnt s = 1 \<longleftrightarrow> (\<forall>c \<in># hs. key c \<noteq> Some k)"
      using count_one_iff [OF inv arc(2)] arc(4) by (simp add: res_count_def word_unat_eq_iff)
    with arc show ?thesis
      by (auto simp: is_unique_def shared_is_unique_def promotable_is_unique_def get_shared_def atomic_defs)
  next
    case (vec k cs)
    with count_one_iff [OF inv vec(2)] show ?thesis
      by (auto simp: is_unique_def promotable_is_unique_def atomic_defs res_count_def)
  next
    case (arcv k s)
    have "sv_ref_count s = 1 \<longleftrightarrow> (\<forall>c \<in># hs. key c \<noteq> Some k)"
      using count_one_iff [OF inv arcv(2)] arcv(4) by (simp add: res_count_def word_unat_eq_iff)
    with arcv show ?thesis
      by (auto simp: is_unique_def shared_v_is_unique_def get_shared_v_def atomic_defs)
  qed (simp_all add: is_unique_def)
qed

end
