(* ===== verification/Bytes_Vec.thy ===== *)
theory Bytes_Vec
  imports Bytes_Ops
begin

unbundle bit_operations_syntax

text \<open>
  Between handles and the owners of plain buffers: vectors, boxed slices and the owners given
  to \<open>from_owner\<close>. Memory changes hands in both directions and is never shared or lost.
\<close>

section \<open>Vectors\<close>

text \<open>The buffer of a vector, if it has any capacity\<close>

definition vec_buf :: "hvec \<Rightarrow> addr set" where
  "vec_buf v = (if hv_cap v = 0 then {} else {blk (hv_ptr v)})"

definition vec_ok :: "heap \<Rightarrow> hvec \<Rightarrow> u8 list \<Rightarrow> bool" where
  "vec_ok h v bs \<longleftrightarrow>
     hv_len v \<le> hv_cap v \<and> heap_read h (hv_ptr v) (hv_len v) = Inr bs \<and>
     (if hv_cap v = 0 then hv_ptr v = dangling
      else off (hv_ptr v) = 0 \<and> (\<exists>cs. h (blk (hv_ptr v)) = Some (Buffer cs) \<and> length cs = hv_cap v))"

lemma vec_buf_len [simp]: "vec_buf (v\<lparr>hv_len := n\<rparr>) = vec_buf v"
  by (simp add: vec_buf_def)

lemma heap_read_initialised:
  assumes "heap_read h p n = Inr bs" "h (blk p) = Some (Buffer cs)" "0 < n \<or> off p \<le> length cs"
  shows "off p + n \<le> length cs" "None \<notin> set (take n (drop (off p) cs))"
  using assms by (auto simp: heap_read_def cells_of_def Let_def split: if_splits)

lemma vec_ok_cases:
  assumes "vec_ok h v bs"
  obtains (none) "hv_cap v = 0" "hv_len v = 0" "hv_ptr v = dangling" "bs = []" "v = vec_new"
    | (buffer) u cs where "0 < hv_cap v" "hv_ptr v = Ptr u 0" "h u = Some (Buffer cs)" "length cs = hv_cap v"
        "vec_buf v = {u}" "hv_len v \<le> hv_cap v" "heap_read h (Ptr u 0) (hv_len v) = Inr bs"
        "None \<notin> set (take (hv_len v) cs)"
proof (cases "hv_cap v = 0")
  case True
  with assms have v: "hv_len v = 0" "hv_ptr v = dangling" "bs = []" by (auto simp: vec_ok_def dest: heap_read_length)
  with True have "v = vec_new" by (cases v) (simp add: vec_new_def)
  with True v none show thesis by blast
next
  case False
  obtain u j where p: "hv_ptr v = Ptr u j" by (cases "hv_ptr v")
  with assms False obtain cs where cs: "j = 0" "h u = Some (Buffer cs)" "length cs = hv_cap v" "hv_len v \<le> hv_cap v"
    "heap_read h (Ptr u 0) (hv_len v) = Inr bs"
    by (auto simp: vec_ok_def)
  then have "None \<notin> set (take (hv_len v) cs)" using heap_read_initialised(2) [OF cs(5)] by simp
  with False p cs buffer show thesis by (simp add: vec_buf_def)
qed

lemma vec_new_ok: "vec_ok h vec_new []" "vec_buf vec_new = {}"
  by (simp_all add: vec_ok_def vec_buf_def vec_new_def heap_read_def dangling_def addr_of_def)

lemma from_raw_parts_ok: "vec_ok h v bs \<Longrightarrow> from_raw_parts h (hv_ptr v) (hv_len v) (hv_cap v) = Inr v"
  by (erule vec_ok_cases) (auto simp: from_raw_parts_def vec_new_def)

lemma vec_ok_kept:
  assumes "vec_ok h v bs" "\<forall>a \<in> vec_buf v. h' a = h a"
  shows "vec_ok h' v bs"
  using assms(1)
proof (cases rule: vec_ok_cases)
  case none
  then show ?thesis using vec_new_ok by simp
next
  case (buffer u cs)
  with assms(2) have "h' u = h u" by simp
  with buffer heap_read_cong [of "hv_len v" h' "Ptr u 0" h] show ?thesis by (auto simp: vec_ok_def)
qed

text \<open>No slice is longer than \<open>isize::MAX\<close>.\<close>

lemma contents_bounded:
  assumes "bytes_inv h hs vs" "x \<in># hs"
  shows "h_len x \<le> isize_max" "length (contents h x) \<le> isize_max"
proof -
  have ok: "handle_ok h x" using assms by (rule bytes_invD)
  note read = h_slice_contents [OF ok, unfolded h_slice_def]
  show "h_len x \<le> isize_max"
  proof (cases "h_len x = 0")
    case False
    with read obtain cs where "cells_of h (blk (h_ptr x)) = Some cs" "off (h_ptr x) + h_len x \<le> length cs"
      by (auto simp: heap_read_def split: if_splits option.splits)
    then show ?thesis using bytes_invD(8) [OF assms(1)] by (fastforce simp: bounded_def)
  qed simp
  with length_contents [OF ok] show "length (contents h x) \<le> isize_max" by simp
qed

section \<open>Writing into a buffer\<close>

definition patched :: "u8 option list \<Rightarrow> nat \<Rightarrow> u8 list \<Rightarrow> u8 option list" where
  "patched cs p bs = take p cs @ map Some bs @ drop (p + length bs) cs"

lemma length_patched [simp]: "p + length bs \<le> length cs \<Longrightarrow> length (patched cs p bs) = length cs"
  by (simp add: patched_def)

lemma nth_patched:
  "p + length bs \<le> length cs \<Longrightarrow> i < length cs \<Longrightarrow>
   patched cs p bs ! i = (if i < p then cs ! i else if i < p + length bs then Some (bs ! (i - p)) else cs ! i)"
  by (auto simp: patched_def nth_append)

lemma take_patched: "p + length bs \<le> length cs \<Longrightarrow> take (p + length bs) (patched cs p bs) = take p cs @ map Some bs"
  by (simp add: patched_def)

lemma heap_write_ok:
  assumes "h u = Some (Buffer cs)" "p + length bs \<le> length cs"
  shows "heap_write h (Ptr u p) bs = Inr (h(u \<mapsto> Buffer (patched cs p bs)))"
proof (cases "bs = []")
  case True
  with assms show ?thesis by (simp add: heap_write_def patched_def fun_upd_idem)
next
  case False
  with assms show ?thesis by (simp add: heap_write_def patched_def)
qed

lemma heap_read_patched:
  assumes "p + length bs \<le> length cs" "u \<noteq> 0"
  shows "heap_read (h(u \<mapsto> Buffer (patched cs p bs))) (Ptr u p) (length bs) = Inr bs"
proof -
  have "take (length bs) (drop p (patched cs p bs)) = map Some bs" using assms by (simp add: patched_def)
  with assms show ?thesis by (auto simp: heap_read_def cells_of_def addr_of_def Let_def comp_def)
qed

section \<open>From a boxed slice\<close>

lemma from_boxed_slice_ok:
  assumes inv: "bytes_inv h hs vs" and u: "u \<in> vs" and buf: "h u = Some (Buffer cs)" "length cs = len" "0 < len"
    and bs: "heap_read h (Ptr u 0) len = Inr bs"
  defines "b \<equiv> from_boxed_slice (Ptr u 0) len"
  shows "bytes_inv h (add_mset (HB b) hs) (vs - {u})" "contents h (HB b) = bs"
proof -
  have "u \<noteq> 0" using block_nonzero [OF inv] buf(1) by blast
  moreover have "None \<notin> set cs" using heap_read_initialised(2) [OF bs] buf by simp
  ultimately have b: "handle_ok h (HB b)" "key (HB b) = Some u" and c: "contents h (HB b) = bs"
    using buf bs tag [of u]
    by (auto simp: b_def from_boxed_slice_def handle_ok_def contents_def h_slice_def lies_def buf_of_def
        res_buf_def addr_of_def and_one_nat even_iff_mod_2_eq_zero)
  show "contents h (HB b) = bs" by (fact c)
  show "bytes_inv h (add_mset (HB b) hs) (vs - {u})"
    using inv_acquire(1) [OF inv, of "Some u" h u "{#HB b#}"] u b buf by (auto simp: res_buf_def res_ok_def res_count_def)
qed

context allocator_laws
begin

lemma to_vec_ok:
  assumes inv: "bytes_inv h hs vs" and small: "length bs \<le> isize_max"
  shows "\<exists>v h'. to_vec alloc h bs = Inr (v, h') \<and> vec_ok h' v bs \<and> bytes_inv h' hs (vec_buf v \<union> vs) \<and> undisturbed h hs vs h' \<and>
    vec_buf v \<inter> (vs \<union> dom h) = {} \<and> (\<forall>a. h a \<noteq> None \<longrightarrow> h' a = h a) \<and> hv_cap v = length bs"
proof (cases "bs = []")
  case True
  with inv show ?thesis using vec_new_ok by (simp add: to_vec_def vec_new_def)
next
  case False
  obtain a where a: "new_block alloc h (length bs) 1 (Buffer (map Some bs)) = Inr (a, h(a \<mapsto> Buffer (map Some bs)))"
    "h a = None" "0 < a"
    using new_block_ok [OF bytes_invD(1) [OF inv]] by blast
  let ?h = "h(a \<mapsto> Buffer (map Some bs))" and ?v = "\<lparr>hv_ptr = Ptr a 0, hv_len = length bs, hv_cap = length bs\<rparr>"
  have "vec_ok ?h ?v bs"
    using False by (auto simp: vec_ok_def heap_read_def cells_of_def comp_def)
  moreover have "a \<notin> vs" using not_vec(3) [OF inv a(2)] .
  moreover have "bytes_inv ?h hs (insert a vs)" "undisturbed h hs (vs - {a}) ?h"
    by (rule inv_vec_change [OF inv _ refl, of a "Some (Buffer (map Some bs))"]; use a small in simp)+
  ultimately show ?thesis using a False by (auto simp: to_vec_def vec_buf_def)
qed

text \<open>From a vector\<close>

lemma from_vec_ok:
  assumes inv: "bytes_inv h hs vs" and v: "vec_ok h v bs" "vec_buf v \<subseteq> vs"
  shows "\<exists>b h'. from_vec alloc h v = Inr (b, h') \<and> bytes_inv h' (add_mset (HB b) hs) (vs - vec_buf v) \<and>
    contents h' (HB b) = bs \<and> undisturbed h hs (vs - vec_buf v) h'"
  using v(1)
proof (cases rule: vec_ok_cases)
  case none
  with inv show ?thesis
    by (auto simp: from_vec_def from_boxed_slice_def vec_buf_def bytes_new_ok)
next
  case (buffer u cs)
  note u = buffer
  have uv: "u \<in> vs" using u(5) v(2) by simp
  have u0: "u \<noteq> 0" using block_nonzero [OF inv] u(3) by blast
  show ?thesis
  proof (cases "hv_len v = hv_cap v")
    case True
    with u from_boxed_slice_ok [OF inv uv u(3,4)] show ?thesis by (auto simp: from_vec_def)
  next
    case neq: False
    let ?s = "\<lparr>sh_buf = hv_ptr v, sh_cap = hv_cap v, sh_ref_cnt = 1\<rparr>"
    obtain a where a: "new_block alloc h 24 8 (Shared ?s) = Inr (a, h(a \<mapsto> Shared ?s))" "h a = None" "0 < a" "a mod 8 = 0"
      using new_block_ok [OF bytes_invD(1) [OF inv], of 24 8 "Shared ?s"] by auto
    have ev: "even a" using a(4) by presburger
    let ?h = "h(a \<mapsto> Shared ?s)"
    let ?b = "\<lparr>b_ptr = hv_ptr v, b_len = hv_len v, b_data = Ptr a 0, b_vtable = SHARED_VTABLE\<rparr>"
    have ne: "u \<noteq> a" using u(3) a(2) by auto
    have slice: "h_slice ?h (HB ?b) = Inr bs" using u(2,7) ne by (simp add: h_slice_def)
    have b: "handle_ok ?h (HB ?b)" "key (HB ?b) = Some a"
      using slice u u0 ne by (auto simp: handle_ok_def res_buf_def addr_of_def buf_of_def lies_def)
    have "res_buf ?h a = Some u" "res_ok ?h a" "res_count ?h a = size {#HB ?b#}"
      using u ne by (auto simp: res_buf_def res_ok_def res_count_def)
    then have "bytes_inv ?h ({#HB ?b#} + hs) (vs - set_option (Some u))" "undisturbed h hs vs ?h"
      by (intro acquire_block [where new = "{#HB ?b#}", OF inv _ a(2,3) refl]; use b uv in simp)+
    moreover have "from_vec alloc h v = Inr (?b, ?h)"
      using neq a(1) kind_even [OF ev] by (simp add: from_vec_def rust_assert_def KIND_ARC_def)
    ultimately show ?thesis using slice u(5) by (auto simp: contents_def elim: undisturbed_mono)
  qed
qed

lemma bytes_copy_from_slice_ok:
  assumes inv: "bytes_inv h hs vs" and small: "length bs \<le> isize_max"
  shows "\<exists>b h'. bytes_copy_from_slice alloc h bs = Inr (b, h') \<and> bytes_inv h' (add_mset (HB b) hs) vs \<and>
    contents h' (HB b) = bs \<and> undisturbed h hs vs h'"
proof -
  obtain v h1 where v: "to_vec alloc h bs = Inr (v, h1)" "vec_ok h1 v bs" "bytes_inv h1 hs (vec_buf v \<union> vs)"
    "undisturbed h hs vs h1" "vec_buf v \<inter> vs = {}"
    using to_vec_ok [OF assms] by auto
  have vs: "(vec_buf v \<union> vs) - vec_buf v = vs" using v(5) by auto
  from from_vec_ok [OF v(3,2)] vs v(1,4) show ?thesis
    by (auto simp: bytes_copy_from_slice_def intro: undisturbed_trans)
qed

text \<open>
  An owner that has its memory to itself. What its \<open>as_ref\<close> does must not depend on where the box
  is; the bytes it returns lie in that memory.
\<close>

lemma from_owner_boxes:
  assumes inv: "bytes_inv h hs vs"
  obtains a where "new_block alloc h 24 8 (Owned ow) = Inr (a, h(a \<mapsto> Owned ow))" "h a = None" "0 < a"
  using new_block_ok [OF bytes_invD(1) [OF inv], of 24 8 "Owned ow"] by auto

lemma from_owner_ok:
  assumes inv: "bytes_inv h hs vs" and own: "set_option owner \<subseteq> vs"
    and as_ref: "\<And>a ow. h a = None \<Longrightarrow> as_ref (h(a \<mapsto> Owned ow)) owner = Inr (p, len)"
    and p: "owner = (if blk p = 0 then None else Some (blk p))" and bs: "heap_read h p len = Inr bs"
  shows "\<exists>b h' a. from_owner alloc as_ref h owner = Inr (Ok b, h') \<and>
    b = \<lparr>b_ptr = p, b_len = len, b_data = Ptr a 0, b_vtable = OWNED_VTABLE\<rparr> \<and> h a = None \<and>
    h' = h(a \<mapsto> Owned \<lparr>ow_ref_cnt = 1, ow_owner = owner\<rparr>) \<and>
    bytes_inv h' (add_mset (HB b) hs) (vs - set_option owner) \<and> contents h' (HB b) = bs \<and>
    undisturbed h hs (vs - set_option owner) h'"
proof -
  let ?o = "\<lparr>ow_ref_cnt = 1, ow_owner = owner\<rparr>"
  from from_owner_boxes [OF inv, of ?o] obtain a where
    a: "new_block alloc h 24 8 (Owned ?o) = Inr (a, h(a \<mapsto> Owned ?o))" "h a = None" "0 < a" by blast
  let ?h = "h(a \<mapsto> Owned ?o)"
  let ?b = "\<lparr>b_ptr = p, b_len = len, b_data = Ptr a 0, b_vtable = OWNED_VTABLE\<rparr>"
  have buf: "\<exists>cs. h u = Some (Buffer cs)" if "owner = Some u" for u
    using separateD(5) [OF bytes_invD(6) [OF inv]] own that by auto
  then have ne: "owner \<noteq> Some a" using a(2) by auto
  have read: "heap_read ?h p len = Inr bs"
  proof (cases "blk p = a")
    case True
    with ne p a(3) show ?thesis by auto
  next
    case False
    then have "cells_of ?h (blk p) = cells_of h (blk p)" by (simp add: cells_of_def)
    then have "heap_read ?h p len = heap_read h p len" by (simp only: heap_read_def)
    with bs show ?thesis by simp
  qed
  then have slice: "h_slice ?h (HB ?b) = Inr bs" by (simp add: h_slice_def)
  have "0 < addr_of p"
    using bs bytes_invD(2) [OF inv]
    by (cases "blk p = 0") (auto simp: heap_read_def cells_of_def addr_of_def split: if_splits)
  with slice p have b: "handle_ok ?h (HB ?b)" "key (HB ?b) = Some a"
    by (auto simp: handle_ok_def res_buf_def buf_of_def lies_def)
  have "res_buf ?h a = owner" "res_ok ?h a" "res_count ?h a = size {#HB ?b#}"
    using buf ne a(2) by (auto simp: res_buf_def res_ok_def res_count_def)
  then have "bytes_inv ?h ({#HB ?b#} + hs) (vs - set_option owner)" "undisturbed h hs vs ?h"
    by (intro acquire_block [where new = "{#HB ?b#}", OF inv _ a(2,3) refl]; use b own in simp)+
  moreover have "from_owner alloc as_ref h owner = Inr (Ok ?b, ?h)"
    using a(1) as_ref [OF a(2)] by (simp add: from_owner_def get_owned_def)
  ultimately show ?thesis using slice a(2) by (auto simp: contents_def elim: undisturbed_mono)
qed

text \<open>When \<open>as_ref\<close> panics, the box and the owner's memory are freed and nothing else is touched.\<close>

lemma owner_box_drop:
  assumes own: "\<And>u. owner = Some u \<Longrightarrow> \<exists>cs. h u = Some (Buffer cs)" and a: "h a = None"
    and b: "b_vtable b = OWNED_VTABLE" "b_data b = Ptr a 0"
  shows "bytes_drop (h(a \<mapsto> Owned \<lparr>ow_ref_cnt = 1, ow_owner = owner\<rparr>)) b = Inr (h |` (- set_option owner))"
proof -
  have "(1::u64) \<le> ref_limit" by (simp add: word_le_nat_alt ref_limit_unat)
  then have drop: "bytes_drop (h(a \<mapsto> Owned \<lparr>ow_ref_cnt = 1, ow_owner = owner\<rparr>)) b =
      res_bind (owner_drop (h(a \<mapsto> Owned \<lparr>ow_ref_cnt = 0, ow_owner = owner\<rparr>)) owner) (\<lambda>h. Inr (h(a := None)))"
    using b by (simp add: bytes_drop_def owned_drop_def owned_drop_impl_def get_owned_def atomic_defs rust_assert_def)
  show ?thesis
  proof (cases owner)
    case None
    with drop a show ?thesis by (simp add: owner_drop_def fun_upd_idem restrict_map_def)
  next
    case (Some u)
    then obtain cs where "h u = Some (Buffer cs)" using own by blast
    moreover from this a have "u \<noteq> a" by auto
    ultimately show ?thesis using drop a Some
      by (simp add: owner_drop_def) (auto simp: fun_eq_iff restrict_map_def)
  qed
qed

lemma from_owner_panics:
  assumes inv: "bytes_inv h hs vs" and own: "set_option owner \<subseteq> vs"
    and as_ref: "\<And>a ow. h a = None \<Longrightarrow> as_ref (h(a \<mapsto> Owned ow)) owner = Inl (Panic q)"
  shows "from_owner alloc as_ref h owner = Inr (Err q, h |` (- set_option owner))"
proof -
  let ?o = "\<lparr>ow_ref_cnt = 1, ow_owner = owner\<rparr>"
  from from_owner_boxes [OF inv, of ?o] obtain a where
    a: "new_block alloc h 24 8 (Owned ?o) = Inr (a, h(a \<mapsto> Owned ?o))" "h a = None" by blast
  have "\<exists>cs. h u = Some (Buffer cs)" if "owner = Some u" for u
    using separateD(5) [OF bytes_invD(6) [OF inv]] own that by auto
  with a as_ref [OF a(2)] show ?thesis by (simp add: from_owner_def get_owned_def owner_box_drop)
qed

end

section \<open>Into a vector\<close>

text \<open>
  Conversions into \<open>Vec<u8>\<close>: the vector holds the bytes of the handle and owns its buffer.
\<close>

definition to_vector :: "heap \<Rightarrow> handle \<Rightarrow> handle multiset \<Rightarrow> addr set \<Rightarrow> hvec \<Rightarrow> heap \<Rightarrow> bool" where
  "to_vector h x hs vs v h' \<longleftrightarrow>
     vec_ok h' v (contents h x) \<and> vec_buf v \<inter> vs = {} \<and>
     bytes_inv h' hs (vec_buf v \<union> vs) \<and> undisturbed h hs vs h'"

text \<open>The last handle of a resource leaves its buffer to a vector, with new contents.\<close>

lemma release_to_vec:
  assumes inv: "bytes_inv h (add_mset x hs) vs" and k: "key x = Some k" "k \<notin> keys hs"
    and u: "buf_of x = Some u" and cs: "length cs \<le> isize_max"
    and h': "\<And>a. h' a = (if a = u then Some (Buffer cs) else if a = k then None else h a)"
  shows "bytes_inv h' hs (insert u vs)" "undisturbed h hs vs h'" "u \<notin> vs"
proof -
  have x: "x \<in># add_mset x hs" by simp
  note r = key_resource [OF inv x k(1)]
  show uvs: "u \<notin> vs" using not_vec(2) [OF inv r(1)] r(2) u by simp
  have same: "\<forall>a. a \<notin> insert k {u} \<longrightarrow> h' a = h a" using h' by auto
  have "given_up h' {u} vs (insert u vs)" using h' cs by (auto simp: given_up_def)
  note rel = inv_release [OF inv k _ same _ this]
  show "bytes_inv h' hs (insert u vs)" using rel(1) u h' by auto
  have "h' v = h v" if "v \<in> vs" for v using that not_vec(1) [OF inv r(1)] uvs h' by auto
  moreover have "h' a = Some (Static bs) \<longleftrightarrow> h a = Some (Static bs)" for a bs
    using h' r(5) [OF u] r(6) [of bs] by auto
  ultimately show "undisturbed h hs vs h'" using rel(2) u h' by (auto simp: undisturbed_def)
qed

text \<open>Moving the bytes to the front of a buffer that nobody else uses\<close>

lemma move_to_front:
  assumes inv: "bytes_inv h (add_mset x hs) vs" and k: "key x = Some k" "k \<notin> keys hs"
    and u: "buf_of x = Some u" "h u = Some (Buffer cs)" "0 < length cs"
    and h0: "h0 = (if k = u then h else h(k := None))"
  shows "\<exists>h'. ptr_copy h0 (h_ptr x) (Ptr u 0) (h_len x) = Inr h' \<and>
    to_vector h x hs vs \<lparr>hv_ptr = Ptr u 0, hv_len = h_len x, hv_cap = length cs\<rparr> h'"
proof -
  let ?bs = "contents h x" and ?v = "\<lparr>hv_ptr = Ptr u 0, hv_len = h_len x, hv_cap = length cs\<rparr>"
  have x: "x \<in># add_mset x hs" by simp
  have ok: "handle_ok h x" using bytes_invD(3) [OF inv x] .
  have p: "blk (h_ptr x) = u" using u(1) by (simp add: buf_of_def split: if_splits)
  have u0: "u \<noteq> 0" using block_nonzero [OF inv] u(2) by blast
  have h0u: "h0 u = Some (Buffer cs)" using h0 u(2) by auto
  have read: "heap_read h0 (h_ptr x) (h_len x) = Inr ?bs"
    using h_slice_contents [OF ok] heap_read_cong [of _ h0 "h_ptr x" h] h0u u p by (simp add: h_slice_def)
  have len: "length ?bs = h_len x" using heap_read_length [OF read] .
  have fit: "h_len x \<le> length cs"
    using read h0u p by (auto simp: heap_read_def cells_of_def split: if_splits)
  let ?cs = "patched cs 0 ?bs"
  define h' where "h' = h0(u \<mapsto> Buffer ?cs)"
  have h': "heap_write h0 (Ptr u 0) ?bs = Inr h'" "heap_read h' (Ptr u 0) (h_len x) = Inr ?bs" "length ?cs = length cs"
    using heap_write_ok [of h0 u cs 0 ?bs] heap_read_patched [of 0 ?bs cs u h0] h0u fit len u0 by (simp_all add: h'_def)
  have "length ?cs \<le> isize_max" using boundedD(3) [OF bytes_invD(8) [OF inv] u(2)] h'(3) by simp
  note rel = release_to_vec [OF inv k u(1) this, of h']
  have "bytes_inv h' hs (insert u vs)" "undisturbed h hs vs h'" "u \<notin> vs"
    by (rule rel; use h'_def h0 in \<open>auto split: if_splits\<close>)+
  then have "to_vector h x hs vs ?v h'"
    using h' h'_def fit u(3) by (auto simp: to_vector_def vec_ok_def vec_buf_def)
  then show ?thesis using read h'(1) by (simp add: ptr_copy_def)
qed

context allocator_laws
begin

text \<open>Copying, then giving up the handle\<close>

lemma copy_and_drop:
  assumes inv: "bytes_inv h (add_mset x hs) vs"
    and drop: "\<And>h1 vs1. bytes_inv h1 (add_mset x hs) vs1 \<Longrightarrow> (\<forall>a. h a \<noteq> None \<longrightarrow> h1 a = h a) \<Longrightarrow>
      \<exists>h'. release h1 = Inr h' \<and> dropped h1 hs vs1 h'"
  shows "\<exists>v h1 h'. to_vec alloc h (contents h x) = Inr (v, h1) \<and> release h1 = Inr h' \<and> to_vector h x hs vs v h' \<and>
    hv_cap v = h_len x"
proof -
  have x: "x \<in># add_mset x hs" by simp
  from to_vec_ok [OF inv contents_bounded(2) [OF inv x]] length_contents [OF bytes_invD(3) [OF inv x]]
  obtain v h1 where v: "to_vec alloc h (contents h x) = Inr (v, h1)" "vec_ok h1 v (contents h x)"
    "bytes_inv h1 (add_mset x hs) (vec_buf v \<union> vs)" "undisturbed h (add_mset x hs) vs h1"
    "vec_buf v \<inter> vs = {}" "\<forall>a. h a \<noteq> None \<longrightarrow> h1 a = h a" "hv_cap v = h_len x"
    by auto
  from drop [OF v(3,6)] obtain h' where
    h': "release h1 = Inr h'" "bytes_inv h' hs (vec_buf v \<union> vs)" "undisturbed h1 hs (vec_buf v \<union> vs) h'"
    by (auto simp: dropped_def)
  have "vec_ok h' v (contents h x)"
    by (rule vec_ok_kept [OF v(2)]) (use h'(3) in \<open>auto simp: undisturbed_def\<close>)
  moreover have "undisturbed h hs vs h'"
    by (rule undisturbed_trans [OF undisturbed_mono [OF v(4)] undisturbed_mono [OF h'(3)]]) auto
  ultimately show ?thesis using v(1,5,7) h'(1,2) by (auto simp: to_vector_def)
qed

lemma shared_to_vec_ok:
  assumes inv: "bytes_inv h (add_mset (HB b) hs) vs" and k: "key (HB b) = Some k" and s: "h k = Some (Shared s)"
  shows "\<exists>v h'. shared_to_vec_impl alloc h (Ptr k 0) (b_ptr b) (b_len b) = Inr (v, h') \<and> to_vector h (HB b) hs vs v h'"
proof (cases "sh_ref_cnt s = 1")
  case True
  have b: "HB b \<in># add_mset (HB b) hs" by simp
  note r = key_resource [OF inv b k]
  have alone: "k \<notin> keys hs" using alone [OF inv k] s True by (simp add: res_count_def)
  from r(8) s r(2) obtain u cs where
    u: "sh_buf s = Ptr u 0" "buf_of (HB b) = Some u" "h u = Some (Buffer cs)" "sh_cap s = length cs" "0 < length cs"
    by (cases "sh_buf s") (fastforce simp: res_ok_def res_buf_def)
  then have ne: "k \<noteq> u" using s by auto
  let ?v = "\<lparr>hv_ptr = Ptr u 0, hv_len = b_len b, hv_cap = length cs\<rparr>"
  from move_to_front [OF inv k alone u(2,3,5) refl] ne obtain h' where
    h': "ptr_copy (h(k := None)) (b_ptr b) (Ptr u 0) (b_len b) = Inr h'" "to_vector h (HB b) hs vs ?v h'" by auto
  then have "from_raw_parts h' (Ptr u 0) (b_len b) (length cs) = Inr ?v"
    using from_raw_parts_ok [of h' ?v "contents h (HB b)"] by (simp add: to_vector_def)
  with h' True s u show ?thesis by (auto simp: shared_to_vec_impl_def get_shared_def atomic_defs)
next
  case False
  have drop: "\<exists>h'. release_shared h1 (Ptr k 0) = Inr h' \<and> dropped h1 hs vs1 h'"
    if "bytes_inv h1 (add_mset (HB b) hs) vs1" "\<forall>a. h a \<noteq> None \<longrightarrow> h1 a = h a" for h1 vs1
    using release_shared_ok [OF that(1) k, of s] that(2) s by auto
  from copy_and_drop [OF inv drop] obtain v h1 h' where
    c: "to_vec alloc h (contents h (HB b)) = Inr (v, h1)" "release_shared h1 (Ptr k 0) = Inr h'" "to_vector h (HB b) hs vs v h'"
    by blast
  have "heap_read h (b_ptr b) (b_len b) = Inr (contents h (HB b))" using read_contents(1) bytes_invD(3) [OF inv, of "HB b"] by simp
  with c False s have "shared_to_vec_impl alloc h (Ptr k 0) (b_ptr b) (b_len b) = Inr (v, h')"
    by (simp add: shared_to_vec_impl_def get_shared_def atomic_defs Let_def)
  with c(3) show ?thesis by blast
qed

text \<open>\<open>mem::take\<close> of the vector of a \<open>Shared\<close> that nobody else refers to\<close>

lemma take_vec:
  assumes inv: "bytes_inv h (add_mset x hs) vs" and k: "key x = Some k" and s: "h k = Some (Shared_V s)" "sv_ref_count s = 1"
  shows "\<exists>h'. res_bind (release_shared_v (h(k \<mapsto> Shared_V (s\<lparr>sv_vec := vec_new\<rparr>))) (Ptr k 0))
      (\<lambda>h. ptr_copy h (h_ptr x) (hv_ptr (sv_vec s)) (h_len x)) = Inr h' \<and>
    to_vector h x hs vs ((sv_vec s)\<lparr>hv_len := h_len x\<rparr>) h'"
proof -
  have x: "x \<in># add_mset x hs" by simp
  note r = key_resource [OF inv x k]
  have ok: "handle_ok h x" using bytes_invD(3) [OF inv x] .
  have alone: "k \<notin> keys hs" using alone [OF inv k] s by (simp add: res_count_def)
  have rel: "release_shared_v (h(k \<mapsto> Shared_V (s\<lparr>sv_vec := vec_new\<rparr>))) (Ptr k 0) = Inr (h(k := None))"
    using s by (simp add: release_shared_v_def get_shared_v_def vec_drop_def vec_new_def atomic_defs Let_def)
  show ?thesis
  proof (cases "hv_cap (sv_vec s) = 0")
    case True
    then have bu: "buf_of x = None" and v: "hv_ptr (sv_vec s) = dangling" using r(2,8) s by (simp_all add: res_buf_def res_ok_def)
    then have p: "h_ptr x = dangling" "h_len x = 0"
      using r(7) s ok by (auto simp: lies_def buf_of_def handle_ok_def split: if_splits)
    then have c: "contents h x = []" using length_contents [OF ok] by simp
    have "dropped h hs vs (h(k := None))" by (rule dropped_release [OF inv k alone]) (use bu in auto)
    moreover have "(sv_vec s)\<lparr>hv_len := h_len x\<rparr> = vec_new" using True v p by (simp add: vec_new_def)
    ultimately have "to_vector h x hs vs ((sv_vec s)\<lparr>hv_len := h_len x\<rparr>) (h(k := None))"
      using c vec_new_ok by (simp add: to_vector_def dropped_def)
    then show ?thesis using rel p v
      by (auto simp: ptr_copy_def heap_read_def heap_write_def dangling_def addr_of_def)
  next
    case False
    with r(8) s r(2) obtain u cs where
      u: "hv_ptr (sv_vec s) = Ptr u 0" "buf_of x = Some u" "h u = Some (Buffer cs)" "length cs = hv_cap (sv_vec s)"
      by (cases "hv_ptr (sv_vec s)") (auto simp: res_ok_def res_buf_def)
    then have ne: "k \<noteq> u" using s by auto
    have pos: "0 < length cs" using False u(4) by simp
    have eta: "(sv_vec s)\<lparr>hv_len := h_len x\<rparr> = \<lparr>hv_ptr = Ptr u 0, hv_len = h_len x, hv_cap = length cs\<rparr>"
      using u by (cases "sv_vec s") simp
    from move_to_front [OF inv k alone u(2,3) pos refl] ne rel u(1) eta show ?thesis by auto
  qed
qed

lemma shared_v_to_vec_ok:
  assumes inv: "bytes_inv h (add_mset (HB b) hs) vs" and k: "key (HB b) = Some k" and s: "h k = Some (Shared_V s)" "b_data b = Ptr k 0"
  shows "\<exists>v h'. shared_v_to_vec alloc h (b_data b) (b_ptr b) (b_len b) = Inr (v, h') \<and> to_vector h (HB b) hs vs v h'"
proof (cases "sv_ref_count s = 1")
  case True
  with take_vec [OF inv k s(1) True] s show ?thesis
    by (auto simp: shared_v_to_vec_def get_shared_v_def shared_v_unique_def atomic_defs Let_def)
next
  case False
  have drop: "\<exists>h'. release_shared_v h1 (Ptr k 0) = Inr h' \<and> dropped h1 hs vs1 h'"
    if "bytes_inv h1 (add_mset (HB b) hs) vs1" "\<forall>a. h a \<noteq> None \<longrightarrow> h1 a = h a" for h1 vs1
    using release_shared_v_ok [OF that(1) k, of s] that(2) s by auto
  from copy_and_drop [OF inv drop] obtain v h1 h' where
    c: "to_vec alloc h (contents h (HB b)) = Inr (v, h1)" "release_shared_v h1 (Ptr k 0) = Inr h'" "to_vector h (HB b) hs vs v h'"
    by blast
  have "heap_read h (b_ptr b) (b_len b) = Inr (contents h (HB b))" using read_contents(1) bytes_invD(3) [OF inv, of "HB b"] by simp
  with c False s have "shared_v_to_vec alloc h (b_data b) (b_ptr b) (b_len b) = Inr (v, h')"
    by (simp add: shared_v_to_vec_def get_shared_v_def shared_v_unique_def atomic_defs Let_def)
  with c(3) show ?thesis by blast
qed

text \<open>Whatever owns the bytes, \<open>Vec::from\<close> ends with a vector of them and without the handle.\<close>

lemma into_vec_ok:
  assumes inv: "bytes_inv h (add_mset (HB b) hs) vs" and few: "size hs < 2 ^ 63 - 1"
  shows "\<exists>v h'. into_vec alloc h b = Inr (v, h') \<and> to_vector h (HB b) hs vs v h'"
proof -
  have bok: "handle_ok h (HB b)" using bytes_invD(3) [OF inv] by simp
  note read = read_contents(1) [OF bok]
  show ?thesis using bok
  proof (cases rule: handle_cases)
    case static
    then have "\<exists>h'. Inr h1 = Inr h' \<and> dropped h1 hs vs1 h'" if "bytes_inv h1 (add_mset (HB b) hs) vs1" for h1 vs1
      using that bytes_invD(3) [OF that, of "HB b"] by (simp add: dropped_def inv_keyless)
    from copy_and_drop [OF inv this] static read show ?thesis
      by (auto simp: into_vec_def static_to_vec_def)
  next
    case (owned k ow)
    have drop: "\<exists>h'. owned_drop_impl h1 (Ptr k 0) = Inr h' \<and> dropped h1 hs vs1 h'"
      if "bytes_inv h1 (add_mset (HB b) hs) vs1" "\<forall>a. h a \<noteq> None \<longrightarrow> h1 a = h a" for h1 vs1
      using owned_drop_ok [OF that(1) owned(2), of ow] that(2) owned(4) few by auto
    from copy_and_drop [OF inv drop] obtain v h1 h' where
      c: "to_vec alloc h (contents h (HB b)) = Inr (v, h1)" "owned_drop_impl h1 (Ptr k 0) = Inr h'" "to_vector h (HB b) hs vs v h'"
      by blast
    with owned read have "into_vec alloc h b = Inr (v, h')" by (simp add: into_vec_def owned_to_vec_def atomic_defs)
    with c(3) show ?thesis by blast
  next
    case (arc k s)
    with shared_to_vec_ok [OF inv arc(2,4)] show ?thesis
      by (auto simp: into_vec_def to_vec_defs atomic_defs)
  next
    case (vec k cs)
    note so = sole_owner [OF inv vec(2,3), simplified]
    have bu: "buf_of (HB b) = Some k" using so(2,5) by (simp add: buf_of_def)
    from so(6) have pos: "0 < length cs" by simp
    let ?v = "\<lparr>hv_ptr = Ptr k 0, hv_len = b_len b, hv_cap = off (b_ptr b) + b_len b\<rparr>"
    from move_to_front [OF inv vec(2) so(1) bu vec(3) pos refl] so(3) obtain h' where
      h': "ptr_copy h (b_ptr b) (Ptr k 0) (b_len b) = Inr h'" "to_vector h (HB b) hs vs ?v h'" by auto
    then have "from_raw_parts h' (Ptr k 0) (b_len b) (off (b_ptr b) + b_len b) = Inr ?v"
      using from_raw_parts_ok [of h' ?v "contents h (HB b)"] by (simp add: to_vector_def)
    with h' show ?thesis using so(2) vec
      by (cases "b_vtable b")
        (simp_all add: into_vec_def to_vec_defs atomic_defs offset_from_def rust_assert_def Let_def)
  next
    case (arcv k s)
    with shared_v_to_vec_ok [OF inv arcv(2,4,3)] show ?thesis by (simp add: into_vec_def)
  qed
qed

end

end
