(* ===== verification/Bytes_Slice.thy ===== *)
theory Bytes_Slice
  imports Bytes_Vec
begin

text \<open>
  Views: \<open>advance\<close>, \<open>slice\<close>, \<open>slice_ref\<close>, \<open>split_off\<close>, \<open>split_to\<close>, \<open>truncate\<close> and
  \<open>clear\<close>. They are the list operations \<open>take\<close> and \<open>drop\<close> on the contents, without
  moving a byte, and \<open>Bytes\<close> is a lawful \<open>Buf\<close>.
\<close>

lemma set_len_ptr: "b\<lparr>b_len := n, b_ptr := p\<rparr> = b\<lparr>b_ptr := p, b_len := n\<rparr>" for b :: bytes
  by (cases b) simp

section \<open>Advancing\<close>

lemma ptr_add_ok:
  assumes "heap_read h p m = Inr bs" "n \<le> m"
  shows "ptr_add h p n = Inr (Ptr (blk p) (off p + n))"
proof (cases "n = 0")
  case True
  then show ?thesis by (simp add: ptr_add_def)
next
  case False
  with assms show ?thesis by (auto simp: ptr_add_def heap_read_def split: if_splits option.splits)
qed

lemma inc_start_ok:
  assumes ok: "handle_ok h (HB b)" and n: "n \<le> b_len b"
  shows "\<exists>b'. inc_start h b n = Inr b' \<and> handle_ok h (HB b') \<and> contents h (HB b') = drop n (contents h (HB b)) \<and>
    key (HB b') = key (HB b) \<and> b_len b' = b_len b - n \<and> region (HB b') \<subseteq> region (HB b)"
proof -
  let ?p = "Ptr (blk (b_ptr b)) (off (b_ptr b) + n)"
  have "inc_start h b n = Inr (b\<lparr>b_ptr := ?p, b_len := b_len b - n\<rparr>)"
    using ptr_add_ok [OF read_contents(1) [OF ok] n] n
    by (simp add: inc_start_def rust_assert_def usize_sub_def)
  moreover have "take (b_len b - n) (drop n (contents h (HB b))) = drop n (contents h (HB b))"
    using length_contents [OF ok] by simp
  ultimately show ?thesis using handle_reslice [OF ok, of n "b_len b - n" ?p] n by simp
qed

lemma bytes_advance_ok:
  assumes inv: "bytes_inv h (add_mset (HB b) hs) vs" and n: "n \<le> b_len b"
  shows "\<exists>b'. bytes_advance h b n = Inr b' \<and> bytes_inv h (add_mset (HB b') hs) vs \<and>
    contents h (HB b') = drop n (contents h (HB b)) \<and> b_len b' = b_len b - n"
proof -
  have "handle_ok h (HB b)" using bytes_invD(3) [OF inv] by simp
  from inc_start_ok [OF this n] obtain b' where
    b': "inc_start h b n = Inr b'" "handle_ok h (HB b')" "contents h (HB b') = drop n (contents h (HB b))"
      "key (HB b') = key (HB b)" "b_len b' = b_len b - n" "region (HB b') \<subseteq> region (HB b)" by blast
  from inv_reslice [OF inv b'(4,2,6)] b' n show ?thesis by (simp add: bytes_advance_def rust_assert_def)
qed

section \<open>Bytes as a reader\<close>

text \<open>\<open>impl Buf for Bytes\<close>. While the handle is valid, \<open>chunk\<close> is \<^const>\<open>as_slice\<close>.\<close>

definition bytes_core :: "heap \<Rightarrow> bytes buf_core" where
  "bytes_core h = \<lparr>remaining = b_len, chunk = (\<lambda>b. contents h (HB b)), advance = bytes_advance h\<rparr>"

definition bytes_buf :: "heap \<Rightarrow> bytes buf" where
  "bytes_buf h = with_defaults (bytes_core h)"

text \<open>Reading through \<open>Buf\<close> keeps the invariant of all handles.\<close>

interpretation bytes_reader_core: buf_core_contract "bytes_core h" "\<lambda>b. bytes_inv h (add_mset (HB b) hs) vs" "\<lambda>b. contents h (HB b)"
  for h hs vs
proof unfold_locales
  fix b n
  assume inv: "bytes_inv h (add_mset (HB b) hs) vs"
  then have ok: "handle_ok h (HB b)" by (auto dest: bytes_invD(3))
  note len = length_contents [OF ok]
  show "remaining (bytes_core h) b = length (contents h (HB b))" using len by (simp add: bytes_core_def)
  show "prefix (chunk (bytes_core h) b) (contents h (HB b))" by (simp add: bytes_core_def)
  show "contents h (HB b) \<noteq> [] \<Longrightarrow> chunk (bytes_core h) b \<noteq> []" by (simp add: bytes_core_def)
  show "n \<le> length (contents h (HB b)) \<Longrightarrow> \<exists>b'. advance (bytes_core h) b n = Inr b' \<and>
      bytes_inv h (add_mset (HB b') hs) vs \<and> contents h (HB b') = drop n (contents h (HB b))"
    using bytes_advance_ok [OF inv] len by (auto simp: bytes_core_def)
  show "length (contents h (HB b)) < n \<Longrightarrow> \<exists>p. advance (bytes_core h) b n = Inl (Panic p)"
    using len by (simp add: bytes_core_def bytes_advance_def rust_assert_def)
qed

interpretation bytes_reader: buf_complete "bytes_buf h" "\<lambda>b. bytes_inv h (add_mset (HB b) hs) vs" "\<lambda>b. contents h (HB b)"
  for h hs vs
  unfolding bytes_buf_def
  by (rule buf_complete_with_defaults) (unfold_locales, simp add: bytes_core_def)

section \<open>Splitting\<close>

text \<open>
  A handle has become \<open>c\<close> and \<open>c'\<close> with the bytes \<open>x\<close> and \<open>y\<close>.
\<close>

definition parted ::
  "heap \<Rightarrow> handle multiset \<Rightarrow> addr set \<Rightarrow> handle \<Rightarrow> u8 list \<Rightarrow> handle \<Rightarrow> u8 list \<Rightarrow> heap \<Rightarrow> bool" where
  "parted h hs vs c x c' y h' \<longleftrightarrow>
     bytes_inv h' (add_mset c (add_mset c' hs)) vs \<and> contents h' c = x \<and> contents h' c' = y \<and>
     undisturbed h hs vs h'"

text \<open>Beside a new empty handle, which owns nothing\<close>

lemma parted_empty:
  assumes inv: "bytes_inv h (add_mset (HB b) hs) vs" and p: "0 < addr_of p"
  shows "\<exists>e. new_empty_with_ptr p = Inr e \<and> parted h hs vs (HB e) [] (HB b) (contents h (HB b)) h \<and>
    parted h hs vs (HB b) (contents h (HB b)) (HB e) [] h"
proof -
  from empty_handle [OF p, of h] bytes_invD(2) [OF inv] obtain e where
    e: "new_empty_with_ptr p = Inr e" "handle_ok h (HB e)" "contents h (HB e) = []" "key (HB e) = None" by blast
  with inv have "bytes_inv h (add_mset (HB e) (add_mset (HB b) hs)) vs" using inv_keyless [OF e(4,2)] by simp
  then show ?thesis using e by (auto simp: parted_def add_mset_commute)
qed

text \<open>Narrowing both halves of a clone\<close>

lemma parted_clone:
  assumes "cloned h b hs vs c b' h'" and c: "ic + nc \<le> b_len b" and b: "ib + nb \<le> b_len b"
  shows "parted h hs vs
    (HB (c\<lparr>b_ptr := Ptr (blk (b_ptr b)) (off (b_ptr b) + ic), b_len := nc\<rparr>)) (take nc (drop ic (contents h (HB b))))
    (HB (b'\<lparr>b_ptr := Ptr (blk (b_ptr b)) (off (b_ptr b) + ib), b_len := nb\<rparr>)) (take nb (drop ib (contents h (HB b)))) h'"
proof -
  from assms(1) have inv: "bytes_inv h' (add_mset (HB c) (add_mset (HB b') hs)) vs"
    and cont: "contents h' (HB c) = contents h (HB b)" "contents h' (HB b') = contents h (HB b)" and un: "undisturbed h hs vs h'"
    and same: "b_ptr c = b_ptr b" "b_len c = b_len b" "b_ptr b' = b_ptr b" "b_len b' = b_len b"
    and shr: "shrinkable h' (HB c)" "shrinkable h' (HB b')"
    by (simp_all add: cloned_def)
  let ?c = "c\<lparr>b_ptr := Ptr (blk (b_ptr c)) (off (b_ptr c) + ic), b_len := nc\<rparr>"
  let ?b = "b'\<lparr>b_ptr := Ptr (blk (b_ptr b')) (off (b_ptr b') + ib), b_len := nb\<rparr>"
  have ok: "handle_ok h' (HB c)" "handle_ok h' (HB b')" using bytes_invD(3) [OF inv] by simp_all
  note rc = handle_reslice [OF ok(1), of ic nc, OF _ disjI1 [OF shr(1)] refl]
  note rb = handle_reslice [OF ok(2), of ib nb, OF _ disjI1 [OF shr(2)] refl]
  have "bytes_inv h' (add_mset (HB ?c) (add_mset (HB b') hs)) vs"
    using inv_reslice [OF inv rc(3) rc(1) rc(4)] c same by simp
  then have "bytes_inv h' (add_mset (HB b') (add_mset (HB ?c) hs)) vs" by (simp add: add_mset_commute)
  from inv_reslice [OF this rb(3) rb(1) rb(4)] b same
  have "bytes_inv h' (add_mset (HB ?c) (add_mset (HB ?b) hs)) vs" by (simp add: add_mset_commute)
  with rc(2) rb(2) b c same cont un show ?thesis by (simp add: parted_def)
qed

lemma handle_addr: "handle_ok h (HB b) \<Longrightarrow> 0 < addr_of (wrapping_add (b_ptr b) n)"
  by (auto simp: handle_ok_def addr_of_def wrapping_add_def)

context allocator_laws
begin

lemma split_off_ok:
  assumes inv: "bytes_inv h (add_mset (HB b) hs) vs" and few: "size hs < 2 ^ 63 - 1" and at: "n \<le> b_len b"
  shows "\<exists>ret b' h'. split_off alloc h b n = Inr (ret, b', h') \<and>
    parted h hs vs (HB ret) (drop n (contents h (HB b))) (HB b') (take n (contents h (HB b))) h'"
proof -
  have ok: "handle_ok h (HB b)" using bytes_invD(3) [OF inv] by simp
  note len = length_contents [OF ok]
  consider "n = b_len b" | "n = 0" "n \<noteq> b_len b" | "0 < n" "n < b_len b" using at by linarith
  then show ?thesis
  proof cases
    case 1
    with parted_empty [OF inv handle_addr [OF ok, of n]] len show ?thesis by (auto simp: split_off_def)
  next
    case 2
    with parted_empty [OF inv, of "b_ptr b"] ok show ?thesis by (auto simp: split_off_def handle_ok_def)
  next
    case 3
    from bytes_clone_ok [OF inv few] obtain c b' h' where
      c: "bytes_clone alloc h b = Inr (c, b', h')" "cloned h b hs vs c b' h'" by blast
    have cp: "b_ptr c = b_ptr b" "b_len c = b_len b" "b_ptr b' = b_ptr b" "handle_ok h' (HB c)"
      using c(2) bytes_invD(3) by (auto simp: cloned_def)
    note parts = parted_clone [OF c(2), of n "b_len b - n" 0 n]
    have "inc_start h' c n = Inr (c\<lparr>b_ptr := Ptr (blk (b_ptr b)) (off (b_ptr b) + n), b_len := b_len b - n\<rparr>)"
      using ptr_add_ok [OF read_contents(1) [OF cp(4)], of n] 3 cp
      by (simp add: inc_start_def rust_assert_def usize_sub_def)
    moreover have "b'\<lparr>b_len := n\<rparr> = b'\<lparr>b_ptr := Ptr (blk (b_ptr b)) (off (b_ptr b) + 0), b_len := n\<rparr>"
      using cp(3) by (cases b') simp
    ultimately show ?thesis using 3 c(1) parts len by (simp add: split_off_def rust_assert_def)
  qed
qed

lemma split_to_ok:
  assumes inv: "bytes_inv h (add_mset (HB b) hs) vs" and few: "size hs < 2 ^ 63 - 1" and at: "n \<le> b_len b"
  shows "\<exists>ret b' h'. split_to alloc h b n = Inr (ret, b', h') \<and>
    parted h hs vs (HB ret) (take n (contents h (HB b))) (HB b') (drop n (contents h (HB b))) h'"
proof -
  have ok: "handle_ok h (HB b)" using bytes_invD(3) [OF inv] by simp
  note len = length_contents [OF ok]
  consider "n = b_len b" | "n = 0" "n \<noteq> b_len b" | "0 < n" "n < b_len b" using at by linarith
  then show ?thesis
  proof cases
    case 1
    with parted_empty [OF inv handle_addr [OF ok, of n]] len show ?thesis by (auto simp: split_to_def)
  next
    case 2
    with parted_empty [OF inv, of "b_ptr b"] ok show ?thesis by (auto simp: split_to_def handle_ok_def)
  next
    case 3
    from bytes_clone_ok [OF inv few] obtain c b' h' where
      c: "bytes_clone alloc h b = Inr (c, b', h')" "cloned h b hs vs c b' h'" by blast
    have cp: "b_ptr b' = b_ptr b" "b_len b' = b_len b" "b_ptr c = b_ptr b" "handle_ok h' (HB b')"
      using c(2) bytes_invD(3) by (auto simp: cloned_def)
    note parts = parted_clone [OF c(2), of 0 n n "b_len b - n"]
    have "inc_start h' b' n = Inr (b'\<lparr>b_ptr := Ptr (blk (b_ptr b)) (off (b_ptr b) + n), b_len := b_len b - n\<rparr>)"
      using ptr_add_ok [OF read_contents(1) [OF cp(4)], of n] 3 cp
      by (simp add: inc_start_def rust_assert_def usize_sub_def)
    moreover have "c\<lparr>b_len := n\<rparr> = c\<lparr>b_ptr := Ptr (blk (b_ptr b)) (off (b_ptr b) + 0), b_len := n\<rparr>"
      using cp(3) by (cases c) simp
    ultimately show ?thesis using 3 c(1) parts len by (simp add: split_to_def rust_assert_def)
  qed
qed

lemma bytes_slice_ok:
  assumes inv: "bytes_inv h (add_mset (HB b) hs) vs" and few: "size hs < 2 ^ 63 - 1"
    and range: "range_begin lo = Inr i" "range_end (b_len b) hi = Inr j" "i \<le> j" "j \<le> b_len b"
  shows "\<exists>ret b' h'. bytes_slice alloc h b lo hi = Inr (ret, b', h') \<and>
    parted h hs vs (HB ret) (take (j - i) (drop i (contents h (HB b)))) (HB b') (contents h (HB b)) h'"
proof (cases "j = i")
  case True
  have ok: "handle_ok h (HB b)" using bytes_invD(3) [OF inv] by simp
  with parted_empty [OF inv handle_addr [OF ok, of i]] range True show ?thesis
    by (auto simp: bytes_slice_def rust_assert_def)
next
  case False
  have ok: "handle_ok h (HB b)" using bytes_invD(3) [OF inv] by simp
  note len = length_contents [OF ok]
  from bytes_clone_ok [OF inv few] obtain c b' h' where
    c: "bytes_clone alloc h b = Inr (c, b', h')" "cloned h b hs vs c b' h'" by blast
  have cp: "b_ptr c = b_ptr b" "b_len c = b_len b" "b_ptr b' = b_ptr b" "b_len b' = b_len b" "handle_ok h' (HB c)"
    using c(2) bytes_invD(3) by (auto simp: cloned_def)
  note parts = parted_clone [OF c(2), of i "j - i" 0 "b_len b"]
  have "ptr_add h' (b_ptr c) i = Inr (Ptr (blk (b_ptr b)) (off (b_ptr b) + i))"
    using ptr_add_ok [OF read_contents(1) [OF cp(5)], of i] range cp by simp
  moreover have "b'\<lparr>b_ptr := Ptr (blk (b_ptr b)) (off (b_ptr b) + 0), b_len := b_len b\<rparr> = b'"
    using cp(3,4) by (cases b') simp
  ultimately show ?thesis
    using False range c(1) parts len by (simp add: bytes_slice_def rust_assert_def set_len_ptr)
qed

lemma slice_ref_ok:
  assumes inv: "bytes_inv h (add_mset (HB b) hs) vs" and few: "size hs < 2 ^ 63 - 1"
    and sub: "sub = Ptr (blk (b_ptr b)) (off (b_ptr b) + i)" "i + n \<le> b_len b"
  shows "\<exists>ret b' h'. slice_ref alloc h b sub n = Inr (ret, b', h') \<and>
    parted h hs vs (HB ret) (take n (drop i (contents h (HB b)))) (HB b') (contents h (HB b)) h'"
proof (cases "n = 0")
  case True
  have "bytes_inv h (add_mset (HB bytes_new) (add_mset (HB b) hs)) vs" using inv by simp
  with True show ?thesis by (auto simp: slice_ref_def parted_def bytes_new_ok)
next
  case False
  have "range_begin (Included i) = Inr i" "range_end (b_len b) (Excluded (i + n)) = Inr (i + n)"
    by (simp_all add: range_begin_def range_end_def)
  from bytes_slice_ok [OF inv few this] False sub show ?thesis
    by (simp add: slice_ref_def addr_of_def rust_assert_def)
qed

lemma bytes_truncate_ok:
  assumes inv: "bytes_inv h (add_mset (HB b) hs) vs" and few: "size hs < 2 ^ 63 - 2"
  shows "\<exists>b' h'. bytes_truncate alloc h b n = Inr (b', h') \<and> bytes_inv h' (add_mset (HB b') hs) vs \<and>
    contents h' (HB b') = take n (contents h (HB b)) \<and> undisturbed h hs vs h'"
proof -
  have ok: "handle_ok h (HB b)" using bytes_invD(3) [OF inv] by simp
  note len = length_contents [OF ok]
  consider "b_len b \<le> n"
    | (promotable) "n < b_len b" "b_vtable b = PROMOTABLE_EVEN_VTABLE \<or> b_vtable b = PROMOTABLE_ODD_VTABLE"
    | (other) "n < b_len b" "\<not> (b_vtable b = PROMOTABLE_EVEN_VTABLE \<or> b_vtable b = PROMOTABLE_ODD_VTABLE)"
    by linarith
  then show ?thesis
  proof cases
    case 1
    with inv len show ?thesis by (simp add: bytes_truncate_def)
  next
    case promotable
    have few': "size hs < 2 ^ 63 - 1" "n \<le> b_len b" using few promotable by simp_all
    from split_off_ok [OF inv few'] obtain ret b' h1 where
      s: "split_off alloc h b n = Inr (ret, b', h1)"
        "parted h hs vs (HB ret) (drop n (contents h (HB b))) (HB b') (take n (contents h (HB b))) h1" by blast
    then have inv1: "bytes_inv h1 (add_mset (HB ret) (add_mset (HB b') hs)) vs" by (simp add: parted_def)
    have "size (add_mset (HB b') hs) < 2 ^ 63 - 1" using few by simp
    from bytes_drop_ok [OF inv1 this] obtain h2 where
      h2: "bytes_drop h1 ret = Inr h2" "dropped h1 (add_mset (HB b') hs) vs h2" by blast
    then have "contents h2 (HB b') = take n (contents h (HB b))" "undisturbed h1 hs vs h2"
      using s(2) by (auto simp: dropped_def parted_def undisturbed_def)
    with h2 s promotable undisturbed_trans [of h hs vs h1 h2] show ?thesis
      by (auto simp: bytes_truncate_def dropped_def parted_def)
  next
    case other
    have shr: "shrinkable h (HB b)" using ok other(2) by (cases rule: handle_cases) (auto simp: shrinkable_def)
    have eq: "b\<lparr>b_len := n\<rparr> = b\<lparr>b_ptr := Ptr (blk (b_ptr b)) (off (b_ptr b) + 0), b_len := n\<rparr>" by (cases b) simp
    note re = handle_reslice [OF ok, of 0 n, OF _ disjI1 [OF shr] refl, folded eq]
    from other re inv_reslice [OF inv re(3) re(1) re(4)] show ?thesis by (simp add: bytes_truncate_def)
  qed
qed

end

end
