(* ===== verification/Bytes_Mut_Tags.thy ===== *)
theory Bytes_Mut_Tags
  imports Bytes_Slice
begin

unbundle bit_operations_syntax

text \<open>
  The data word of a \<open>BytesMut\<close> that owns its vector alone: the tag, the original capacity
  in three bits, and the offset into the vector in the other 59. Setting one leaves the others.
\<close>

section \<open>Bits\<close>

lemma usize_shl_small: "n * 2 ^ k < 2 ^ 64 \<Longrightarrow> usize_shl n k = n * 2 ^ k"
  by (simp add: usize_shl_def push_bit_eq_mult take_bit_eq_mod)

lemma or_low:
  assumes "(b::nat) < 2 ^ k"
  shows "(a * 2 ^ k) OR b = a * 2 ^ k + b"
proof -
  have "push_bit k a OR take_bit k b = push_bit k a + take_bit k b"
    by (rule disjunctive_add [symmetric]) (auto simp: bit_push_bit_iff bit_take_bit_iff)
  with assms show ?thesis by (simp add: push_bit_eq_mult take_bit_nat_eq_self)
qed

lemma and_vec_pos_mask: "n AND NOT_VEC_POS_MASK = n mod 32"
proof -
  have "n AND mask 5 = take_bit 5 n" by (simp add: take_bit_eq_mask)
  then show ?thesis by (simp add: NOT_VEC_POS_MASK_def mask_eq_exp_minus_1 take_bit_eq_mod)
qed

section \<open>The fields of the data word\<close>

definition capacity_repr :: "bytes_mut \<Rightarrow> usize" where
  "capacity_repr m = drop_bit ORIGINAL_CAPACITY_OFFSET (addr_of (bm_data m) AND ORIGINAL_CAPACITY_MASK)"

lemma capacity_repr_arith: "capacity_repr m = addr_of (bm_data m) div 4 mod 8"
proof -
  let ?n = "addr_of (bm_data m)"
  have "drop_bit 2 (?n AND push_bit 2 (mask 3)) = drop_bit 2 ?n AND mask 3"
    by (auto simp: bit_eq_iff bit_simps)
  moreover have "push_bit 2 (mask 3) = (28::nat)" by (simp add: mask_eq_exp_minus_1 push_bit_eq_mult)
  ultimately show ?thesis
    by (simp add: capacity_repr_def ORIGINAL_CAPACITY_OFFSET_def ORIGINAL_CAPACITY_MASK_def drop_bit_eq_div
        take_bit_eq_mod flip: take_bit_eq_mask)
qed

lemma capacity_repr_le: "capacity_repr m \<le> 7"
proof -
  have "addr_of (bm_data m) div 4 mod 8 < 8" by simp
  then show ?thesis by (simp add: capacity_repr_arith)
qed

lemma kind_arith: "kind m = addr_of (bm_data m) mod 2"
  by (simp add: kind_def KIND_MASK_def and_one_nat)

lemma vec_pos_arith: "vec_pos m = addr_of (bm_data m) div 32"
  by (simp add: vec_pos_def VEC_POS_OFFSET_def drop_bit_eq_div)

lemma max_vec_pos: "MAX_VEC_POS = 2 ^ 59 - 1"
  by (simp add: MAX_VEC_POS_def VEC_POS_OFFSET_def usize_max_def drop_bit_eq_div)

lemma kind_cases: "kind m = KIND_VEC \<or> kind m = KIND_ARC"
  by (auto simp: kind_arith KIND_VEC_def KIND_ARC_def)

lemma vec_data_eq: "repr \<le> 7 \<Longrightarrow> vec_data repr = Ptr 0 (4 * repr + 1)"
  using or_low [of 1 2 repr]
  by (simp add: vec_data_def invalid_ptr_def wrapping_add_def null_ptr_def ORIGINAL_CAPACITY_OFFSET_def
      KIND_VEC_def usize_shl_small)

lemma vec_data_fields:
  assumes "repr \<le> 7" "bm_data m = vec_data repr"
  shows "kind m = KIND_VEC" "vec_pos m = 0" "capacity_repr m = repr" "blk (bm_data m) = 0" "off (bm_data m) < 2 ^ 64"
  using assms by (simp_all add: vec_data_eq kind_arith vec_pos_arith capacity_repr_arith addr_of_def KIND_VEC_def mod_Suc)

lemma set_vec_pos_ok:
  assumes "kind m = KIND_VEC" "pos \<le> MAX_VEC_POS"
  shows "\<exists>d. set_vec_pos m pos = Inr (m\<lparr>bm_data := d\<rparr>) \<and> kind (m\<lparr>bm_data := d\<rparr>) = KIND_VEC \<and>
    vec_pos (m\<lparr>bm_data := d\<rparr>) = pos \<and> capacity_repr (m\<lparr>bm_data := d\<rparr>) = capacity_repr m \<and>
    blk d = 0 \<and> off d < 2 ^ 64"
proof -
  let ?n = "addr_of (bm_data m)"
  let ?d = "Ptr 0 (pos * 32 + ?n mod 32)"
  have pos: "pos < 2 ^ 59" using assms(2) by (simp add: max_vec_pos)
  then have "usize_shl pos VEC_POS_OFFSET OR (?n AND NOT_VEC_POS_MASK) = pos * 32 + ?n mod 32"
    using or_low [of "?n mod 32" 5 pos] by (simp add: usize_shl_small VEC_POS_OFFSET_def and_vec_pos_mask)
  then have "set_vec_pos m pos = Inr (m\<lparr>bm_data := ?d\<rparr>)"
    using assms by (simp add: set_vec_pos_def rust_assert_def invalid_ptr_def wrapping_add_def null_ptr_def)
  moreover have "?n mod 32 mod 2 = ?n mod 2" by (rule mod_mod_cancel) simp
  then have "(pos * 32 + ?n mod 32) mod 2 = ?n mod 2" using mod_mult_self1 [of "?n mod 32" "pos * 16" 2]
    by (simp add: add.commute mult.assoc)
  moreover have "?n mod 32 div 4 = ?n div 4 mod 8" using mod_mult2_eq [of ?n 4 8] by simp
  then have "(pos * 32 + ?n mod 32) div 4 mod 8 = ?n div 4 mod 8" using div_mult_self1 [of 4 "?n mod 32" "pos * 8"]
    by (simp add: add.commute mult.assoc mod_mult_self1)
  moreover have "?n mod 32 < 32" by simp
  ultimately show ?thesis using assms(1) pos
    by (intro exI [of _ ?d]) (simp add: kind_arith vec_pos_arith capacity_repr_arith addr_of_def)
qed

section \<open>The original capacity\<close>

lemma bit_width_bounds: "0 < n \<Longrightarrow> 2 ^ (bit_width n - 1) \<le> n \<and> n < 2 ^ bit_width n \<and> 0 < bit_width n"
proof (induction n rule: bit_width.induct)
  case (1 n)
  show ?case
  proof (cases "n div 2 = 0")
    case True
    with 1 have "n = 1" by simp
    then show ?thesis by (simp add: bit_width.simps)
  next
    case False
    with 1 have IH: "2 ^ (bit_width (n div 2) - 1) \<le> n div 2" "n div 2 < 2 ^ bit_width (n div 2)" "0 < bit_width (n div 2)"
      by auto
    then have "(2::nat) ^ bit_width (n div 2) = 2 * 2 ^ (bit_width (n div 2) - 1)" by (cases "bit_width (n div 2)") auto
    with IH have "2 ^ bit_width (n div 2) \<le> n" "n < 2 * 2 ^ bit_width (n div 2)" by linarith+
    with 1 show ?thesis by (subst (1 2 3) bit_width.simps) simp
  qed
qed

lemma bit_width_le: "n < 2 ^ k \<Longrightarrow> bit_width n \<le> k"
proof (rule ccontr)
  assume n: "n < 2 ^ k" and k: "\<not> bit_width n \<le> k"
  then have "0 < n" by (cases n) (auto simp: bit_width.simps)
  then have "2 ^ (bit_width n - 1) \<le> n" using bit_width_bounds by blast
  moreover have "(2::nat) ^ k \<le> 2 ^ (bit_width n - 1)" using k by (intro power_increasing) auto
  ultimately show False using n by linarith
qed

lemma original_capacity_to_repr_eq: "cap < 2 ^ 64 \<Longrightarrow> original_capacity_to_repr cap = min (bit_width (cap div 1024)) 7"
proof -
  assume "cap < 2 ^ 64"
  then have "bit_width (cap div 1024) \<le> 54" by (intro bit_width_le) simp
  then show ?thesis
    by (simp add: original_capacity_to_repr_def leading_zeros_def PTR_WIDTH_def MIN_ORIGINAL_CAPACITY_WIDTH_def
        MAX_ORIGINAL_CAPACITY_WIDTH_def drop_bit_eq_div)
qed

lemma original_capacity_to_repr_le: "original_capacity_to_repr cap \<le> 7"
  by (simp add: original_capacity_to_repr_def MIN_ORIGINAL_CAPACITY_WIDTH_def MAX_ORIGINAL_CAPACITY_WIDTH_def Let_def)

lemma original_capacity_from_repr_eq: "repr \<le> 7 \<Longrightarrow> original_capacity_from_repr repr = (if repr = 0 then 0 else 2 ^ (repr + 9))"
proof -
  assume r: "repr \<le> 7"
  have "(2::nat) ^ (repr + 9) \<le> 2 ^ 16" using r by (intro power_increasing) auto
  then show ?thesis
    by (simp add: original_capacity_from_repr_def MIN_ORIGINAL_CAPACITY_WIDTH_def usize_shl_small)
qed

lemma original_capacity_small: "repr \<le> 7 \<Longrightarrow> original_capacity_from_repr repr \<le> 2 ^ 16"
  using power_increasing [of "repr + 9" 16 "2::nat"] by (auto simp: original_capacity_from_repr_eq)

end
