(* ===== verification/Bytes_Mut_Ops.thy ===== *)
theory Bytes_Mut_Ops
  imports Bytes_Mut_Tags
begin

unbundle bit_operations_syntax

text \<open>
  \<open>BytesMut\<close> against the invariant of all handles: how a handle becomes a vector and back,
  how it is shared, split, frozen and dropped.
\<close>

section \<open>Vectors\<close>

text \<open>A handle that starts \<open>n\<close> bytes into a vector and owns it alone\<close>

definition views :: "bytes_mut \<Rightarrow> hvec \<Rightarrow> nat \<Rightarrow> bool" where
  "views m v n \<longleftrightarrow>
     kind m = KIND_VEC \<and> vec_pos m = n \<and> blk (bm_data m) = 0 \<and> off (bm_data m) < 2 ^ 64 \<and>
     bm_ptr m = Ptr (blk (hv_ptr v)) (off (hv_ptr v) + n) \<and> hv_len v = n + bm_len m \<and> hv_cap v = n + bm_cap m"

lemma to_vec_view:
  assumes inv: "bytes_inv h (add_mset (HM m) hs) vs" and vec: "kind m = KIND_VEC"
  shows "\<exists>v bs. rebuild_vec h (bm_ptr m) (bm_len m) (bm_cap m) (vec_pos m) = Inr v \<and> views m v (vec_pos m) \<and>
    vec_ok h v bs \<and> drop (vec_pos m) bs = contents h (HM m) \<and> vec_buf v \<inter> vs = {} \<and>
    bytes_inv h hs (vec_buf v \<union> vs)"
proof -
  have ok: "handle_ok h (HM m)" using bytes_invD(3) [OF inv] by simp
  then have data: "blk (bm_data m) = 0" "off (bm_data m) < 2 ^ 64" using vec by (simp_all add: handle_ok_def)
  have le: "bm_len m \<le> bm_cap m" using ok by (simp add: handle_ok_def)
  show ?thesis
  proof (cases "vec_pos m + bm_cap m = 0")
    case True
    then have m: "key (HM m) = None" "bm_ptr m = dangling" "vec_pos m = 0" "bm_cap m = 0" "bm_len m = 0"
      using ok vec le by (simp_all add: handle_ok_def)
    have "contents h (HM m) = []" using length_contents [OF ok] m by simp
    moreover have "bytes_inv h hs vs" using inv inv_keyless [OF m(1) ok] by simp
    moreover have "views m vec_new 0" using vec data m by (simp add: views_def vec_new_def dangling_def)
    ultimately show ?thesis using m vec_new_ok
      by (auto simp: rebuild_vec_def ptr_sub_def from_raw_parts_def usize_add_def vec_new_def)
  next
    case False
    then obtain u cs where k: "key (HM m) = Some u" "bm_ptr m = Ptr u (vec_pos m)" "h u = Some (Buffer cs)"
      using ok vec by (cases "bm_ptr m") (auto simp: handle_ok_def)
    note so = sole_owner [OF inv k(1,3)]
    let ?v = "\<lparr>hv_ptr = Ptr u 0, hv_len = vec_pos m + bm_len m, hv_cap = vec_pos m + bm_cap m\<rparr>"
    let ?bs = "map the (take (vec_pos m + bm_len m) cs)"
    have len: "vec_pos m + bm_cap m = length cs" using so(3) k(2) by simp
    have init: "None \<notin> set (take (vec_pos m + bm_len m) cs)" using so(7) k(2) by simp
    have small: "length cs \<le> usize_max"
      using boundedD(3) [OF bytes_invD(8) [OF inv] k(3)] isize_max_less_usize_max by simp
    have vok: "vec_ok h ?v ?bs"
      using False le len init k(3) so(5) by (auto simp: vec_ok_def heap_read_def cells_of_def addr_of_def)
    have read: "heap_read h (Ptr u (vec_pos m)) (bm_len m) = Inr (drop (vec_pos m) ?bs)"
      using heap_read_slice [of h "Ptr u 0" "vec_pos m + bm_len m" ?bs "vec_pos m" "bm_len m"] vok so(5) len le
      by (simp add: vec_ok_def addr_of_def drop_map take_map drop_take)
    then have "drop (vec_pos m) ?bs = contents h (HM m)" using read_contents(2) [OF ok] k(2) by simp
    moreover have "rebuild_vec h (bm_ptr m) (bm_len m) (bm_cap m) (vec_pos m) = Inr ?v"
      using k(2,3) len le small from_raw_parts_ok [OF vok]
      by (auto simp: rebuild_vec_def ptr_sub_def cells_of_def usize_add_def add.commute)
    moreover have "views m ?v (vec_pos m)" using vec data k(2) by (simp add: views_def)
    ultimately show ?thesis using vok so(4,8) False by (auto simp: vec_buf_def)
  qed
qed

lemma from_vec_view:
  assumes inv: "bytes_inv h hs vs" and v: "vec_ok h v bs" "vec_buf v \<subseteq> vs" and m: "views m v n"
  shows "bytes_inv h (add_mset (HM m) hs) (vs - vec_buf v)" "contents h (HM m) = drop n bs"
proof -
  have data: "kind m = KIND_VEC" "vec_pos m = n" "blk (bm_data m) = 0" "off (bm_data m) < 2 ^ 64"
    "bm_ptr m = Ptr (blk (hv_ptr v)) (off (hv_ptr v) + n)" "hv_len v = n + bm_len m" "hv_cap v = n + bm_cap m"
    using m by (simp_all add: views_def)
  have "bytes_inv h (add_mset (HM m) hs) (vs - vec_buf v) \<and> contents h (HM m) = drop n bs"
    using v(1)
  proof (cases rule: vec_ok_cases)
    case none
    then have "key (HM m) = None" "h_slice h (HM m) = Inr []" "handle_ok h (HM m)"
      using data by (auto simp: handle_ok_def h_slice_def heap_read_def dangling_def addr_of_def)
    then show ?thesis using inv none inv_keyless [of "HM m" h hs vs] by (simp add: contents_def vec_buf_def)
  next
    case (buffer u cs)
    have u0: "u \<noteq> 0" using block_nonzero [OF inv buffer(3)] .
    have slice: "h_slice h (HM m) = Inr (drop n bs)"
      using heap_read_slice [OF buffer(7), of n "bm_len m"] buffer(2) data u0 heap_read_length [OF buffer(7)]
      by (simp add: h_slice_def addr_of_def)
    have mok: "handle_ok h (HM m)" "key (HM m) = Some u"
      using slice data buffer u0
      by (auto simp: handle_ok_def res_buf_def buf_of_def lies_def addr_of_def split: if_splits)
    have "res_buf h u = Some u" "res_ok h u" "res_count h u = 1"
      using buffer by (auto simp: res_buf_def res_ok_def res_count_def)
    then have "bytes_inv h ({#HM m#} + hs) (vs - set_option (Some u))"
      using inv_acquire(1) [OF inv, of "Some u" h u "{#HM m#}"] mok buffer(5) v(2) by auto
    then show ?thesis using slice buffer(5) by (simp add: contents_def)
  qed
  then show "bytes_inv h (add_mset (HM m) hs) (vs - vec_buf v)" "contents h (HM m) = drop n bs" by simp_all
qed

lemma vec_cap_bounded:
  assumes inv: "bytes_inv h hs vs" and v: "vec_ok h v bs"
  shows "hv_cap v \<le> isize_max"
  using v
proof (cases rule: vec_ok_cases)
  case (buffer u cs)
  with boundedD(3) [OF bytes_invD(8) [OF inv], of u cs] show ?thesis by simp
qed simp

text \<open>\<open>BytesMut::from_vec\<close>\<close>

lemma vec_ok_vptr: "bytes_inv h hs vs \<Longrightarrow> vec_ok h v bs \<Longrightarrow> vptr (hv_ptr v) = Inr (hv_ptr v)"
  by (erule vec_ok_cases)
    (auto simp: vptr_def expect_def dangling_def addr_of_def dest: block_nonzero)

lemma bytes_mut_from_vec_ok:
  assumes inv: "bytes_inv h hs vs" and v: "vec_ok h v bs" "vec_buf v \<subseteq> vs"
  shows "\<exists>m. bytes_mut_from_vec v = Inr m \<and> bytes_inv h (add_mset (HM m) hs) (vs - vec_buf v) \<and>
    contents h (HM m) = bs \<and> views m v 0"
proof -
  let ?m = "\<lparr>bm_ptr = hv_ptr v, bm_len = hv_len v, bm_cap = hv_cap v,
       bm_data = vec_data (original_capacity_to_repr (hv_cap v))\<rparr>"
  have "views ?m v 0"
    using vec_data_fields [OF original_capacity_to_repr_le, of ?m] by (cases "hv_ptr v") (simp add: views_def)
  with from_vec_view [OF inv v this] show ?thesis
    by (simp add: bytes_mut_from_vec_def vec_ok_vptr [OF inv v(1)])
qed

lemma vec_drop_ok:
  assumes inv: "bytes_inv h hs vs" and v: "vec_ok h v bs" "vec_buf v \<subseteq> vs"
  shows "\<exists>h'. vec_drop h v = Inr h' \<and> bytes_inv h' hs (vs - vec_buf v) \<and> undisturbed h hs (vs - vec_buf v) h'"
  using v(1)
proof (cases rule: vec_ok_cases)
  case none
  with inv show ?thesis by (simp add: vec_drop_def vec_buf_def)
next
  case (buffer u cs)
  have "bytes_inv (h(u := None)) hs (vs - {u})" "undisturbed h hs (vs - {u}) (h(u := None))"
    by (rule inv_vec_change [OF inv _ refl, of u None]; use buffer(5) v(2) in simp)+
  then show ?thesis using buffer by (simp add: vec_drop_def dealloc_def)
qed

section \<open>Dropping\<close>

lemma arc_handle:
  assumes "handle_ok h (HM m)" "kind m = KIND_ARC"
  obtains k s where "bm_data m = Ptr k 0" "key (HM m) = Some k" "h k = Some (Shared_V s)" "even k"
proof -
  obtain k d where d: "bm_data m = Ptr k d" by (cases "bm_data m")
  with assms obtain s where s: "d = 0" "h k = Some (Shared_V s)" by (auto simp: handle_ok_def)
  moreover have "even k" using assms(2) d s(1) by (simp add: kind_arith addr_of_def KIND_ARC_def even_iff_mod_2_eq_zero)
  ultimately show thesis using that d assms(2) by simp
qed

lemma bytes_mut_drop_ok:
  assumes inv: "bytes_inv h (add_mset (HM m) hs) vs"
  shows "\<exists>h'. bytes_mut_drop h m = Inr h' \<and> dropped h hs vs h'"
proof (cases "kind m = KIND_VEC")
  case True
  from to_vec_view [OF inv True] obtain v bs where
    v: "rebuild_vec h (bm_ptr m) (bm_len m) (bm_cap m) (vec_pos m) = Inr v" "vec_ok h v bs" "vec_buf v \<inter> vs = {}"
      "bytes_inv h hs (vec_buf v \<union> vs)" by blast
  have "vec_buf v \<union> vs - vec_buf v = vs" using v(3) by auto
  with vec_drop_ok [OF v(4,2)] v(1) True show ?thesis
    by (auto simp: bytes_mut_drop_def get_vec_pos_def rust_assert_def dropped_def vec_pos_def)
next
  case False
  with kind_cases have arc: "kind m = KIND_ARC" by blast
  have ok: "handle_ok h (HM m)" using bytes_invD(3) [OF inv] by simp
  from arc_handle [OF ok arc] obtain k s where
    k: "bm_data m = Ptr k 0" "key (HM m) = Some k" "h k = Some (Shared_V s)" by blast
  from release_shared_v_ok [OF inv k(2,3)] arc k(1) show ?thesis by (simp add: bytes_mut_drop_def)
qed

section \<open>Sharing\<close>

text \<open>A part of a handle whose vector is already shared: any part is a handle again.\<close>

definition part :: "bytes_mut \<Rightarrow> nat \<Rightarrow> nat \<Rightarrow> nat \<Rightarrow> bytes_mut" where
  "part m a n c = m\<lparr>bm_ptr := Ptr (blk (bm_ptr m)) (off (bm_ptr m) + a), bm_len := n, bm_cap := c\<rparr>"

lemma part_simps [simp]:
  "bm_data (part m a n c) = bm_data m" "bm_len (part m a n c) = n" "bm_cap (part m a n c) = c"
  "kind (part m a n c) = kind m" "vec_pos (part m a n c) = vec_pos m"
  "bm_ptr (part m a n c) = Ptr (blk (bm_ptr m)) (off (bm_ptr m) + a)"
  "h_ptr (HM (part m a n c)) = Ptr (blk (bm_ptr m)) (off (bm_ptr m) + a)"
  by (simp_all add: part_def kind_def vec_pos_def)

lemma part_ok:
  assumes ok: "handle_ok h (HM m)" and arc: "kind m = KIND_ARC"
    and range: "a + c \<le> bm_cap m" "n \<le> c" "a + n \<le> bm_len m \<or> n = 0"
  shows "handle_ok h (HM (part m a n c))" "contents h (HM (part m a n c)) = take n (drop a (contents h (HM m)))"
    "key (HM (part m a n c)) = key (HM m)" "region (HM (part m a n c)) \<subseteq> region (HM m)"
proof -
  let ?m = "part m a n c"
  have addr: "0 < addr_of (bm_ptr m)" using ok by (simp add: handle_ok_def)
  from arc_handle [OF ok arc] obtain k s where k: "key (HM m) = Some k" "h k = Some (Shared_V s)" by blast
  have slice: "h_slice h (HM ?m) = Inr (take n (drop a (contents h (HM m))))"
  proof (cases "n = 0")
    case True
    with addr show ?thesis by (auto simp: h_slice_def heap_read_def addr_of_def)
  next
    case False
    with range(3) heap_read_slice [OF read_contents(2) [OF ok], of a n] addr show ?thesis by (simp add: h_slice_def)
  qed
  then show "contents h (HM ?m) = take n (drop a (contents h (HM m)))" by (simp add: contents_def)
  show key: "key (HM ?m) = key (HM m)" using arc by simp
  show "region (HM ?m) \<subseteq> region (HM m)" using range by (auto simp: region_def)
  have "lies h (HM ?m) k" if "lies h (HM m) k"
    by (rule lies_part [OF that, where a = a]) (use range k in auto)
  with ok key slice range addr arc k show "handle_ok h (HM ?m)"
    by (auto simp: handle_ok_def addr_of_def buf_of_def)
qed

lemma part_whole: "part m 0 (bm_len m) (bm_cap m) = m"
  by (cases m; cases "bm_ptr m") (simp add: part_def)

text \<open>The pointer of a handle can be moved within its capacity.\<close>

lemma cap_in_block:
  assumes ok: "handle_ok h (HM m)" and n: "n \<le> bm_cap m"
  shows "ptr_add h (bm_ptr m) n = Inr (Ptr (blk (bm_ptr m)) (off (bm_ptr m) + n))"
    "vptr (Ptr (blk (bm_ptr m)) (off (bm_ptr m) + n)) = Inr (Ptr (blk (bm_ptr m)) (off (bm_ptr m) + n))"
proof -
  have addr: "0 < addr_of (bm_ptr m)" using ok by (simp add: handle_ok_def)
  then show "vptr (Ptr (blk (bm_ptr m)) (off (bm_ptr m) + n)) = Inr (Ptr (blk (bm_ptr m)) (off (bm_ptr m) + n))"
    by (auto simp: vptr_def expect_def addr_of_def)
  show "ptr_add h (bm_ptr m) n = Inr (Ptr (blk (bm_ptr m)) (off (bm_ptr m) + n))"
  proof (cases "n = 0")
    case False
    with n have "\<exists>k. key (HM m) = Some k" by simp
    then obtain k where k: "key (HM m) = Some k" "lies h (HM m) k" "res_buf h k = buf_of (HM m)"
      using ok by (auto simp: handle_ok_def)
    then have "\<exists>cs. h (blk (bm_ptr m)) = Some (Buffer cs) \<and> off (bm_ptr m) + bm_cap m \<le> length cs"
      using mutable_resource [OF ok _ k(1)] False n
      by (auto simp: lies_def res_buf_def buf_of_def Let_def split: if_splits)
    with False n show ?thesis by (auto simp: ptr_add_def cells_of_def)
  qed (simp add: ptr_add_def)
qed

context allocator_laws
begin

text \<open>
  \<open>promote_to_shared\<close> with a count of one or two. The handles that then share the vector may be
  any that do not overlap.
\<close>

lemma promote_to_shared_ok:
  assumes inv: "bytes_inv h (add_mset (HM m) hs) vs" and vec: "kind m = KIND_VEC" and n: "n = 1 \<or> n = 2"
  shows "\<exists>k h'. promote_to_shared alloc h m n = Inr (m\<lparr>bm_data := Ptr k 0\<rparr>, h') \<and>
    kind (m\<lparr>bm_data := Ptr k 0\<rparr>) = KIND_ARC \<and>
    handle_ok h' (HM (m\<lparr>bm_data := Ptr k 0\<rparr>)) \<and> contents h' (HM (m\<lparr>bm_data := Ptr k 0\<rparr>)) = contents h (HM m) \<and>
    undisturbed h hs vs h' \<and>
    (\<forall>new. size new = unat n \<longrightarrow> (\<forall>c \<in># new. key c = Some k) \<longrightarrow> (\<forall>c \<in># new. handle_ok h' c) \<longrightarrow> exclusive new \<longrightarrow>
      bytes_inv h' (new + hs) vs)"
proof -
  from to_vec_view [OF inv vec] obtain v bs where
    v: "rebuild_vec h (bm_ptr m) (bm_len m) (bm_cap m) (vec_pos m) = Inr v" "views m v (vec_pos m)"
      "vec_ok h v bs" "vec_buf v \<inter> vs = {}" "bytes_inv h hs (vec_buf v \<union> vs)" by blast
  have ok: "handle_ok h (HM m)" using bytes_invD(3) [OF inv] by simp
  let ?s = "Shared_V \<lparr>sv_vec = v, sv_original_capacity_repr = capacity_repr m, sv_ref_count = n\<rparr>"
  obtain a where a: "new_block alloc h 40 8 ?s = Inr (a, h(a \<mapsto> ?s))" "h a = None" "0 < a" "a mod 8 = 0"
    using new_block_ok [OF bytes_invD(1) [OF inv], of 40 8 ?s] by auto
  have ev: "even a" using a(4) by presburger
  let ?h = "h(a \<mapsto> ?s)" and ?m = "m\<lparr>bm_data := Ptr a 0\<rparr>"
  have arc: "kind ?m = KIND_ARC" using ev by (simp add: kind_def addr_of_def kind_even)
  have "promote_to_shared alloc h m n = Inr (?m, ?h)"
    using v(1) a(1) n vec kind_even [OF ev]
    by (auto simp: promote_to_shared_def rust_assert_def vec_pos_def capacity_repr_def Let_def)
  have ptr: "bm_ptr m = Ptr (blk (hv_ptr v)) (off (hv_ptr v) + vec_pos m)" "hv_cap v = vec_pos m + bm_cap m"
    using v(2) by (simp_all add: views_def)
  have ne: "hv_cap v \<noteq> 0 \<Longrightarrow> blk (hv_ptr v) \<noteq> a"
    using a(2) v(3) by (auto elim: vec_ok_cases)
  define ub where "ub = (if hv_cap v = 0 then None else Some (blk (hv_ptr v)))"
  have ub: "set_option ub = vec_buf v" by (simp add: ub_def vec_buf_def)
  have res: "res_buf ?h a = ub" "res_ok ?h a" "res_count ?h a = unat n"
    using v(3) ne capacity_repr_le [of m]
    by (auto simp: res_buf_def res_ok_def res_count_def ub_def elim!: vec_ok_cases)
  have slice: "h_slice ?h (HM ?m) = h_slice h (HM m)"
  proof (cases "bm_len m = 0")
    case False
    then have "hv_cap v \<noteq> 0" using ptr ok by (simp add: handle_ok_def)
    with ne ptr show ?thesis by (simp add: h_slice_def heap_read_cong)
  qed (simp add: h_slice_def heap_read_def)
  have mok: "handle_ok ?h (HM ?m)"
  proof -
    have "buf_of (HM ?m) = ub" "lies ?h (HM ?m) a"
      using v(3) ptr ne bytes_invD(2) [OF inv]
      by (auto simp: ub_def buf_of_def lies_def Let_def dangling_def elim!: vec_ok_cases)
    then show ?thesis using ok slice arc res(1) by (auto simp: handle_ok_def)
  qed
  have vs: "vec_buf v \<union> vs - set_option ub = vs" using v(4) ub by auto
  have acq: "bytes_inv ?h (new + hs) vs"
    if "size new = unat n" "\<forall>c \<in># new. key c = Some a" "\<forall>c \<in># new. handle_ok ?h c" "exclusive new" for new
  proof -
    have "new \<noteq> {#}" using that(1) n by auto
    from acquire_block(1) [OF v(5) _ a(2,3) refl this that(2,3,4) res(1,2)] that(1) res(3) ub vs show ?thesis by simp
  qed
  have "undisturbed h hs vs ?h"
    by (rule undisturbed_mono [OF undisturbed_fresh [OF inv a(2,3)]]) auto
  then show ?thesis using \<open>promote_to_shared alloc h m n = _\<close> arc mok slice acq by (auto simp: contents_def)
qed

text \<open>\<open>shallow_clone\<close>, for two handles that do not overlap\<close>

lemma shallow_clone_ok:
  assumes inv: "bytes_inv h (add_mset (HM m) hs) vs" and few: "size hs < 2 ^ 63 - 1"
  shows "\<exists>k m' h'. shallow_clone alloc h m = Inr (m', m', h') \<and> m' = m\<lparr>bm_data := Ptr k 0\<rparr> \<and> kind m' = KIND_ARC \<and>
    handle_ok h' (HM m') \<and> contents h' (HM m') = contents h (HM m) \<and> undisturbed h hs vs h' \<and>
    (\<forall>x y. key x = Some k \<longrightarrow> key y = Some k \<longrightarrow> handle_ok h' x \<longrightarrow> handle_ok h' y \<longrightarrow>
      region x \<subseteq> region (HM m) \<longrightarrow> region y \<subseteq> region (HM m) \<longrightarrow> \<not> clash x y \<longrightarrow>
      bytes_inv h' (add_mset x (add_mset y hs)) vs)"
proof (cases "kind m = KIND_VEC")
  case True
  from promote_to_shared_ok [OF inv True, of 2] obtain k h' where
    k: "promote_to_shared alloc h m 2 = Inr (m\<lparr>bm_data := Ptr k 0\<rparr>, h')"
      "kind (m\<lparr>bm_data := Ptr k 0\<rparr>) = KIND_ARC"
      "handle_ok h' (HM (m\<lparr>bm_data := Ptr k 0\<rparr>))" "contents h' (HM (m\<lparr>bm_data := Ptr k 0\<rparr>)) = contents h (HM m)"
      "undisturbed h hs vs h'"
      "\<forall>new. size new = 2 \<longrightarrow> (\<forall>c \<in># new. key c = Some k) \<longrightarrow> (\<forall>c \<in># new. handle_ok h' c) \<longrightarrow> exclusive new \<longrightarrow>
        bytes_inv h' (new + hs) vs"
    by auto
  have "bytes_inv h' (add_mset x (add_mset y hs)) vs"
    if "key x = Some k" "key y = Some k" "handle_ok h' x" "handle_ok h' y" "\<not> clash x y" for x y
    using k(6) [rule_format, of "{#x, y#}"] that by auto
  moreover have "shallow_clone alloc h m = Inr (m\<lparr>bm_data := Ptr k 0\<rparr>, m\<lparr>bm_data := Ptr k 0\<rparr>, h')"
    using True k(1) by (simp add: shallow_clone_def)
  ultimately show ?thesis using k(2-5) by blast
next
  case False
  with kind_cases have arc: "kind m = KIND_ARC" by blast
  have ok: "handle_ok h (HM m)" using bytes_invD(3) [OF inv] by simp
  from arc_handle [OF ok arc] obtain k s where
    k: "bm_data m = Ptr k 0" "key (HM m) = Some k" "h k = Some (Shared_V s)" by blast
  let ?h = "h(k \<mapsto> Shared_V (s\<lparr>sv_ref_count := sv_ref_count s + 1\<rparr>))"
  note inc = increment_shared_ok [OF inv k(2) few k(3)]
  have agree: "agree UNIV h ?h" using agree_recount(3) [of h k s] k(3) by simp
  then have agree': "agree UNIV ?h h" by (simp add: agree_def)
  note same = agree_handle_ok [OF agree_mono [OF agree subset_UNIV]] agree_handle_ok [OF agree_mono [OF agree' subset_UNIV]]
  have "m\<lparr>bm_data := Ptr k 0\<rparr> = m" using k(1) by (cases m) simp
  moreover have "bytes_inv ?h (add_mset x (add_mset y hs)) vs"
    if "key x = Some k" "key y = Some k" "handle_ok ?h x" "handle_ok ?h y"
      "region x \<subseteq> region (HM m)" "region y \<subseteq> region (HM m)" "\<not> clash x y" for x y
  proof (rule inv_add_ref [OF inv k(2) that(1,2) same(2) [OF that(3)] same(2) [OF that(4)] _ refl agree inc(2)])
    show "exclusive (add_mset x (add_mset y hs))"
      by (rule exclusive_views [OF bytes_invD(9) [OF inv]]) (use that k(2) in auto)
  qed
  moreover have "contents ?h (HM m) = contents h (HM m)" "undisturbed h hs vs ?h"
    using agree_contents [OF agree_mono [OF agree subset_UNIV]] agreeD_Static [OF agree UNIV_I] not_vec(1) [OF inv, of k] k(2)
    by (auto simp: undisturbed_def)
  moreover have "shallow_clone alloc h m = Inr (m, m, ?h)" using arc k(1) inc(1) by (simp add: shallow_clone_def)
  ultimately show ?thesis using arc same(1) [OF ok]
    by (intro exI [of _ k] exI [of _ m] exI [of _ ?h]) (simp add: eq_commute [of m])
qed

end

section \<open>Advancing\<close>

text \<open>A shared vector: only the pointer moves.\<close>

lemma advance_arc:
  assumes "handle_ok h (HM m)" "kind m = KIND_ARC" "cnt \<le> bm_cap m"
  shows "advance_unchecked alloc h m cnt = Inr (part m cnt (bm_len m - cnt) (bm_cap m - cnt), h)"
proof (cases "cnt = 0")
  case True
  with part_whole [of m] show ?thesis by (simp add: advance_unchecked_def)
next
  case False
  with assms cap_in_block [OF assms(1,3)] show ?thesis
    by (simp add: advance_unchecked_def rust_assert_def usize_sub_def part_def)
qed

text \<open>What replacing a handle by another view must achieve\<close>

definition became :: "heap \<Rightarrow> handle multiset \<Rightarrow> addr set \<Rightarrow> handle \<Rightarrow> u8 list \<Rightarrow> heap \<Rightarrow> bool" where
  "became h hs vs x bs h' \<longleftrightarrow> bytes_inv h' (add_mset x hs) vs \<and> contents h' x = bs \<and> undisturbed h hs vs h'"

lemma became_part:
  assumes inv: "bytes_inv h (add_mset (HM m) hs) vs" and arc: "kind m = KIND_ARC"
    and range: "a + c \<le> bm_cap m" "n \<le> c" "a + n \<le> bm_len m \<or> n = 0"
  shows "became h hs vs (HM (part m a n c)) (take n (drop a (contents h (HM m)))) h"
proof -
  have ok: "handle_ok h (HM m)" using bytes_invD(3) [OF inv] by simp
  note p = part_ok [OF ok arc range]
  show ?thesis using inv_reslice [OF inv p(3,1,4)] p(2) by (simp add: became_def)
qed

context allocator_laws
begin

lemma vec_pos_small:
  assumes inv: "bytes_inv h (add_mset (HM m) hs) vs" and vec: "kind m = KIND_VEC" and n: "cnt \<le> bm_len m"
  shows "vec_pos m + cnt \<le> usize_max"
proof -
  from to_vec_view [OF inv vec] obtain v bs where v: "views m v (vec_pos m)" "vec_ok h v bs" by blast
  have "bm_len m \<le> bm_cap m" using bytes_invD(3) [OF inv, of "HM m"] by (simp add: handle_ok_def)
  with vec_cap_bounded [OF inv v(2)] v(1) n isize_max_less_usize_max show ?thesis by (simp add: views_def)
qed

text \<open>Advancing an unshared handle moves its position, or shares it when the position gets too large.\<close>

lemma advance_vec_ok:
  assumes inv: "bytes_inv h (add_mset (HM m) hs) vs" and vec: "kind m = KIND_VEC" and n: "cnt \<le> bm_len m" "cnt \<noteq> 0"
    and pos: "vec_pos m + cnt \<le> MAX_VEC_POS"
  shows "\<exists>m'. advance_unchecked alloc h m cnt = Inr (m', h) \<and> became h hs vs (HM m') (drop cnt (contents h (HM m))) h \<and>
    bm_len m' = bm_len m - cnt \<and> bm_cap m' = bm_cap m - cnt"
proof -
  have ok: "handle_ok h (HM m)" using bytes_invD(3) [OF inv] by simp
  have le: "bm_len m \<le> bm_cap m" using ok by (simp add: handle_ok_def)
  from to_vec_view [OF inv vec] obtain v bs where
    v: "views m v (vec_pos m)" "vec_ok h v bs" "drop (vec_pos m) bs = contents h (HM m)" "vec_buf v \<inter> vs = {}"
      "bytes_inv h hs (vec_buf v \<union> vs)" by blast
  have vs: "vec_buf v \<union> vs - vec_buf v = vs" using v(4) by auto
  from set_vec_pos_ok [OF vec pos] obtain d where
    d: "set_vec_pos m (vec_pos m + cnt) = Inr (m\<lparr>bm_data := d\<rparr>)" "kind (m\<lparr>bm_data := d\<rparr>) = KIND_VEC"
      "vec_pos (m\<lparr>bm_data := d\<rparr>) = vec_pos m + cnt" "blk d = 0" "off d < 2 ^ 64" by blast
  let ?m = "(part m cnt (bm_len m - cnt) (bm_cap m - cnt))\<lparr>bm_data := d\<rparr>"
  have "views ?m v (vec_pos m + cnt)"
    using v(1) d n le by (auto simp: views_def part_def kind_def vec_pos_def)
  note view = from_vec_view [OF v(5,2) Un_upper1 this]
  have "advance_unchecked alloc h m cnt = Inr (?m, h)"
    using vec d(1) pos vec_pos_small [OF inv vec n(1)] n le cap_in_block [OF ok, of cnt]
    by (simp add: advance_unchecked_def get_vec_pos_def rust_assert_def usize_add_def usize_sub_def part_def vec_pos_def)
  moreover have "drop (vec_pos m + cnt) bs = drop cnt (contents h (HM m))" using v(3) by (simp add: add.commute flip: drop_drop)
  ultimately show ?thesis using view vs by (simp add: became_def)
qed

lemma advance_promotes_ok:
  assumes inv: "bytes_inv h (add_mset (HM m) hs) vs" and vec: "kind m = KIND_VEC" and n: "cnt \<le> bm_len m" "cnt \<noteq> 0"
    and pos: "\<not> vec_pos m + cnt \<le> MAX_VEC_POS"
  shows "\<exists>m' h'. advance_unchecked alloc h m cnt = Inr (m', h') \<and> became h hs vs (HM m') (drop cnt (contents h (HM m))) h' \<and>
    bm_len m' = bm_len m - cnt \<and> bm_cap m' = bm_cap m - cnt"
proof -
  have ok: "handle_ok h (HM m)" using bytes_invD(3) [OF inv] by simp
  have le: "bm_len m \<le> bm_cap m" using ok by (simp add: handle_ok_def)
  from promote_to_shared_ok [OF inv vec, of 1] obtain k h' where
    k: "promote_to_shared alloc h m 1 = Inr (m\<lparr>bm_data := Ptr k 0\<rparr>, h')"
      "kind (m\<lparr>bm_data := Ptr k 0\<rparr>) = KIND_ARC" "handle_ok h' (HM (m\<lparr>bm_data := Ptr k 0\<rparr>))"
      "contents h' (HM (m\<lparr>bm_data := Ptr k 0\<rparr>)) = contents h (HM m)" "undisturbed h hs vs h'"
      "\<forall>new. size new = 1 \<longrightarrow> (\<forall>c \<in># new. key c = Some k) \<longrightarrow> (\<forall>c \<in># new. handle_ok h' c) \<longrightarrow> exclusive new \<longrightarrow>
        bytes_inv h' (new + hs) vs"
    by auto
  let ?m = "m\<lparr>bm_data := Ptr k 0\<rparr>"
  have tk: "take (bm_len m - cnt) (drop cnt (contents h (HM m))) = drop cnt (contents h (HM m))"
    using length_contents [OF ok] by simp
  have "bytes_inv h' (add_mset (HM ?m) hs) vs" using k(6) [rule_format, of "{#HM ?m#}"] k(2,3) by simp
  from became_part [OF this k(2), of cnt "bm_cap m - cnt" "bm_len m - cnt"] n le tk k(4,5)
  have "became h hs vs (HM (part ?m cnt (bm_len m - cnt) (bm_cap m - cnt))) (drop cnt (contents h (HM m))) h'"
    by (auto simp: became_def)
  moreover have "advance_unchecked alloc h m cnt = Inr (part ?m cnt (bm_len m - cnt) (bm_cap m - cnt), h')"
    using vec k(1) pos vec_pos_small [OF inv vec n(1)] n le cap_in_block [OF k(3), of cnt]
    by (simp add: advance_unchecked_def get_vec_pos_def rust_assert_def usize_add_def usize_sub_def part_def vec_pos_def)
  ultimately show ?thesis by auto
qed

lemma advance_unchecked_ok:
  assumes inv: "bytes_inv h (add_mset (HM m) hs) vs" and n: "cnt \<le> bm_len m"
  shows "\<exists>m' h'. advance_unchecked alloc h m cnt = Inr (m', h') \<and>
    became h hs vs (HM m') (drop cnt (contents h (HM m))) h' \<and>
    bm_len m' = bm_len m - cnt \<and> bm_cap m' = bm_cap m - cnt"
proof -
  have ok: "handle_ok h (HM m)" using bytes_invD(3) [OF inv] by simp
  have le: "bm_len m \<le> bm_cap m" using ok by (simp add: handle_ok_def)
  consider (arc) "kind m = KIND_ARC" | (zero) "cnt = 0" | (vec) "kind m = KIND_VEC" "cnt \<noteq> 0" using kind_cases by blast
  then show ?thesis
  proof cases
    case arc
    have "take (bm_len m - cnt) (drop cnt (contents h (HM m))) = drop cnt (contents h (HM m))" using length_contents [OF ok] by simp
    with became_part [OF inv arc, of cnt "bm_cap m - cnt" "bm_len m - cnt"] advance_arc [OF ok arc] n le show ?thesis by auto
  next
    case zero
    with inv show ?thesis by (simp add: advance_unchecked_def became_def)
  next
    case vec
    with advance_vec_ok [OF inv vec(1) n vec(2)] advance_promotes_ok [OF inv vec(1) n vec(2)] show ?thesis by blast
  qed
qed

lemma bytes_mut_advance_ok:
  assumes inv: "bytes_inv h (add_mset (HM m) hs) vs" and n: "cnt \<le> bm_len m"
  shows "\<exists>m' h'. bytes_mut_advance alloc h m cnt = Inr (m', h') \<and>
    became h hs vs (HM m') (drop cnt (contents h (HM m))) h' \<and>
    bm_len m' = bm_len m - cnt \<and> bm_cap m' = bm_cap m - cnt"
  using advance_unchecked_ok [OF assms] n by (simp add: bytes_mut_advance_def rust_assert_def)

section \<open>Splitting\<close>

text \<open>\<open>split_off\<close> may also split the spare capacity.\<close>

lemma split_off_parts:
  assumes inv: "bytes_inv h (add_mset (HM m) hs) vs" and few: "size hs < 2 ^ 63 - 1" and at: "n \<le> bm_cap m"
  obtains m1 h' where "kind m1 = KIND_ARC" "bm_ptr m1 = bm_ptr m"
    "bytes_mut_split_off alloc h m n = Inr (part m1 n (bm_len m - n) (bm_cap m - n), part m1 0 (min (bm_len m) n) n, h')"
    "parted h hs vs (HM (part m1 n (bm_len m - n) (bm_cap m - n))) (drop n (contents h (HM m)))
      (HM (part m1 0 (min (bm_len m) n) n)) (take n (contents h (HM m))) h'"
proof -
  from shallow_clone_ok [OF inv few] obtain k m1 h' where
    c: "shallow_clone alloc h m = Inr (m1, m1, h')" "m1 = m\<lparr>bm_data := Ptr k 0\<rparr>" "kind m1 = KIND_ARC" "handle_ok h' (HM m1)"
      "contents h' (HM m1) = contents h (HM m)" "undisturbed h hs vs h'"
      "\<And>x y. key x = Some k \<Longrightarrow> key y = Some k \<Longrightarrow> handle_ok h' x \<Longrightarrow> handle_ok h' y \<Longrightarrow>
        region x \<subseteq> region (HM m) \<Longrightarrow> region y \<subseteq> region (HM m) \<Longrightarrow> \<not> clash x y \<Longrightarrow>
        bytes_inv h' (add_mset x (add_mset y hs)) vs"
    by blast
  have le: "bm_len m \<le> bm_cap m" using bytes_invD(3) [OF inv, of "HM m"] by (simp add: handle_ok_def)
  have m1: "bm_len m1 = bm_len m" "bm_cap m1 = bm_cap m" "region (HM m1) = region (HM m)" "key (HM m1) = Some k"
    using c(2,3) by (simp_all add: region_def)
  let ?o = "part m1 n (bm_len m - n) (bm_cap m - n)" and ?s = "part m1 0 (min (bm_len m) n) n"
  have o: "n + (bm_cap m - n) \<le> bm_cap m1" "bm_len m - n \<le> bm_cap m - n" "n + (bm_len m - n) \<le> bm_len m1 \<or> bm_len m - n = 0"
    and s: "0 + n \<le> bm_cap m1" "min (bm_len m) n \<le> n" "0 + min (bm_len m) n \<le> bm_len m1 \<or> min (bm_len m) n = 0"
    using at le m1 by auto
  note po = part_ok [OF c(4,3) o] and ps = part_ok [OF c(4,3) s]
  have "\<not> clash (HM ?o) (HM ?s)" by (auto simp: clash_def region_def)
  then have inv': "bytes_inv h' (add_mset (HM ?o) (add_mset (HM ?s) hs)) vs"
    using c(7) po(1,3,4) ps(1,3,4) m1 by simp
  have len: "length (contents h (HM m)) = bm_len m" using length_contents [OF bytes_invD(3) [OF inv, of "HM m"]] by simp
  have tk: "take (min (bm_len m) n) (contents h (HM m)) = take n (contents h (HM m))"
    using len by (simp add: min_def)
  have self: "m1\<lparr>bm_cap := n, bm_len := min (bm_len m1) n\<rparr> = ?s"
    using m1 by (cases m1; cases "bm_ptr m1") (simp add: part_def)
  have "bytes_mut_split_off alloc h m n = Inr (?o, ?s, h')"
    using at c(1) advance_arc [OF c(4,3), of n] m1 self by (simp add: bytes_mut_split_off_def rust_assert_def)
  moreover have "parted h hs vs (HM ?o) (drop n (contents h (HM m))) (HM ?s) (take n (contents h (HM m))) h'"
    using inv' po(2) ps(2) c(5,6) len tk by (simp add: parted_def)
  ultimately show thesis using that [of m1 h'] c(2,3) by simp
qed

lemma bytes_mut_split_off_ok:
  assumes "bytes_inv h (add_mset (HM m) hs) vs" "size hs < 2 ^ 63 - 1" "n \<le> bm_cap m"
  shows "\<exists>ret m' h'. bytes_mut_split_off alloc h m n = Inr (ret, m', h') \<and>
    parted h hs vs (HM ret) (drop n (contents h (HM m))) (HM m') (take n (contents h (HM m))) h' \<and>
    bm_cap m' = n \<and> bm_cap ret = bm_cap m - n"
  using assms by (elim split_off_parts) (auto simp: part_def)

lemma bytes_mut_split_to_ok:
  assumes inv: "bytes_inv h (add_mset (HM m) hs) vs" and few: "size hs < 2 ^ 63 - 1" and at: "n \<le> bm_len m"
  shows "\<exists>ret m' h'. bytes_mut_split_to alloc h m n = Inr (ret, m', h') \<and>
    parted h hs vs (HM ret) (take n (contents h (HM m))) (HM m') (drop n (contents h (HM m))) h' \<and>
    bm_cap ret = n \<and> bm_cap m' = bm_cap m - n"
proof -
  from shallow_clone_ok [OF inv few] obtain k m1 h' where
    c: "shallow_clone alloc h m = Inr (m1, m1, h')" "m1 = m\<lparr>bm_data := Ptr k 0\<rparr>" "kind m1 = KIND_ARC" "handle_ok h' (HM m1)"
      "contents h' (HM m1) = contents h (HM m)" "undisturbed h hs vs h'"
      "\<And>x y. key x = Some k \<Longrightarrow> key y = Some k \<Longrightarrow> handle_ok h' x \<Longrightarrow> handle_ok h' y \<Longrightarrow>
        region x \<subseteq> region (HM m) \<Longrightarrow> region y \<subseteq> region (HM m) \<Longrightarrow> \<not> clash x y \<Longrightarrow>
        bytes_inv h' (add_mset x (add_mset y hs)) vs"
    by blast
  have le: "bm_len m \<le> bm_cap m" using bytes_invD(3) [OF inv, of "HM m"] by (simp add: handle_ok_def)
  have m1: "bm_len m1 = bm_len m" "bm_cap m1 = bm_cap m" "region (HM m1) = region (HM m)" "key (HM m1) = Some k"
    using c(2,3) by (simp_all add: region_def)
  let ?s = "part m1 n (bm_len m - n) (bm_cap m - n)" and ?o = "part m1 0 n n"
  have s: "n + (bm_cap m - n) \<le> bm_cap m1" "bm_len m - n \<le> bm_cap m - n" "n + (bm_len m - n) \<le> bm_len m1 \<or> bm_len m - n = 0"
    and o: "0 + n \<le> bm_cap m1" "n \<le> n" "0 + n \<le> bm_len m1 \<or> n = 0"
    using at le m1 by auto
  note po = part_ok [OF c(4,3) o] and ps = part_ok [OF c(4,3) s]
  have "\<not> clash (HM ?o) (HM ?s)" by (auto simp: clash_def region_def)
  then have inv': "bytes_inv h' (add_mset (HM ?o) (add_mset (HM ?s) hs)) vs"
    using c(7) po(1,3,4) ps(1,3,4) m1 by simp
  have len: "length (contents h (HM m)) = bm_len m" using length_contents [OF bytes_invD(3) [OF inv, of "HM m"]] by simp
  have other: "m1\<lparr>bm_cap := n, bm_len := n\<rparr> = ?o"
    using m1 by (cases m1; cases "bm_ptr m1") (simp add: part_def)
  have "bytes_mut_split_to alloc h m n = Inr (?o, ?s, h')"
    using at le c(1) advance_arc [OF c(4,3), of n] m1 other by (simp add: bytes_mut_split_to_def rust_assert_def)
  moreover have "parted h hs vs (HM ?o) (take n (contents h (HM m))) (HM ?s) (drop n (contents h (HM m))) h'"
    using inv' po(2) ps(2) c(5,6) len by (simp add: parted_def)
  ultimately show ?thesis by auto
qed

end

section \<open>Shortening\<close>

lemma kind_len [simp]: "kind (m\<lparr>bm_len := n\<rparr>) = kind m" "vec_pos (m\<lparr>bm_len := n\<rparr>) = vec_pos m"
  by (simp_all add: kind_def vec_pos_def)

lemma shorten_ok:
  assumes inv: "bytes_inv h (add_mset (HM m) hs) vs" and n: "n \<le> bm_len m"
  shows "became h hs vs (HM (m\<lparr>bm_len := n\<rparr>)) (take n (contents h (HM m))) h"
proof -
  let ?m = "HM (m\<lparr>bm_len := n\<rparr>)"
  have ok: "handle_ok h (HM m)" using bytes_invD(3) [OF inv] by simp
  then have addr: "0 < addr_of (bm_ptr m)" by (simp add: handle_ok_def)
  have slice: "h_slice h ?m = Inr (take n (contents h (HM m)))"
    using heap_read_slice [OF read_contents(2) [OF ok], of 0 n] n addr by (cases "bm_ptr m") (simp add: h_slice_def)
  have key: "key ?m = key (HM m)" by simp
  have "lies h ?m k" if "lies h (HM m) k" for k
    by (rule lies_part [OF that, where a = 0]) (use n in \<open>cases "bm_ptr m", auto\<close>)
  then have "handle_ok h ?m" using ok slice key n by (auto simp: handle_ok_def buf_of_def)
  from inv_reslice [OF inv key this] slice show ?thesis by (simp add: became_def region_def contents_def)
qed

lemma bytes_mut_truncate_ok:
  assumes inv: "bytes_inv h (add_mset (HM m) hs) vs"
  shows "\<exists>m'. bytes_mut_truncate m n = Inr m' \<and> became h hs vs (HM m') (take n (contents h (HM m))) h \<and> bm_cap m' = bm_cap m"
proof (cases "n \<le> bm_len m")
  case True
  have "bm_len m \<le> bm_cap m" using bytes_invD(3) [OF inv, of "HM m"] by (simp add: handle_ok_def)
  with shorten_ok [OF inv True] True show ?thesis by (simp add: bytes_mut_truncate_def set_len_def rust_assert_def)
next
  case False
  have "length (contents h (HM m)) = bm_len m" using length_contents [OF bytes_invD(3) [OF inv, of "HM m"]] by simp
  with False inv show ?thesis by (simp add: bytes_mut_truncate_def became_def)
qed

lemma bytes_mut_clear_ok:
  assumes inv: "bytes_inv h (add_mset (HM m) hs) vs"
  shows "\<exists>m'. bytes_mut_clear m = Inr m' \<and> became h hs vs (HM m') [] h \<and> bm_cap m' = bm_cap m"
  using shorten_ok [OF inv, of 0] by (simp add: bytes_mut_clear_def set_len_def rust_assert_def)

section \<open>Freezing\<close>

lemma freeze_arc_ok:
  assumes inv: "bytes_inv h (add_mset (HM m) hs) vs" and arc: "kind m = KIND_ARC"
  shows "became h hs vs (HB (with_vtable (bm_ptr m) (bm_len m) (bm_data m) SHARED_V_VTABLE)) (contents h (HM m)) h"
proof -
  let ?b = "HB (with_vtable (bm_ptr m) (bm_len m) (bm_data m) SHARED_V_VTABLE)"
  have ok: "handle_ok h (HM m)" using bytes_invD(3) [OF inv] by simp
  from arc_handle [OF ok arc] obtain k s where
    k: "bm_data m = Ptr k 0" "key (HM m) = Some k" "h k = Some (Shared_V s)" "even k" by blast
  have slice: "h_slice h ?b = h_slice h (HM m)" by (simp add: h_slice_def with_vtable_def)
  have le: "bm_len m \<le> bm_cap m" using ok by (simp add: handle_ok_def)
  have old: "lies h (HM m) k" "res_buf h k = buf_of (HM m)" using ok k(2) unfolding handle_ok_def by blast+
  moreover have "lies h ?b k"
    by (rule lies_part [OF old(1), where a = 0]) (use k(3) le in \<open>auto simp: with_vtable_def\<close>)
  moreover have key: "key ?b = key (HM m)" using k arc by (simp add: with_vtable_def)
  moreover have "kind_ok h ?b" "buf_of ?b = buf_of (HM m)" "h_ptr ?b = bm_ptr m" "h_len ?b \<le> h_cap ?b"
    using k by (simp_all add: with_vtable_def buf_of_def)
  ultimately have "handle_ok h ?b" using ok slice k(2) unfolding handle_ok_def by simp
  from inv_reslice [OF inv key this] slice le show ?thesis
    by (auto simp: became_def region_def contents_def with_vtable_def)
qed

context allocator_laws
begin

lemma freeze_ok:
  assumes inv: "bytes_inv h (add_mset (HM m) hs) vs"
  shows "\<exists>b h'. freeze alloc h m = Inr (b, h') \<and> became h hs vs (HB b) (contents h (HM m)) h'"
proof (cases "kind m = KIND_VEC")
  case True
  from to_vec_view [OF inv True] obtain v bs where
    v: "rebuild_vec h (bm_ptr m) (bm_len m) (bm_cap m) (vec_pos m) = Inr v" "views m v (vec_pos m)" "vec_ok h v bs"
      "drop (vec_pos m) bs = contents h (HM m)" "vec_buf v \<inter> vs = {}" "bytes_inv h hs (vec_buf v \<union> vs)" by blast
  have vs: "vec_buf v \<union> vs - vec_buf v = vs" using v(5) by auto
  from from_vec_ok [OF v(6,3)] vs obtain b h1 where
    b: "from_vec alloc h v = Inr (b, h1)" "bytes_inv h1 (add_mset (HB b) hs) vs" "contents h1 (HB b) = bs"
      "undisturbed h hs vs h1" by auto
  have "b_len b = length bs" using length_contents [OF bytes_invD(3) [OF b(2)], of "HB b"] b(3) by simp
  also have "\<dots> = hv_len v" using v(3) heap_read_length by (auto simp: vec_ok_def)
  finally have "vec_pos m \<le> b_len b" using v(2) by (simp add: views_def)
  from bytes_advance_ok [OF b(2) this] obtain b' where
    b': "bytes_advance h1 b (vec_pos m) = Inr b'" "bytes_inv h1 (add_mset (HB b') hs) vs"
      "contents h1 (HB b') = drop (vec_pos m) bs" using b(3) by auto
  have "freeze alloc h m = Inr (b', h1)"
    using True v(1) b(1) b'(1) by (simp add: freeze_def get_vec_pos_def rust_assert_def vec_pos_def)
  with b' b(4) v(4) show ?thesis by (auto simp: became_def)
next
  case False
  with kind_cases have arc: "kind m = KIND_ARC" by blast
  with freeze_arc_ok [OF inv arc] show ?thesis by (simp add: freeze_def rust_assert_def)
qed

text \<open>\<open>Buf::copy_to_bytes\<close> of \<open>BytesMut\<close>: split, then freeze\<close>

lemma bytes_mut_copy_to_bytes_ok:
  assumes inv: "bytes_inv h (add_mset (HM m) hs) vs" and few: "size hs < 2 ^ 63 - 1" and at: "n \<le> bm_len m"
  shows "\<exists>b m' h'. bytes_mut_copy_to_bytes alloc h m n = Inr (b, m', h') \<and>
    parted h hs vs (HB b) (take n (contents h (HM m))) (HM m') (drop n (contents h (HM m))) h'"
proof -
  from bytes_mut_split_to_ok [OF assms] obtain ret m' h1 where
    s: "bytes_mut_split_to alloc h m n = Inr (ret, m', h1)"
      "parted h hs vs (HM ret) (take n (contents h (HM m))) (HM m') (drop n (contents h (HM m))) h1" by blast
  then have inv1: "bytes_inv h1 (add_mset (HM ret) (add_mset (HM m') hs)) vs" by (simp add: parted_def)
  from freeze_ok [OF inv1] obtain b h2 where
    b: "freeze alloc h1 ret = Inr (b, h2)" "became h1 (add_mset (HM m') hs) vs (HB b) (contents h1 (HM ret)) h2" by blast
  then have "undisturbed h1 hs vs h2" "contents h2 (HM m') = contents h1 (HM m')"
    by (auto simp: became_def undisturbed_def)
  with s b undisturbed_trans [of h hs vs h1 h2] show ?thesis
    by (auto simp: bytes_mut_copy_to_bytes_def parted_def became_def)
qed

end

end
