(* ===== verification/Bytes_Mut_Grow.thy ===== *)
theory Bytes_Mut_Grow
  imports Bytes_Mut_Ops
begin

unbundle bit_operations_syntax

text \<open>
  Growing a \<open>BytesMut\<close>: \<open>reserve\<close> and \<open>try_reclaim\<close> in all their cases (moving to the front
  of the vector, reclaiming what other handles have given up, growing the vector, copying out of
  a shared one). The contents stay, the capacity suffices, nothing leaks.
\<close>

section \<open>Vectors that grow\<close>

text \<open>A vector whose elements need not be initialised, and its memory\<close>

definition vec_raw :: "heap \<Rightarrow> hvec \<Rightarrow> bool" where
  "vec_raw h v \<longleftrightarrow>
     hv_len v \<le> hv_cap v \<and>
     (if hv_cap v = 0 then hv_ptr v = dangling
      else off (hv_ptr v) = 0 \<and> (\<exists>cs. h (blk (hv_ptr v)) = Some (Buffer cs) \<and> length cs = hv_cap v))"

definition vec_cells :: "heap \<Rightarrow> hvec \<Rightarrow> u8 option list" where
  "vec_cells h v = (if hv_cap v = 0 then [] else case cells_of h (blk (hv_ptr v)) of Some cs \<Rightarrow> cs | None \<Rightarrow> [])"

definition freed :: "hvec \<Rightarrow> heap \<Rightarrow> heap" where
  "freed v h = (if hv_cap v = 0 then h else h(blk (hv_ptr v) := None))"

lemma vec_ok_raw: "vec_ok h v bs \<Longrightarrow> vec_raw h v"
  by (auto simp: vec_ok_def vec_raw_def)

lemma vec_ok_cells:
  assumes "vec_raw h v" "h 0 = None"
  shows "vec_ok h v bs \<longleftrightarrow> take (hv_len v) (vec_cells h v) = map Some bs"
proof (cases "hv_cap v = 0")
  case True
  with assms(1) show ?thesis
    by (auto simp: vec_raw_def vec_ok_def vec_cells_def heap_read_def dangling_def addr_of_def)
next
  case False
  with assms obtain u cs where v: "hv_ptr v = Ptr u 0" "h u = Some (Buffer cs)" "length cs = hv_cap v" "hv_len v \<le> length cs" "u \<noteq> 0"
    by (cases "hv_ptr v"; cases "blk (hv_ptr v) = 0") (auto simp: vec_raw_def)
  let ?t = "take (hv_len v) cs"
  have "heap_read h (Ptr u 0) (hv_len v) = (if None \<in> set ?t then Inl (UB ''uninitialised read'') else Inr (map the ?t))"
    using v by (auto simp: heap_read_def cells_of_def addr_of_def Let_def)
  moreover have "None \<notin> set ?t \<and> map the ?t = bs \<longleftrightarrow> ?t = map Some bs"
  proof
    assume "None \<notin> set ?t \<and> map the ?t = bs"
    then show "?t = map Some bs" by (auto intro!: nth_equalityI simp: in_set_conv_nth)
  qed (auto simp: comp_def)
  ultimately show ?thesis using v False by (auto simp: vec_ok_def vec_cells_def cells_of_def)
qed

lemma vec_drop_freed: "vec_raw h v \<Longrightarrow> vec_drop h v = Inr (freed v h)"
  by (auto simp: vec_raw_def vec_drop_def dealloc_def freed_def)

context allocator_laws
begin

text \<open>What \<open>Vec::reserve\<close> does to the heap\<close>

lemma vec_reserve_cases:
  assumes fin: "finite (dom h)" and v: "vec_raw h v"
  obtains (fits) "additional \<le> hv_cap v - hv_len v" "vec_reserve alloc h v additional = Inr (v, h)"
    | (overflow) "vec_reserve alloc h v additional = capacity_overflow"
        "\<not> (hv_cap v \<le> 2 ^ 61 \<and> hv_len v + additional \<le> 2 ^ 61)"
    | (grown) a cs where "h a = None" "0 < a" "length cs \<le> isize_max" "hv_len v + additional \<le> length cs" "0 < length cs"
        "take (hv_len v) cs = take (hv_len v) (vec_cells h v)"
        "vec_reserve alloc h v additional =
          Inr (\<lparr>hv_ptr = Ptr a 0, hv_len = hv_len v, hv_cap = length cs\<rparr>, freed v (h(a \<mapsto> Buffer cs)))"
proof -
  let ?cap = "vec_growth alloc (hv_cap v) (hv_len v + additional)"
  consider "additional \<le> hv_cap v - hv_len v" | "\<not> additional \<le> hv_cap v - hv_len v" "?cap > isize_max"
    | "\<not> additional \<le> hv_cap v - hv_len v" "?cap \<le> isize_max" by linarith
  then show thesis
  proof cases
    case 1
    with fits show thesis by (simp add: vec_reserve_def)
  next
    case 2
    with growth_moderate [of "hv_cap v" "hv_len v + additional"] overflow show thesis
      by (auto simp: vec_reserve_def Let_def)
  next
    case 3
    let ?cs = "take (hv_len v) (vec_cells h v) @ replicate (?cap - hv_len v) None"
    have enough: "hv_len v + additional \<le> ?cap" by (rule growth_enough)
    have len: "length (vec_cells h v) = hv_cap v" "hv_len v \<le> hv_cap v"
      using v by (auto simp: vec_raw_def vec_cells_def cells_of_def)
    then have lcs: "length ?cs = ?cap" using enough by simp
    obtain a where a: "new_block alloc h ?cap 1 (Buffer ?cs) = Inr (a, h(a \<mapsto> Buffer ?cs))" "h a = None" "0 < a"
      using new_block_ok [OF fin] by blast
    have "vec_raw (h(a \<mapsto> Buffer ?cs)) v" using v a(2) by (auto simp: vec_raw_def)
    note drop = vec_drop_freed [OF this]
    have "vec_reserve alloc h v additional =
        Inr (\<lparr>hv_ptr = Ptr a 0, hv_len = hv_len v, hv_cap = length ?cs\<rparr>, freed v (h(a \<mapsto> Buffer ?cs)))"
      using 3 a(1) drop lcs by (simp add: vec_reserve_def Let_def vec_cells_def)
    moreover have "0 < length ?cs" using 3(1) enough lcs by simp
    ultimately show thesis using 3 a enough lcs len by (intro grown [of a ?cs]) auto
  qed
qed

text \<open>The same against the invariant, for a vector of initialised bytes\<close>

lemma vec_reserve_ok:
  assumes inv: "bytes_inv h hs vs" and v: "vec_ok h v bs" "vec_buf v \<subseteq> vs"
  obtains (overflow) "vec_reserve alloc h v additional = capacity_overflow"
      "\<not> (hv_cap v \<le> 2 ^ 61 \<and> hv_len v + additional \<le> 2 ^ 61)"
    | (grown) v' h' where "vec_reserve alloc h v additional = Inr (v', h')" "vec_ok h' v' bs" "hv_len v' = hv_len v"
        "hv_len v + additional \<le> hv_cap v'" "vec_buf v' \<inter> (vs - vec_buf v) = {}"
        "bytes_inv h' hs (vec_buf v' \<union> (vs - vec_buf v))" "undisturbed h hs (vs - vec_buf v) h'"
  using bytes_invD(1) [OF inv] vec_ok_raw [OF v(1)]
proof (cases rule: vec_reserve_cases [where additional = additional])
  case fits
  then have "hv_len v + additional \<le> hv_cap v" using v(1) by (auto simp: vec_ok_def)
  moreover have "vec_buf v \<union> (vs - vec_buf v) = vs" using v(2) by auto
  ultimately show thesis using fits v inv by (intro grown [of v h]) auto
next
  case overflow
  with that(1) show thesis by blast
next
  case (grown a cs)
  let ?h = "h(a \<mapsto> Buffer cs)" and ?v = "\<lparr>hv_ptr = Ptr a 0, hv_len = hv_len v, hv_cap = length cs\<rparr>"
  have avs: "a \<notin> vs" using not_vec(3) [OF inv grown(1)] .
  have "bytes_inv ?h hs (insert a vs)" "undisturbed h hs (vs - {a}) ?h"
    by (rule inv_vec_change [OF inv _ refl, of a "Some (Buffer cs)"]; use grown in simp)+
  then have inv1: "bytes_inv ?h hs (insert a vs)" and un1: "undisturbed h hs vs ?h" using avs by auto
  have "vec_ok ?h v bs" by (rule vec_ok_kept [OF v(1)]) (use v(2) avs in auto)
  from vec_drop_ok [OF inv1 this] v(2) vec_drop_freed [OF vec_ok_raw [OF this]]
  have inv2: "bytes_inv (freed v ?h) hs (insert a vs - vec_buf v)" and un2: "undisturbed ?h hs (insert a vs - vec_buf v) (freed v ?h)"
    by auto
  have abuf: "a \<notin> vec_buf v" using avs v(2) by auto
  have fa: "freed v ?h a = Some (Buffer cs)" using abuf by (auto simp: freed_def vec_buf_def split: if_splits)
  have h0: "freed v ?h 0 = None" "h 0 = None" using bytes_invD(2) [OF inv2] bytes_invD(2) [OF inv] .
  have raw: "vec_raw (freed v ?h) ?v" using fa grown(4,5) by (simp add: vec_raw_def)
  have "take (hv_len v) (vec_cells h v) = map Some bs" using vec_ok_cells [OF vec_ok_raw [OF v(1)] h0(2)] v(1) by simp
  moreover have "vec_cells (freed v ?h) ?v = cs" using fa grown(5) by (simp add: vec_cells_def cells_of_def)
  ultimately have vok: "vec_ok (freed v ?h) ?v bs"
    unfolding vec_ok_cells [OF raw h0(1)] using grown(6) by simp
  have vb: "vec_buf ?v = {a}" "insert a vs - vec_buf v = vec_buf ?v \<union> (vs - vec_buf v)"
    using grown(5) abuf by (auto simp: vec_buf_def)
  have "undisturbed h hs (vs - vec_buf v) (freed v ?h)"
    by (rule undisturbed_trans [OF undisturbed_mono [OF un1] undisturbed_mono [OF un2]]) auto
  with grown(4,7) vok inv2 vb avs that(2) [of ?v "freed v ?h"] show thesis by auto
qed

end

section \<open>Reserving\<close>

text \<open>The only way to fail: the capacity would be too large.\<close>

definition too_large :: "'a res \<Rightarrow> bool" where
  "too_large r \<longleftrightarrow> r = Inl (Panic (Expect_failed ''overflow'')) \<or> r = capacity_overflow"

text \<open>Buffers and requests of at most \<open>2^60\<close> bytes never fail.\<close>

definition moderate :: "heap \<Rightarrow> bytes_mut \<Rightarrow> usize \<Rightarrow> bool" where
  "moderate h m additional \<longleftrightarrow>
     bm_len m + additional \<le> 2 ^ 60 \<and> (\<forall>cs. h (blk (bm_ptr m)) = Some (Buffer cs) \<longrightarrow> length cs \<le> 2 ^ 60)"

text \<open>What \<open>reserve_inner\<close> promises, with or without permission to allocate\<close>

definition reserved ::
  "heap \<Rightarrow> handle multiset \<Rightarrow> addr set \<Rightarrow> bytes_mut \<Rightarrow> usize \<Rightarrow> bool \<Rightarrow> (bool \<times> bytes_mut \<times> heap) res \<Rightarrow> bool" where
  "reserved h hs vs m additional allocate r \<longleftrightarrow>
     (\<exists>m' h'. r = Inr (True, m', h') \<and> became h hs vs (HM m') (contents h (HM m)) h' \<and>
        bm_len m' = bm_len m \<and> bm_len m + additional \<le> bm_cap m') \<or>
     \<not> allocate \<and> r = Inr (False, m, h) \<or>
     allocate \<and> too_large r \<and> \<not> moderate h m additional"

lemma reservedI:
  "r = Inr (True, m', h') \<Longrightarrow> became h hs vs (HM m') (contents h (HM m)) h' \<Longrightarrow> bm_len m' = bm_len m \<Longrightarrow>
   bm_len m + additional \<le> bm_cap m' \<Longrightarrow> reserved h hs vs m additional allocate r"
  by (auto simp: reserved_def)

lemma kind_upd [simp]:
  "kind (m\<lparr>bm_ptr := p\<rparr>) = kind m" "vec_pos (m\<lparr>bm_ptr := p\<rparr>) = vec_pos m"
  "kind (m\<lparr>bm_cap := c\<rparr>) = kind m" "vec_pos (m\<lparr>bm_cap := c\<rparr>) = vec_pos m"
  by (simp_all add: kind_def vec_pos_def)

text \<open>Moving to the front of the vector\<close>

lemma vec_to_front:
  assumes inv: "bytes_inv h (add_mset (HM m) hs) vs" and v: "views m v n" "vec_ok h v bs"
  shows "\<exists>h'. ptr_copy h (bm_ptr m) (hv_ptr v) (bm_len m) = Inr h' \<and> to_vector h (HM m) hs vs (v\<lparr>hv_len := bm_len m\<rparr>) h'"
proof -
  have ok: "handle_ok h (HM m)" using bytes_invD(3) [OF inv] by simp
  show ?thesis using v(2)
  proof (cases rule: vec_ok_cases)
    case none
    then have m: "bm_len m = 0" "bm_ptr m = dangling" "key (HM m) = None" using v(1) by (auto simp: views_def dangling_def)
    have "contents h (HM m) = []" using length_contents [OF ok] m by simp
    moreover have "v\<lparr>hv_len := bm_len m\<rparr> = vec_new" using none(5) m(1) by (simp add: vec_new_def)
    moreover have "bytes_inv h hs vs" using inv inv_keyless [OF m(3) ok] by simp
    ultimately have "to_vector h (HM m) hs vs (v\<lparr>hv_len := bm_len m\<rparr>) h" using vec_new_ok by (simp add: to_vector_def)
    with none(3) m show ?thesis
      by (auto simp: ptr_copy_def heap_read_def heap_write_def dangling_def addr_of_def)
  next
    case (buffer u cs)
    then have m: "bm_ptr m = Ptr u n" "key (HM m) = Some u" using v(1) by (auto simp: views_def)
    note so = sole_owner [OF inv m(2) buffer(3)]
    have bu: "buf_of (HM m) = Some u" using m(1) so(5) by (simp add: buf_of_def)
    have pos: "0 < length cs" using buffer by simp
    have "v\<lparr>hv_len := bm_len m\<rparr> = \<lparr>hv_ptr = Ptr u 0, hv_len = bm_len m, hv_cap = length cs\<rparr>"
      using buffer by (cases v) simp
    with move_to_front [OF inv m(2) so(1) bu buffer(3) pos refl] buffer(2) show ?thesis by auto
  qed
qed

lemma view_start:
  assumes "views m v n" "vec_ok h v bs"
  shows "ptr_sub h (bm_ptr m) n = Inr (hv_ptr v)"
  using assms(2)
proof (cases rule: vec_ok_cases)
  case none
  with assms(1) show ?thesis by (auto simp: views_def ptr_sub_def dangling_def)
next
  case (buffer u cs)
  with assms(1) show ?thesis by (auto simp: views_def ptr_sub_def cells_of_def)
qed

lemma reserve_vec_front:
  assumes inv: "bytes_inv h (add_mset (HM m) hs) vs" and vec: "kind m = KIND_VEC"
    and space: "additional \<le> bm_cap m - bm_len m + vec_pos m" "bm_len m \<le> vec_pos m"
  shows "reserved h hs vs m additional allocate (reserve_vec alloc h m additional allocate)"
proof -
  from to_vec_view [OF inv vec] obtain v bs where
    v: "views m v (vec_pos m)" "vec_ok h v bs" "vec_buf v \<inter> vs = {}" "bytes_inv h hs (vec_buf v \<union> vs)" by blast
  have le: "bm_len m \<le> bm_cap m" using bytes_invD(3) [OF inv, of "HM m"] by (simp add: handle_ok_def)
  have m: "bm_ptr m = Ptr (blk (hv_ptr v)) (off (hv_ptr v) + vec_pos m)" "hv_cap v = vec_pos m + bm_cap m"
    using v(1) by (simp_all add: views_def)
  have small: "vec_pos m + bm_cap m \<le> usize_max"
    using vec_cap_bounded [OF inv v(2)] isize_max_less_usize_max m(2) by simp
  from vec_to_front [OF inv v(1,2)] obtain h' where
    h': "ptr_copy h (bm_ptr m) (hv_ptr v) (bm_len m) = Inr h'" "to_vector h (HM m) hs vs (v\<lparr>hv_len := bm_len m\<rparr>) h'" by blast
  let ?v = "v\<lparr>hv_len := bm_len m\<rparr>"
  from set_vec_pos_ok [of "m\<lparr>bm_ptr := hv_ptr v\<rparr>" 0] vec obtain d where
    d: "set_vec_pos (m\<lparr>bm_ptr := hv_ptr v\<rparr>) 0 = Inr (m\<lparr>bm_ptr := hv_ptr v, bm_data := d\<rparr>)"
      "kind (m\<lparr>bm_ptr := hv_ptr v, bm_data := d\<rparr>) = KIND_VEC" "vec_pos (m\<lparr>bm_ptr := hv_ptr v, bm_data := d\<rparr>) = 0"
      "blk d = 0" "off d < 2 ^ 64" by auto
  let ?m = "m\<lparr>bm_ptr := hv_ptr v, bm_data := d, bm_cap := bm_cap m + vec_pos m\<rparr>"
  have "views ?m ?v 0" using d(2-5) m(2) by (simp add: views_def kind_def vec_pos_def add.commute)
  note view = from_vec_view [OF _ _ Un_upper1 this]
  have "became h hs vs (HM ?m) (contents h (HM m)) h'"
  proof -
    have tv: "vec_ok h' ?v (contents h (HM m))" "vec_buf ?v \<inter> vs = {}" "bytes_inv h' hs (vec_buf ?v \<union> vs)" "undisturbed h hs vs h'"
      using h'(2) by (simp_all add: to_vector_def)
    have "vec_buf ?v \<union> vs - vec_buf ?v = vs" using tv(2) by auto
    with view [OF tv(3,1)] tv(4) show ?thesis by (simp add: became_def)
  qed
  moreover have "reserve_vec alloc h m additional allocate = Inr (True, ?m, h')"
  proof -
    have "copy_nonoverlapping h (bm_ptr m) (hv_ptr v) (bm_len m) = Inr h'"
      using h'(1) m(1) space(2) by (simp add: copy_nonoverlapping_def)
    then show ?thesis
      using vec le small space view_start [OF v(1,2)] vec_ok_vptr [OF v(4,2)] d(1)
      by (simp add: reserve_vec_def get_vec_pos_def rust_assert_def usize_sub_def usize_add_def vec_pos_def [symmetric])
  qed
  moreover have "bm_len m + additional \<le> bm_cap m + vec_pos m" using space(1) le by simp
  ultimately show ?thesis by (intro reservedI [where m' = ?m and h' = h']) simp_all
qed

context allocator_laws
begin

text \<open>Growing the vector\<close>

text \<open>Neither room behind nor in front: the rebuilt vector grows.\<close>

lemma reserve_vec_grow:
  assumes inv: "bytes_inv h (add_mset (HM m) hs) vs"
    and v: "views m v (vec_pos m)" "vec_ok h v bs" "drop (vec_pos m) bs = contents h (HM m)" "vec_buf v \<inter> vs = {}" "bytes_inv h hs (vec_buf v \<union> vs)"
    and run: "reserve_vec alloc h m additional True =
       res_bind (vec_reserve alloc h v additional) (\<lambda>(v, h).
       res_bind (ptr_add h (hv_ptr v) (vec_pos m)) (\<lambda>p.
       res_bind (vptr p) (\<lambda>p.
       res_bind (usize_sub (hv_cap v) (vec_pos m)) (\<lambda>cap.
       res_bind (rust_assert (bm_len m = hv_len v - vec_pos m) ''self.len == v.len() - off'') (\<lambda>_.
       Inr (True, m\<lparr>bm_ptr := p, bm_cap := cap\<rparr>, h))))))"
  shows "reserved h hs vs m additional True (reserve_vec alloc h m additional True)"
proof -
  have m: "bm_ptr m = Ptr (blk (hv_ptr v)) (off (hv_ptr v) + vec_pos m)" "hv_cap v = vec_pos m + bm_cap m" "hv_len v = vec_pos m + bm_len m"
    using v(1) by (simp_all add: views_def)
  have vs: "vec_buf v \<union> vs - vec_buf v = vs" using v(4) by auto
  show ?thesis using v(5,2) Un_upper1
  proof (cases rule: vec_reserve_ok [where additional = additional])
    case overflow
    have "\<not> moderate h m additional"
    proof
      assume mod: "moderate h m additional"
      have "hv_cap v \<le> 2 ^ 60" using v(2) mod m(1) by (cases rule: vec_ok_cases) (auto simp: moderate_def)
      with overflow(2) mod m show False by (simp add: moderate_def)
    qed
    with run overflow(1) show ?thesis by (simp add: reserved_def too_large_def capacity_overflow_def)
  next
    case (grown v' h')
    let ?p = "Ptr (blk (hv_ptr v')) (off (hv_ptr v') + vec_pos m)"
    let ?m = "m\<lparr>bm_ptr := ?p, bm_cap := hv_cap v' - vec_pos m\<rparr>"
    have view: "views ?m v' (vec_pos m)" using v(1) grown(3,4) m(3) by (simp add: views_def)
    have inv': "bytes_inv h' hs (vec_buf v' \<union> vs)" "vec_buf v' \<union> vs - vec_buf v' = vs" using grown(5,6) vs by auto
    from from_vec_view [OF inv'(1) grown(2) Un_upper1 view] inv'(2) grown(7) v(3) vs
    have "became h hs vs (HM ?m) (contents h (HM m)) h'" by (simp add: became_def)
    moreover have "ptr_add h' (hv_ptr v') (vec_pos m) = Inr ?p" using grown(2,3,4) m(3)
      by (auto simp: ptr_add_def cells_of_def elim!: vec_ok_cases)
    moreover have "vptr ?p = Inr ?p" using vec_ok_vptr [OF inv'(1) grown(2)]
      by (auto simp: vptr_def expect_def addr_of_def split: if_splits)
    ultimately show ?thesis using run grown(1,3,4) m(3)
      by (intro reservedI [where m' = ?m and h' = h']) (simp_all add: rust_assert_def usize_sub_def)
  qed
qed

lemma reserve_vec_ok:
  assumes inv: "bytes_inv h (add_mset (HM m) hs) vs" and vec: "kind m = KIND_VEC"
  shows "reserved h hs vs m additional allocate (reserve_vec alloc h m additional allocate)"
proof (cases "additional \<le> bm_cap m - bm_len m + vec_pos m \<and> bm_len m \<le> vec_pos m")
  case True
  with reserve_vec_front [OF inv vec] show ?thesis by simp
next
  case False
  from to_vec_view [OF inv vec] obtain v bs where
    v: "rebuild_vec h (bm_ptr m) (bm_len m) (bm_cap m) (vec_pos m) = Inr v" "views m v (vec_pos m)" "vec_ok h v bs"
      "drop (vec_pos m) bs = contents h (HM m)" "vec_buf v \<inter> vs = {}" "bytes_inv h hs (vec_buf v \<union> vs)" by blast
  have le: "bm_len m \<le> bm_cap m" using bytes_invD(3) [OF inv, of "HM m"] by (simp add: handle_ok_def)
  have small: "vec_pos m + bm_cap m \<le> usize_max"
    using vec_cap_bounded [OF inv v(3)] isize_max_less_usize_max v(2) by (simp add: views_def)
  have run: "reserve_vec alloc h m additional allocate =
      (if \<not> allocate then Inr (False, m, h) else
       res_bind (vec_reserve alloc h v additional) (\<lambda>(v, h).
       res_bind (ptr_add h (hv_ptr v) (vec_pos m)) (\<lambda>p.
       res_bind (vptr p) (\<lambda>p.
       res_bind (usize_sub (hv_cap v) (vec_pos m)) (\<lambda>cap.
       res_bind (rust_assert (bm_len m = hv_len v - vec_pos m) ''self.len == v.len() - off'') (\<lambda>_.
       Inr (True, m\<lparr>bm_ptr := p, bm_cap := cap\<rparr>, h)))))))"
    using vec le small False v(1)
    by (auto simp: reserve_vec_def get_vec_pos_def rust_assert_def usize_sub_def usize_add_def vec_pos_def [symmetric])
  show ?thesis
  proof (cases allocate)
    case False
    with run show ?thesis by (simp add: reserved_def)
  next
    case True
    with reserve_vec_grow [OF inv v(2,3,4,5,6)] run show ?thesis by simp
  qed
qed

end

end
