(* ===== verification/Bytes_Mut_Reserve.thy ===== *)
theory Bytes_Mut_Reserve
  imports Bytes_Mut_Grow
begin

unbundle bit_operations_syntax

text \<open>
  \<open>reserve\<close> for a vector that is shared: reclaiming it when no other handle is left, else
  copying out of it.
\<close>

section \<open>The vector of a shared handle\<close>

lemma arc_vec:
  assumes ok: "handle_ok h (HM m)" and k: "key (HM m) = Some k" "h k = Some (Shared_V s)" and res: "res_ok h k"
  obtains (none) "hv_cap (sv_vec s) = 0" "hv_ptr (sv_vec s) = dangling" "bm_ptr m = dangling" "bm_cap m = 0" "buf_of (HM m) = None"
    | (buffer) u cs where "hv_ptr (sv_vec s) = Ptr u 0" "h u = Some (Buffer cs)" "length cs = hv_cap (sv_vec s)"
        "0 < length cs" "buf_of (HM m) = Some u" "blk (bm_ptr m) = u" "off (bm_ptr m) + bm_cap m \<le> length cs" "u \<noteq> k" "u \<noteq> 0"
proof (cases "hv_cap (sv_vec s) = 0")
  case True
  have "res_buf h k = buf_of (HM m)" "lies h (HM m) k" using ok k(1) unfolding handle_ok_def by blast+
  with True res k(2) none show thesis
    by (auto simp: res_buf_def res_ok_def buf_of_def lies_def split: if_splits)
next
  case False
  have rb: "res_buf h k = buf_of (HM m)" "lies h (HM m) k" using ok k(1) unfolding handle_ok_def by blast+
  with False res k(2) obtain u cs where
    u: "hv_ptr (sv_vec s) = Ptr u 0" "h u = Some (Buffer cs)" "length cs = hv_cap (sv_vec s)" "buf_of (HM m) = Some u"
    by (cases "hv_ptr (sv_vec s)") (auto simp: res_buf_def res_ok_def)
  then have p: "blk (bm_ptr m) = u" "u \<noteq> 0" by (auto simp: buf_of_def split: if_splits)
  have "off (bm_ptr m) + bm_cap m \<le> length cs" using rb(2) k(2) u(2) p by (auto simp: lies_def Let_def)
  moreover have "u \<noteq> k" using u(2) k(2) by auto
  ultimately show thesis using buffer u p False by auto
qed

text \<open>Any readable part of the vector is a handle.\<close>

lemma arc_view:
  assumes k: "kind m = KIND_ARC" "bm_data m = Ptr k 0" "h k = Some (Shared_V s)" "hv_cap (sv_vec s) \<noteq> 0"
    and u: "hv_ptr (sv_vec s) = Ptr u 0" "h u = Some (Buffer cs)" "u \<noteq> 0"
    and p: "bm_ptr m = Ptr u p" "p + bm_cap m \<le> length cs" "bm_len m \<le> bm_cap m" "heap_read h (Ptr u p) (bm_len m) = Inr bs"
  shows "handle_ok h (HM m)" "key (HM m) = Some k" "contents h (HM m) = bs"
  using assms by (auto simp: handle_ok_def h_slice_def contents_def res_buf_def buf_of_def lies_def addr_of_def)

text \<open>The only handle of a resource may become any other.\<close>

lemma inv_alone:
  assumes inv: "bytes_inv h (add_mset x hs) vs" and k: "key x = Some k" "k \<notin> keys hs" and x': "key x' = Some k" "handle_ok h x'"
  shows "bytes_inv h (add_mset x' hs) vs"
proof (rule inv_recount [OF inv])
  have "\<not> clash x' y" if "y \<in># hs" for y using that k(2) x'(1) by (auto simp: clash_def keys_def)
  then show "exclusive (add_mset x' hs)" using bytes_invD(9) [OF inv] by simp
qed (use inv k x' in \<open>auto simp: agree_def bytes_inv_def\<close>)

section \<open>Reclaiming\<close>

lemma offset_in_vec:
  assumes "handle_ok h (HM m)" "key (HM m) = Some k" "h k = Some (Shared_V s)" "res_ok h k"
  defines "n \<equiv> off (bm_ptr m) - off (hv_ptr (sv_vec s))"
  shows "offset_from (bm_ptr m) (hv_ptr (sv_vec s)) = Inr n" "n + bm_cap m \<le> hv_cap (sv_vec s)"
    "bm_ptr m = Ptr (blk (hv_ptr (sv_vec s))) (off (hv_ptr (sv_vec s)) + n)"
proof -
  have "offset_from (bm_ptr m) (hv_ptr (sv_vec s)) = Inr n \<and> n + bm_cap m \<le> hv_cap (sv_vec s) \<and>
      bm_ptr m = Ptr (blk (hv_ptr (sv_vec s))) (off (hv_ptr (sv_vec s)) + n)"
    using assms(1-4)
  proof (cases rule: arc_vec)
    case none
    then show ?thesis by (simp add: n_def offset_from_def dangling_def)
  next
    case (buffer u cs)
    then show ?thesis by (cases "bm_ptr m") (simp add: n_def offset_from_def)
  qed
  then show "offset_from (bm_ptr m) (hv_ptr (sv_vec s)) = Inr n" "n + bm_cap m \<le> hv_cap (sv_vec s)"
    "bm_ptr m = Ptr (blk (hv_ptr (sv_vec s))) (off (hv_ptr (sv_vec s)) + n)" by auto
qed

text \<open>The vector is large enough as it is.\<close>

lemma reclaim_in_place:
  assumes inv: "bytes_inv h (add_mset (HM m) hs) vs" and arc: "kind m = KIND_ARC"
    and k: "bm_data m = Ptr k 0" "key (HM m) = Some k" "h k = Some (Shared_V s)" "k \<notin> keys hs"
    and n: "offset_from (bm_ptr m) (hv_ptr (sv_vec s)) = Inr n" "n + c \<le> hv_cap (sv_vec s)" "bm_len m \<le> c"
  shows "became h hs vs (HM (m\<lparr>bm_cap := c\<rparr>)) (contents h (HM m)) h"
proof -
  have ok: "handle_ok h (HM m)" using bytes_invD(3) [OF inv] by simp
  have res: "res_ok h k" using bytes_invD(4) [OF inv, of k] k(2) by simp
  have mk: "handle_ok h (HM (m\<lparr>bm_cap := c\<rparr>)) \<and> key (HM (m\<lparr>bm_cap := c\<rparr>)) = Some k \<and>
      contents h (HM (m\<lparr>bm_cap := c\<rparr>)) = contents h (HM m)"
    using ok k(2,3) res
  proof (cases rule: arc_vec)
    case none
    with n(2,3) have "m\<lparr>bm_cap := c\<rparr> = m" by (cases m) simp
    with ok k(2) show ?thesis by simp
  next
    case (buffer u cs)
    have p: "bm_ptr m = Ptr u n" using n(1) buffer by (cases "bm_ptr m") (auto simp: offset_from_def split: if_splits)
    have cap: "hv_cap (sv_vec s) \<noteq> 0" using buffer by simp
    from arc_view [of "m\<lparr>bm_cap := c\<rparr>" k h s u cs n "contents h (HM m)"] read_contents(2) [OF ok] arc k buffer p n cap
    show ?thesis by simp
  qed
  from inv_alone [OF inv k(2,4), of "HM (m\<lparr>bm_cap := c\<rparr>)"] mk show ?thesis by (simp add: became_def)
qed

text \<open>The bytes move to the front of the vector.\<close>

lemma reclaim_front:
  assumes inv: "bytes_inv h (add_mset (HM m) hs) vs" and arc: "kind m = KIND_ARC"
    and k: "bm_data m = Ptr k 0" "key (HM m) = Some k" "h k = Some (Shared_V s)" "k \<notin> keys hs"
  shows "\<exists>h'. ptr_copy h (bm_ptr m) (hv_ptr (sv_vec s)) (bm_len m) = Inr h' \<and>
    became h hs vs (HM (m\<lparr>bm_ptr := hv_ptr (sv_vec s), bm_cap := hv_cap (sv_vec s)\<rparr>)) (contents h (HM m)) h'"
proof -
  have ok: "handle_ok h (HM m)" using bytes_invD(3) [OF inv] by simp
  have res: "res_ok h k" using bytes_invD(4) [OF inv, of k] k(2) by simp
  have le: "bm_len m \<le> bm_cap m" using ok by (simp add: handle_ok_def)
  show ?thesis using ok k(2,3) res
  proof (cases rule: arc_vec)
    case none
    then have eq: "m\<lparr>bm_ptr := hv_ptr (sv_vec s), bm_cap := hv_cap (sv_vec s)\<rparr> = m" by (cases m) simp
    have "ptr_copy h (bm_ptr m) (hv_ptr (sv_vec s)) (bm_len m) = Inr h"
      using none le by (simp add: ptr_copy_def heap_read_def heap_write_def dangling_def addr_of_def)
    with inv show ?thesis unfolding eq by (simp add: became_def)
  next
    case (buffer u cs)
    let ?bs = "contents h (HM m)" and ?w = "m\<lparr>bm_ptr := Ptr u 0, bm_len := 0, bm_cap := length cs\<rparr>"
    let ?m = "m\<lparr>bm_ptr := Ptr u 0, bm_cap := length cs\<rparr>"
    have len: "length ?bs = bm_len m" using length_contents [OF ok] by simp
    have cap: "hv_cap (sv_vec s) \<noteq> 0" using buffer by simp
    have fit: "0 + length ?bs \<le> length cs" using buffer(7) le len by simp
    let ?h = "h(u \<mapsto> Buffer (patched cs 0 ?bs))"
    have "heap_read h (Ptr u 0) 0 = Inr []" using buffer(9) by (simp add: heap_read_def addr_of_def)
    from arc_view [of ?w k h s u cs 0 "[]"] this arc k buffer cap
    have w: "handle_ok h (HM ?w)" "key (HM ?w) = Some k" by (simp_all add: kind_def)
    note inv' = inv_alone [OF inv k(2,4) w(2,1)]
    have "heap_read ?h (Ptr u 0) (bm_len m) = Inr ?bs" using heap_read_patched [OF fit buffer(9)] len by simp
    from arc_view [of ?m k ?h s u "patched cs 0 ?bs" 0 ?bs] this arc k buffer cap fit le len
    have m': "handle_ok ?h (HM ?m)" "key (HM ?m) = Some k" "contents ?h (HM ?m) = ?bs" by simp_all
    have buf: "is_mut (HM ?w)" "buf_of (HM ?w) = Some u" "region (HM ?w) = {0 ..< length cs}" "region (HM ?m) = {0 ..< length cs}"
      using buffer(9) by (simp_all add: buf_of_def region_def)
    have "bytes_inv ?h (add_mset (HM ?m) hs) vs" "undisturbed h hs vs ?h"
      by (rule inv_write [where x' = "HM ?m", OF inv' buf(1) w(2) buf(2) buffer(2) _ refl]; use fit buf m' w in \<open>auto\<close>)+
    moreover have "ptr_copy h (bm_ptr m) (Ptr u 0) (bm_len m) = Inr ?h"
      using read_contents(2) [OF ok] heap_write_ok [of h u cs 0 ?bs] buffer(2) fit by (simp add: ptr_copy_def)
    ultimately show ?thesis using m'(3) buffer(1,3) by (auto simp: became_def)
  qed
qed

text \<open>The vector grows.\<close>

lemma release_shared_buffer:
  assumes inv: "bytes_inv h (add_mset x hs) vs" and k: "key x = Some k" "k \<notin> keys hs"
    and s: "h k = Some (Shared_V s)"
  shows "bytes_inv (h(k := None)) hs (set_option (buf_of x) \<union> vs)" "undisturbed h hs vs (h(k := None))"
    "set_option (buf_of x) \<inter> vs = {}"
proof -
  have "bytes_inv (h(k := None)) hs (set_option (buf_of x) \<union> vs) \<and> undisturbed h hs vs (h(k := None)) \<and>
      set_option (buf_of x) \<inter> vs = {}"
  proof (cases "buf_of x")
    case None
    have "dropped h hs vs (h(k := None))" by (rule dropped_release [OF inv k]) (use None in auto)
    with None show ?thesis by (simp add: dropped_def)
  next
    case (Some u)
    have x: "x \<in># add_mset x hs" by simp
    obtain cs where cs: "h u = Some (Buffer cs)" using key_resource(5) [OF inv x k(1) Some] by blast
    then have "u \<noteq> k" using s by auto
    then have h': "(h(k := None)) a = (if a = u then Some (Buffer cs) else if a = k then None else h a)" for a using cs by auto
    from release_to_vec [where h' = "h(k := None)", OF inv k Some boundedD(3) [OF bytes_invD(8) [OF inv] cs] h'] Some
    show ?thesis by simp
  qed
  then show "bytes_inv (h(k := None)) hs (set_option (buf_of x) \<union> vs)" "undisturbed h hs vs (h(k := None))"
    "set_option (buf_of x) \<inter> vs = {}" by auto
qed

lemma heap_read_prefix:
  assumes "heap_read h (Ptr u p) n = Inr bs" "h u = Some (Buffer cs)" "h' a = Some (Buffer cs')" "a \<noteq> 0"
    "take (p + n) cs' = take (p + n) cs" "p + n \<le> length cs'"
  shows "heap_read h' (Ptr a p) n = Inr bs"
proof (cases "n = 0")
  case True
  with assms(1,4) show ?thesis by (auto simp: heap_read_def addr_of_def split: if_splits)
next
  case False
  have "take n (drop p cs') = take n (drop p cs)" using assms(5) by (metis add.commute take_drop)
  with False assms show ?thesis by (auto simp: heap_read_def cells_of_def Let_def split: if_splits)
qed

text \<open>The \<open>Shared\<close> at \<open>k\<close> with a new buffer at \<open>a\<close> for its vector, the old one freed\<close>

lemma moderate_shared:
  assumes "handle_ok h (HM m)" "key (HM m) = Some k" "h k = Some (Shared_V s)" "res_ok h k" "moderate h m additional"
  shows "hv_cap (sv_vec s) \<le> 2 ^ 60"
  using assms(1-4) by (cases rule: arc_vec) (use assms(5) in \<open>auto simp: moderate_def\<close>)

text \<open>The old buffer is freed and the new one holds the bytes of the handle.\<close>

lemma regrow_free:
  assumes inv: "bytes_inv h (add_mset (HM m) hs) vs" and k: "key (HM m) = Some k" "h k = Some (Shared_V s)" "k \<notin> keys hs"
    and n: "bm_ptr m = Ptr (blk (hv_ptr (sv_vec s))) (off (hv_ptr (sv_vec s)) + n)"
    and a: "h a = None" "0 < a" "length cs \<le> isize_max" "n + bm_len m \<le> length cs"
      "take (n + bm_len m) cs = take (n + bm_len m) (vec_cells h (sv_vec s))"
    and h': "h' = (freed (sv_vec s) (h(a \<mapsto> Buffer cs)))(k \<mapsto> y)"
  defines "h1 \<equiv> h(k := None, a \<mapsto> Buffer cs)"
  defines "h2 \<equiv> freed (sv_vec s) h1"
  shows "bytes_inv h2 hs (insert a vs)" "undisturbed h1 hs vs h2" "h2 a = Some (Buffer cs)" "h2 k = None"
    "h' = h2(k \<mapsto> y)" "heap_read h2 (Ptr a n) (bm_len m) = Inr (contents h (HM m))" "undisturbed h hs vs h1" "a \<notin> vs"
proof -
  have ok: "handle_ok h (HM m)" using bytes_invD(3) [OF inv] by simp
  have res: "res_ok h k" using bytes_invD(4) [OF inv, of k] k(1) by simp
  have ak: "a \<noteq> k" using a(1) k(2) by auto
  let ?U = "set_option (buf_of (HM m))" and ?h0 = "h(k := None)"
  note rel = release_shared_buffer [OF inv k(1,3,2)]
  have a0: "?h0 a = None" using a(1) by simp
  have avs: "a \<notin> ?U \<union> vs" using not_vec(3) [OF rel(1) a0] .
  have "bytes_inv h1 hs (insert a (?U \<union> vs))" "undisturbed ?h0 hs (?U \<union> vs - {a}) h1"
    unfolding h1_def by (rule inv_vec_change [OF rel(1) _ refl, of a "Some (Buffer cs)"]; use a a0 in simp)+
  then have inv1: "bytes_inv h1 hs (insert a (?U \<union> vs))" and un1: "undisturbed ?h0 hs vs h1"
    using avs undisturbed_fewer [of ?h0 hs "?U \<union> vs" h1 vs] by simp_all
  show "undisturbed h hs vs h1" "a \<notin> vs" using rel(2) un1 avs by (blast intro: undisturbed_trans)+
  have "bytes_inv h2 hs (insert a vs) \<and> undisturbed h1 hs vs h2 \<and> h2 a = Some (Buffer cs) \<and> h2 k = None \<and>
      h' = h2(k \<mapsto> y) \<and> heap_read h2 (Ptr a n) (bm_len m) = Inr (contents h (HM m))"
    using ok k(1,2) res
  proof (cases rule: arc_vec)
    case none
    then have "n = 0" "bm_len m = 0" "contents h (HM m) = []"
      using n ok length_contents [OF ok] by (auto simp: handle_ok_def dangling_def)
    with none inv1 ak a(2) h' show ?thesis by (auto simp: h1_def h2_def freed_def heap_read_def addr_of_def)
  next
    case (buffer u cs0)
    then have h2: "h2 = h1(u := None)" and ua: "u \<noteq> a" using a(1) by (auto simp: h2_def freed_def)
    have "bytes_inv h2 hs (insert a (?U \<union> vs) - {u})" "undisturbed h1 hs (insert a (?U \<union> vs) - {u}) h2"
      unfolding h2 by (rule inv_vec_change [OF inv1 _ refl, of u None]; use buffer(5) in simp)+
    moreover have "insert a (?U \<union> vs) - {u} = insert a vs" using buffer(5) ua rel(3) by auto
    ultimately have "bytes_inv h2 hs (insert a vs)" "undisturbed h1 hs (insert a vs) h2" by simp_all
    moreover from this(2) have "undisturbed h1 hs vs h2" by (rule undisturbed_fewer) auto
    moreover have "h' = h2(k \<mapsto> y)" using h' h2 buffer ak ua by (auto simp: h1_def freed_def fun_upd_twist)
    moreover have "heap_read h2 (Ptr a n) (bm_len m) = Inr (contents h (HM m))"
    proof (rule heap_read_prefix [where h = h and u = u and cs = cs0])
      show "heap_read h (Ptr u n) (bm_len m) = Inr (contents h (HM m))" using read_contents(2) [OF ok] n buffer(1) by simp
      show "take (n + bm_len m) cs = take (n + bm_len m) cs0"
        using a(5) buffer by (simp add: vec_cells_def cells_of_def)
    qed (use a buffer h2 ua in \<open>auto simp: h1_def\<close>)
    ultimately show ?thesis using h2 ua ak buffer(8) by (simp add: h1_def)
  qed
  then show "bytes_inv h2 hs (insert a vs)" "undisturbed h1 hs vs h2" "h2 a = Some (Buffer cs)" "h2 k = None"
    "h' = h2(k \<mapsto> y)" "heap_read h2 (Ptr a n) (bm_len m) = Inr (contents h (HM m))" by blast+
qed

lemma regrow:
  assumes inv: "bytes_inv h (add_mset (HM m) hs) vs" and arc: "kind m = KIND_ARC"
    and k: "bm_data m = Ptr k 0" "key (HM m) = Some k" "h k = Some (Shared_V s)" "k \<notin> keys hs" "sv_ref_count s = 1"
    and n: "bm_ptr m = Ptr (blk (hv_ptr (sv_vec s))) (off (hv_ptr (sv_vec s)) + n)"
    and a: "h a = None" "0 < a" "length cs \<le> isize_max" "0 < length cs" "n + bm_len m \<le> length cs"
      "take (n + bm_len m) cs = take (n + bm_len m) (vec_cells h (sv_vec s))"
    and v': "hv_ptr v' = Ptr a 0" "hv_cap v' = length cs"
    and h': "h' = (freed (sv_vec s) (h(a \<mapsto> Buffer cs)))(k \<mapsto> Shared_V (s\<lparr>sv_vec := v'\<rparr>))"
  shows "became h hs vs (HM (m\<lparr>bm_ptr := Ptr a n, bm_cap := length cs - n\<rparr>)) (contents h (HM m)) h'"
proof -
  let ?m = "m\<lparr>bm_ptr := Ptr a n, bm_cap := length cs - n\<rparr>" and ?y = "Shared_V (s\<lparr>sv_vec := v'\<rparr>)"
  have res: "res_ok h k" using bytes_invD(4) [OF inv, of k] k(2) by simp
  have k0: "0 < k" using key_resource(4) [OF inv _ k(2)] by simp
  have ak: "a \<noteq> k" using a(1) k(3) by auto
  let ?h2 = "freed (sv_vec s) (h(k := None, a \<mapsto> Buffer cs))"
  note free = regrow_free [OF inv k(2,3,4) n a(1,2,3,5,6) h']
  have h'k: "h' k = Some ?y" "h' a = Some (Buffer cs)" using free(3,5) ak by auto
  have "heap_read h' (Ptr a n) (bm_len m) = Inr (contents h (HM m))" using free(5,6) ak by simp
  from arc_view [of ?m k h' "s\<lparr>sv_vec := v'\<rparr>" a cs n "contents h (HM m)"] this arc k(1) h'k v' a(2,4,5)
  have mk: "handle_ok h' (HM ?m)" "key (HM ?m) = Some k" "contents h' (HM ?m) = contents h (HM m)"
    by (simp_all add: kind_def)
  have rs: "res_buf h' k = Some a" "res_ok h' k" "res_count h' k = size {#HM ?m#}"
    using h'k v' a(4) k(5) res k(3) by (auto simp: res_buf_def res_ok_def res_count_def)
  have new: "bytes_inv h' ({#HM ?m#} + hs) (insert a vs - set_option (Some a))" "undisturbed ?h2 hs (insert a vs) h'"
    by (rule acquire_block [of ?h2 hs "insert a vs" "Some a" k h' ?y "{#HM ?m#}"]; use free k0 mk rs in simp)+
  have "insert a vs - set_option (Some a) = vs" using free(8) by auto
  moreover have "undisturbed ?h2 hs vs h'" using new(2) by (rule undisturbed_fewer) auto
  then have "undisturbed h hs vs h'" using free(2,7) by (blast intro: undisturbed_trans)
  ultimately show ?thesis using new(1) mk(3) by (simp add: became_def)
qed

context allocator_laws
begin

lemma shared_cap_bounded:
  assumes inv: "bytes_inv h (add_mset (HM m) hs) vs" and k: "key (HM m) = Some k" "h k = Some (Shared_V s)"
  shows "hv_cap (sv_vec s) \<le> isize_max"
proof -
  have ok: "handle_ok h (HM m)" and res: "res_ok h k" using bytes_invD(3,4) [OF inv] k(1) by simp_all
  show ?thesis using ok k res
  proof (cases rule: arc_vec)
    case (buffer u cs)
    with boundedD(3) [OF bytes_invD(8) [OF inv] buffer(2)] show ?thesis by simp
  qed simp
qed

lemma reserve_unique_grow:
  assumes inv: "bytes_inv h (add_mset (HM m) hs) vs" and arc: "kind m = KIND_ARC"
    and k: "bm_data m = Ptr k 0" "key (HM m) = Some k" "h k = Some (Shared_V s)" "k \<notin> keys hs" "sv_ref_count s = 1"
    and n: "offset_from (bm_ptr m) (hv_ptr (sv_vec s)) = Inr n"
    and c: "bm_len m + additional + n \<le> usize_max" "\<not> bm_len m + additional + n \<le> hv_cap (sv_vec s)"
      "\<not> (bm_len m + additional \<le> hv_cap (sv_vec s) \<and> bm_len m \<le> n)"
  shows "reserved h hs vs m additional True (reserve_unique alloc h m s (bm_len m + additional) True)"
proof -
  have ok: "handle_ok h (HM m)" using bytes_invD(3) [OF inv] by simp
  have res: "res_ok h k" using bytes_invD(4) [OF inv, of k] k(2) by simp
  have le: "bm_len m \<le> bm_cap m" using ok by (simp add: handle_ok_def)
  note ofs = offset_in_vec [OF ok k(2,3) res]
  have nn: "off (bm_ptr m) - off (hv_ptr (sv_vec s)) = n" using ofs(1) n by simp
  let ?v = "(sv_vec s)\<lparr>hv_len := n + bm_len m\<rparr>"
  have fit: "n + bm_len m \<le> hv_cap (sv_vec s)" using ofs(2) nn le by simp
  have double: "usize_shl (hv_cap (sv_vec s)) 1 = 2 * hv_cap (sv_vec s)"
    using usize_shl_small [of "hv_cap (sv_vec s)" 1] shared_cap_bounded [OF inv k(2,3)] by (simp add: isize_max_def)
  let ?new = "max (2 * hv_cap (sv_vec s)) (bm_len m + additional + n)"
  have raw: "vec_raw h ?v" using res k(3) fit by (auto simp: vec_raw_def res_ok_def)
  have new: "hv_cap (sv_vec s) < ?new" using c(2) by simp
  have run: "reserve_unique alloc h m s (bm_len m + additional) True =
      res_bind (vec_reserve alloc h ?v (?new - (n + bm_len m))) (\<lambda>(v, h).
      let h = h(blk (bm_data m) \<mapsto> Shared_V (s\<lparr>sv_vec := v\<rparr>)) in
      res_bind (ptr_add h (hv_ptr v) n) (\<lambda>p.
      res_bind (vptr p) (\<lambda>p.
      res_bind (usize_sub (hv_cap v) n) (\<lambda>cap.
      Inr (True, m\<lparr>bm_ptr := p, bm_cap := cap\<rparr>, h)))))"
    using n c double fit new
    by (auto simp: reserve_unique_def add_or_give_up_def checked_add_def rust_assert_def usize_sub_def Let_def)
  show ?thesis using bytes_invD(1) [OF inv] raw
  proof (cases rule: vec_reserve_cases [where additional = "?new - (n + bm_len m)"])
    case fits
    with new fit show ?thesis by simp
  next
    case overflow
    have "\<not> moderate h m additional"
    proof
      assume mod: "moderate h m additional"
      from moderate_shared [OF ok k(2,3) res this] overflow(2) mod fit new show False by (auto simp: moderate_def)
    qed
    with run overflow(1) show ?thesis by (simp add: reserved_def too_large_def capacity_overflow_def)
  next
    case (grown a cs)
    let ?v' = "\<lparr>hv_ptr = Ptr a 0, hv_len = n + bm_len m, hv_cap = length cs\<rparr>"
    let ?h = "(freed (sv_vec s) (h(a \<mapsto> Buffer cs)))(k \<mapsto> Shared_V (s\<lparr>sv_vec := ?v'\<rparr>))"
    have fr: "freed ?v h0 = freed (sv_vec s) h0" for h0 by (simp add: freed_def)
    have cells: "vec_cells h ?v = vec_cells h (sv_vec s)" by (simp add: vec_cells_def)
    have long: "n + bm_len m \<le> length cs" "?new \<le> length cs" using grown(4) new fit by simp_all
    have "became h hs vs (HM (m\<lparr>bm_ptr := Ptr a n, bm_cap := length cs - n\<rparr>)) (contents h (HM m)) ?h"
      by (rule regrow [OF inv arc k _ grown(1,2,3,5) long(1), where v' = ?v'])
        (use ofs(3) nn grown(6) cells in auto)
    moreover have "reserve_unique alloc h m s (bm_len m + additional) True =
        Inr (True, m\<lparr>bm_ptr := Ptr a n, bm_cap := length cs - n\<rparr>, ?h)"
    proof -
      have "?h a = Some (Buffer cs)"
        using grown(1) k(3) res by (auto simp: freed_def res_ok_def split: if_splits)
      then show ?thesis using run grown(2,7) long k(1) fr
        by (auto simp: ptr_add_def cells_of_def vptr_def expect_def addr_of_def usize_sub_def Let_def)
    qed
    moreover have "bm_len m + additional \<le> length cs - n" using long(2) by linarith
    ultimately show ?thesis
      by (intro reservedI [where m' = "m\<lparr>bm_ptr := Ptr a n, bm_cap := length cs - n\<rparr>" and h' = ?h]) simp_all
  qed
qed

lemma reserve_unique_front:
  assumes inv: "bytes_inv h (add_mset (HM m) hs) vs" and arc: "kind m = KIND_ARC"
    and k: "bm_data m = Ptr k 0" "key (HM m) = Some k" "h k = Some (Shared_V s)" "k \<notin> keys hs" "sv_ref_count s = 1"
    and n: "offset_from (bm_ptr m) (hv_ptr (sv_vec s)) = Inr n" "bm_ptr m = Ptr (blk (hv_ptr (sv_vec s))) (off (hv_ptr (sv_vec s)) + n)"
    and c: "bm_len m + additional + n \<le> usize_max" "\<not> bm_len m + additional + n \<le> hv_cap (sv_vec s)"
      "bm_len m + additional \<le> hv_cap (sv_vec s)" "bm_len m \<le> n"
  shows "reserved h hs vs m additional allocate (reserve_unique alloc h m s (bm_len m + additional) allocate)"
proof -
  let ?m = "m\<lparr>bm_ptr := hv_ptr (sv_vec s), bm_cap := hv_cap (sv_vec s)\<rparr>"
  have ok: "handle_ok h (HM m)" using bytes_invD(3) [OF inv] by simp
  have res: "res_ok h k" using bytes_invD(4) [OF inv, of k] k(2) by simp
  from reclaim_front [OF inv arc k(1,2,3,4)] obtain h' where
    h': "ptr_copy h (bm_ptr m) (hv_ptr (sv_vec s)) (bm_len m) = Inr h'" "became h hs vs (HM ?m) (contents h (HM m)) h'" by blast
  have "copy_nonoverlapping h (bm_ptr m) (hv_ptr (sv_vec s)) (bm_len m) = Inr h'"
    using h'(1) n(2) c(4) by (simp add: copy_nonoverlapping_def)
  moreover have "vptr (hv_ptr (sv_vec s)) = Inr (hv_ptr (sv_vec s))"
    using ok k(2,3) res by (cases rule: arc_vec) (simp_all add: vptr_def expect_def dangling_def addr_of_def)
  ultimately have "reserve_unique alloc h m s (bm_len m + additional) allocate = Inr (True, ?m, h')"
    using c n(1) by (simp add: reserve_unique_def add_or_give_up_def checked_add_def Let_def)
  with h'(2) c(3) show ?thesis by (intro reservedI [where m' = ?m and h' = h']) simp_all
qed

lemma reserve_unique_ok:
  assumes inv: "bytes_inv h (add_mset (HM m) hs) vs" and arc: "kind m = KIND_ARC"
    and k: "bm_data m = Ptr k 0" "key (HM m) = Some k" "h k = Some (Shared_V s)" "k \<notin> keys hs" "sv_ref_count s = 1"
  shows "reserved h hs vs m additional allocate (reserve_unique alloc h m s (bm_len m + additional) allocate)"
proof -
  have ok: "handle_ok h (HM m)" using bytes_invD(3) [OF inv] by simp
  have res: "res_ok h k" using bytes_invD(4) [OF inv, of k] k(2) by simp
  have le: "bm_len m \<le> bm_cap m" using ok by (simp add: handle_ok_def)
  obtain n where n: "offset_from (bm_ptr m) (hv_ptr (sv_vec s)) = Inr n" "n + bm_cap m \<le> hv_cap (sv_vec s)"
    "bm_ptr m = Ptr (blk (hv_ptr (sv_vec s))) (off (hv_ptr (sv_vec s)) + n)"
    using offset_in_vec [OF ok k(2,3) res] by blast
  let ?c = "bm_len m + additional"
  consider (over) "\<not> ?c + n \<le> usize_max" | (stay) "?c + n \<le> usize_max" "?c + n \<le> hv_cap (sv_vec s)"
    | (front) "?c + n \<le> usize_max" "\<not> ?c + n \<le> hv_cap (sv_vec s)" "?c \<le> hv_cap (sv_vec s)" "bm_len m \<le> n"
    | (grow) "?c + n \<le> usize_max" "\<not> ?c + n \<le> hv_cap (sv_vec s)" "\<not> (?c \<le> hv_cap (sv_vec s) \<and> bm_len m \<le> n)"
    by blast
  then show ?thesis
  proof cases
    case over
    have "\<not> moderate h m additional"
    proof
      assume mod: "moderate h m additional"
      from moderate_shared [OF ok k(2,3) res this] over n(2) mod show False by (simp add: moderate_def usize_max_def)
    qed
    with over n(1) show ?thesis
      by (auto simp: reserve_unique_def add_or_give_up_def checked_add_def reserved_def too_large_def)
  next
    case stay
    have "n + ?c \<le> hv_cap (sv_vec s)" "bm_len m \<le> ?c" using stay(2) by simp_all
    note b = reclaim_in_place [OF inv arc k(1,2,3,4) n(1) this]
    have "reserve_unique alloc h m s ?c allocate = Inr (True, m\<lparr>bm_cap := ?c\<rparr>, h)"
      using stay n(1) by (simp add: reserve_unique_def add_or_give_up_def checked_add_def)
    with b show ?thesis by (intro reservedI [where m' = "m\<lparr>bm_cap := ?c\<rparr>" and h' = h]) simp_all
  next
    case front
    with reserve_unique_front [OF inv arc k n(1,3)] show ?thesis by simp
  next
    case grow
    show ?thesis
    proof (cases allocate)
      case True
      with reserve_unique_grow [OF inv arc k n(1) grow] show ?thesis by simp
    next
      case False
      with grow n(1) show ?thesis
        by (auto simp: reserve_unique_def add_or_give_up_def checked_add_def reserved_def)
    qed
  qed
qed

end

section \<open>Copying out\<close>

context allocator_laws
begin

lemma vec_with_capacity_ok:
  assumes inv: "bytes_inv h hs vs" and n: "n \<le> isize_max"
  shows "\<exists>v h'. vec_with_capacity alloc h n = Inr (v, h') \<and> vec_ok h' v [] \<and> hv_cap v = n \<and> hv_len v = 0 \<and>
    bytes_inv h' hs (vec_buf v \<union> vs) \<and> vec_buf v \<inter> vs = {} \<and> undisturbed h hs vs h' \<and> (\<forall>a. h a \<noteq> None \<longrightarrow> h' a = h a)"
proof (cases "n = 0")
  case True
  with inv vec_new_ok show ?thesis by (simp add: vec_with_capacity_def vec_new_def)
next
  case False
  let ?b = "Buffer (replicate n None)"
  obtain a where a: "new_block alloc h n 1 ?b = Inr (a, h(a \<mapsto> ?b))" "h a = None" "0 < a"
    using new_block_ok [OF bytes_invD(1) [OF inv]] by blast
  let ?h = "h(a \<mapsto> ?b)" and ?v = "\<lparr>hv_ptr = Ptr a 0, hv_len = 0, hv_cap = n\<rparr>"
  have avs: "a \<notin> vs" using not_vec(3) [OF inv a(2)] .
  have "bytes_inv ?h hs (insert a vs)" "undisturbed h hs (vs - {a}) ?h"
    by (rule inv_vec_change [OF inv _ refl, of a "Some ?b"]; use a n in simp)+
  moreover have "vec_ok ?h ?v []" using False a(3) by (simp add: vec_ok_def heap_read_def addr_of_def)
  ultimately show ?thesis using a n False avs by (auto simp: vec_with_capacity_def vec_buf_def)
qed

lemma vec_with_capacity_overflow: "\<not> n \<le> isize_max \<Longrightarrow> vec_with_capacity alloc h n = capacity_overflow"
  by (simp add: vec_with_capacity_def)

lemma vec_append_ok:
  assumes inv: "bytes_inv h hs vs" and v: "vec_ok h v bs0" "vec_buf v \<subseteq> vs" and fit: "hv_len v + length bs \<le> hv_cap v"
  shows "\<exists>h'. vec_extend_from_slice alloc h v bs = Inr (v\<lparr>hv_len := hv_len v + length bs\<rparr>, h') \<and>
    vec_ok h' (v\<lparr>hv_len := hv_len v + length bs\<rparr>) (bs0 @ bs) \<and> bytes_inv h' hs vs \<and> undisturbed h hs (vs - vec_buf v) h'"
proof -
  have "length bs \<le> hv_cap v - hv_len v" using fit by linarith
  then have res: "vec_reserve alloc h v (length bs) = Inr (v, h)" by (simp add: vec_reserve_def)
  show ?thesis using v(1)
  proof (cases rule: vec_ok_cases)
    case none
    with fit have "bs = []" by simp
    moreover have "v\<lparr>hv_len := hv_len v + length bs\<rparr> = v" using none \<open>bs = []\<close> by (cases v) simp
    ultimately show ?thesis using none(4) inv v res by (simp add: vec_extend_from_slice_def heap_write_def)
  next
    case (buffer u cs)
    have u: "u \<noteq> 0" "u \<in> vs" "length cs \<le> isize_max"
      using block_nonzero [OF inv buffer(3)] buffer(5) v(2) boundedD(3) [OF bytes_invD(8) [OF inv] buffer(3)] by auto
    have p: "hv_len v + length bs \<le> length cs" using fit buffer(4) by simp
    let ?h = "h(u \<mapsto> Buffer (patched cs (hv_len v) bs))" and ?v = "v\<lparr>hv_len := hv_len v + length bs\<rparr>"
    have "bytes_inv ?h hs (insert u vs)" "undisturbed h hs (vs - {u}) ?h"
      by (rule inv_vec_change [OF inv _ refl, of u "Some (Buffer (patched cs (hv_len v) bs))"]; use u p in simp)+
    then have "bytes_inv ?h hs vs" "undisturbed h hs (vs - vec_buf v) ?h" using u(2) buffer(5) by (simp_all add: insert_absorb)
    moreover have "vec_ok ?h ?v (bs0 @ bs)"
    proof -
      have h0: "?h 0 = None" "h 0 = None" using bytes_invD(2) [OF inv] u(1) by auto
      have raw: "vec_raw ?h ?v" using buffer p by (simp add: vec_raw_def)
      have "take (hv_len v) cs = map Some bs0"
        using vec_ok_cells [OF vec_ok_raw [OF v(1)] h0(2)] v(1) buffer by (simp add: vec_cells_def cells_of_def)
      then show ?thesis unfolding vec_ok_cells [OF raw h0(1)]
        using buffer take_patched [OF p] by (simp add: vec_cells_def cells_of_def)
    qed
    ultimately show ?thesis using res buffer(2) heap_write_ok [of h u cs "hv_len v" bs] buffer(3) p
      by (simp add: vec_extend_from_slice_def)
  qed
qed

lemma reserve_shared_copy:
  assumes inv: "bytes_inv h (add_mset (HM m) hs) vs" and arc: "kind m = KIND_ARC"
    and k: "bm_data m = Ptr k 0" "key (HM m) = Some k" "h k = Some (Shared_V s)"
    and c: "max (bm_len m + additional) (original_capacity_from_repr (sv_original_capacity_repr s)) \<le> isize_max"
  shows "reserved h hs vs m additional True (reserve_shared alloc h m s (bm_len m + additional))"
proof -
  let ?H = "add_mset (HM m) hs" and ?r = "sv_original_capacity_repr s"
  let ?c = "max (bm_len m + additional) (original_capacity_from_repr ?r)"
  have ok: "handle_ok h (HM m)" using bytes_invD(3) [OF inv] by simp
  have "res_ok h k" using bytes_invD(4) [OF inv, of k] k(2) by simp
  then have repr: "?r \<le> 7" using k(3) by (simp add: res_ok_def)
  from vec_with_capacity_ok [OF inv c] obtain v h1 where
    v: "vec_with_capacity alloc h ?c = Inr (v, h1)" "vec_ok h1 v []" "hv_cap v = ?c" "hv_len v = 0"
      "bytes_inv h1 ?H (vec_buf v \<union> vs)" "vec_buf v \<inter> vs = {}" "undisturbed h ?H vs h1" "\<forall>a. h a \<noteq> None \<longrightarrow> h1 a = h a"
    by blast
  let ?bs = "contents h (HM m)"
  have ok1: "handle_ok h1 (HM m)" using bytes_invD(3) [OF v(5)] by simp
  have c1: "contents h1 (HM m) = ?bs" using v(7) by (simp add: undisturbed_def)
  have len: "length ?bs = bm_len m" using length_contents [OF ok] by simp
  have vs: "vec_buf v \<union> vs - vec_buf v = vs" using v(6) by auto
  let ?v = "v\<lparr>hv_len := hv_len v + length ?bs\<rparr>"
  have "hv_len v + length ?bs \<le> hv_cap v" using v(3,4) len by simp
  from vec_append_ok [OF v(5,2) Un_upper1 this] vs obtain h2 where
    h2: "vec_extend_from_slice alloc h1 v ?bs = Inr (?v, h2)" "vec_ok h2 ?v ?bs" "bytes_inv h2 ?H (vec_buf v \<union> vs)"
      "undisturbed h1 ?H vs h2" by auto
  have "handle_ok h2 (HM m)" using bytes_invD(3) [OF h2(3)] by simp
  from arc_handle [OF this arc] k(1) obtain s2 where s2: "h2 k = Some (Shared_V s2)" by auto
  from release_shared_v_ok [OF h2(3) k(2) s2] obtain h3 where
    h3: "release_shared_v h2 (Ptr k 0) = Inr h3" "bytes_inv h3 hs (vec_buf ?v \<union> vs)" "undisturbed h2 hs (vec_buf v \<union> vs) h3"
    by (auto simp: dropped_def)
  have v3: "vec_ok h3 ?v ?bs"
    by (rule vec_ok_kept [OF h2(2)]) (use h3(3) in \<open>auto simp: undisturbed_def\<close>)
  let ?m = "m\<lparr>bm_data := vec_data ?r, bm_ptr := hv_ptr v, bm_cap := hv_cap v\<rparr>"
  have "views ?m ?v 0"
    using vec_data_fields [OF repr, of ?m] v(4) len by (cases "hv_ptr v") (simp add: views_def)
  note view = from_vec_view [OF h3(2) v3 Un_upper1 this]
  have "vec_buf ?v \<union> vs - vec_buf ?v = vs" using vs by simp
  moreover have "undisturbed h hs vs h3"
    using v(7) h2(4) h3(3) by (auto simp: undisturbed_def)
  ultimately have "became h hs vs (HM ?m) ?bs h3" using view by (simp add: became_def)
  moreover have "reserve_shared alloc h m s (bm_len m + additional) = Inr (True, ?m, h3)"
    using v(1,4) read_contents(2) [OF ok1] c1 h2(1) h3(1) k(1) vec_ok_vptr [OF h3(2) v3] len
    by (simp add: reserve_shared_def rust_assert_def Let_def)
  ultimately show ?thesis using v(3) by (intro reservedI [where m' = ?m and h' = h3]) simp_all
qed

lemma reserve_shared_ok:
  assumes inv: "bytes_inv h (add_mset (HM m) hs) vs" and arc: "kind m = KIND_ARC"
    and k: "bm_data m = Ptr k 0" "key (HM m) = Some k" "h k = Some (Shared_V s)"
  shows "reserved h hs vs m additional True (reserve_shared alloc h m s (bm_len m + additional))"
proof -
  let ?r = "sv_original_capacity_repr s"
  have res: "res_ok h k" using bytes_invD(4) [OF inv, of k] k(2) by simp
  then have repr: "?r \<le> 7" using k(3) by (simp add: res_ok_def)
  let ?c = "max (bm_len m + additional) (original_capacity_from_repr ?r)"
  show ?thesis
  proof (cases "?c \<le> isize_max")
    case False
    have "\<not> moderate h m additional"
      using False original_capacity_small [OF repr] by (auto simp: moderate_def isize_max_def)
    moreover have "reserve_shared alloc h m s (bm_len m + additional) = capacity_overflow"
      using vec_with_capacity_overflow [OF False] by (simp add: reserve_shared_def capacity_overflow_def Let_def)
    ultimately show ?thesis by (simp add: reserved_def too_large_def)
  next
    case True
    with reserve_shared_copy [OF inv arc k] show ?thesis by simp
  qed
qed

section \<open>The methods\<close>

lemma reserve_inner_ok:
  assumes inv: "bytes_inv h (add_mset (HM m) hs) vs"
  shows "reserved h hs vs m additional allocate (reserve_inner alloc h m additional allocate)"
proof (cases "kind m = KIND_VEC")
  case True
  with reserve_vec_ok [OF inv True] show ?thesis by (simp add: reserve_inner_def)
next
  case False
  with kind_cases have arc: "kind m = KIND_ARC" by blast
  have ok: "handle_ok h (HM m)" using bytes_invD(3) [OF inv] by simp
  from arc_handle [OF ok arc] obtain k s where
    k: "bm_data m = Ptr k 0" "key (HM m) = Some k" "h k = Some (Shared_V s)" by blast
  show ?thesis
  proof (cases "bm_len m + additional \<le> usize_max")
    case over: False
    then have "\<not> moderate h m additional" by (auto simp: moderate_def usize_max_def)
    with over arc show ?thesis
      by (auto simp: reserve_inner_def add_or_give_up_def checked_add_def rust_assert_def reserved_def too_large_def)
  next
    case fits: True
    have run: "reserve_inner alloc h m additional allocate =
        (if shared_v_unique s then reserve_unique alloc h m s (bm_len m + additional) allocate
         else if \<not> allocate then Inr (False, m, h)
         else reserve_shared alloc h m s (bm_len m + additional))"
      using arc fits k by (simp add: reserve_inner_def add_or_give_up_def checked_add_def rust_assert_def get_shared_v_def)
    show ?thesis
    proof (cases "sv_ref_count s = 1")
      case True
      have "k \<notin> keys hs" using alone [OF inv k(2)] k(3) True by (simp add: res_count_def)
      from reserve_unique_ok [OF inv arc k this True] run True show ?thesis
        by (simp add: shared_v_unique_def atomic_defs)
    next
      case False
      with run reserve_shared_ok [OF inv arc k, of additional] show ?thesis
        by (cases allocate) (simp_all add: shared_v_unique_def atomic_defs reserved_def)
    qed
  qed
qed

text \<open>\<open>reserve\<close>: either the capacity is there afterwards, or the request was too large.\<close>

lemma reserve_ok:
  assumes inv: "bytes_inv h (add_mset (HM m) hs) vs"
  obtains (ok) m' h' where "reserve alloc h m additional = Inr (m', h')" "became h hs vs (HM m') (contents h (HM m)) h'"
      "bm_len m' = bm_len m" "bm_len m + additional \<le> bm_cap m'"
    | (too_large) "too_large (reserve alloc h m additional)" "\<not> moderate h m additional"
proof -
  have le: "bm_len m \<le> bm_cap m" using bytes_invD(3) [OF inv, of "HM m"] by (simp add: handle_ok_def)
  show thesis
  proof (cases "additional \<le> bm_cap m - bm_len m")
    case True
    with le inv show thesis by (intro ok [of m h]) (auto simp: reserve_def usize_sub_def became_def)
  next
    case False
    then have run: "reserve alloc h m additional = res_bind (reserve_inner alloc h m additional True) (\<lambda>(_, self, h). Inr (self, h))"
      using le by (simp add: reserve_def usize_sub_def)
    from reserve_inner_ok [OF inv, of additional True] show thesis unfolding reserved_def
      by (elim disjE exE conjE) (use run ok too_large in \<open>auto simp: too_large_def capacity_overflow_def\<close>)
  qed
qed

lemma try_reclaim_ok:
  assumes inv: "bytes_inv h (add_mset (HM m) hs) vs"
  obtains (yes) m' h' where "try_reclaim alloc h m additional = Inr (True, m', h')"
      "became h hs vs (HM m') (contents h (HM m)) h'" "bm_len m' = bm_len m" "bm_len m + additional \<le> bm_cap m'"
    | (no) "try_reclaim alloc h m additional = Inr (False, m, h)"
proof -
  have le: "bm_len m \<le> bm_cap m" using bytes_invD(3) [OF inv, of "HM m"] by (simp add: handle_ok_def)
  show thesis
  proof (cases "additional \<le> bm_cap m - bm_len m")
    case True
    with le inv show thesis by (intro yes [of m h]) (auto simp: try_reclaim_def usize_sub_def became_def)
  next
    case False
    then have run: "try_reclaim alloc h m additional = reserve_inner alloc h m additional False"
      using le by (simp add: try_reclaim_def usize_sub_def)
    from reserve_inner_ok [OF inv, of additional False] show thesis unfolding reserved_def
      by (elim disjE exE conjE) (use run yes no in auto)
  qed
qed

end

end
