(* ===== verification/Bytes_Mut_Write.thy ===== *)
theory Bytes_Mut_Write
  imports Bytes_Mut_Reserve
begin

unbundle bit_operations_syntax

text \<open>
  What \<open>BytesMut\<close> writes: into its spare capacity, over its own bytes, and from one handle
  to the next when a split is undone. No other handle sees a difference.
\<close>

section \<open>Writing into a part of the own buffer\<close>

lemma mut_buffer:
  assumes inv: "bytes_inv h (add_mset (HM m) hs) vs" and cap: "0 < bm_cap m"
  obtains k u cs where "key (HM m) = Some k" "buf_of (HM m) = Some u" "bm_ptr m = Ptr u (off (bm_ptr m))" "u \<noteq> 0"
    "h u = Some (Buffer cs)" "off (bm_ptr m) + bm_cap m \<le> length cs"
    "k = u \<and> kind m = KIND_VEC \<and> None \<notin> set (take (off (bm_ptr m) + bm_len m) cs) \<or> (k \<noteq> u \<and> (\<exists>s. h k = Some (Shared_V s)))"
proof -
  have x: "HM m \<in># add_mset (HM m) hs" by simp
  have ok: "handle_ok h (HM m)" using bytes_invD(3) [OF inv x] .
  show thesis
  proof (cases "kind m = KIND_VEC")
    case True
    with cap ok obtain cs where k: "key (HM m) = Some (blk (bm_ptr m))" "h (blk (bm_ptr m)) = Some (Buffer cs)"
      by (auto simp: handle_ok_def)
    note so = sole_owner [OF inv k]
    from k so True show thesis by (intro that [of "blk (bm_ptr m)" "blk (bm_ptr m)" cs]) (simp_all add: buf_of_def)
  next
    case False
    with kind_cases have arc: "kind m = KIND_ARC" by blast
    from arc_handle [OF ok arc] obtain k s where k: "key (HM m) = Some k" "h k = Some (Shared_V s)" by blast
    have res: "res_ok h k" using bytes_invD(4) [OF inv, of k] k(1) by simp
    show thesis using ok k res
    proof (cases rule: arc_vec)
      case none
      with cap show thesis by simp
    next
      case (buffer u cs)
      with k show thesis by (cases "bm_ptr m") (intro that [of k u cs]; auto)
    qed
  qed
qed

lemma heap_read_append:
  assumes "heap_read h (Ptr u p) n = Inr bs0" "h u = Some (Buffer cs)" "p + n + length bs \<le> length cs" "u \<noteq> 0"
  shows "heap_read (h(u \<mapsto> Buffer (patched cs (p + n) bs))) (Ptr u p) (n + length bs) = Inr (bs0 @ bs)"
proof -
  have n: "length bs0 = n" using heap_read_length [OF assms(1)] .
  have t: "take n (drop p cs) = map Some bs0"
  proof (cases "n = 0")
    case False
    with assms(1,2) have "None \<notin> set (take n (drop p cs))" "bs0 = map the (take n (drop p cs))"
      by (auto simp: heap_read_def cells_of_def Let_def split: if_splits)
    then show ?thesis by (auto intro!: nth_equalityI simp: in_set_conv_nth)
  qed (use n in simp)
  have "drop p (patched cs (p + n) bs) = take n (drop p cs) @ map Some bs @ drop (p + n + length bs) cs"
    using assms(3) by (simp add: patched_def drop_take)
  then have "take (n + length bs) (drop p (patched cs (p + n) bs)) = map Some (bs0 @ bs)" using t n by simp
  with assms(3,4) show ?thesis by (auto simp: heap_read_def cells_of_def addr_of_def Let_def comp_def)
qed

text \<open>Appending to the bytes of a handle, within its capacity\<close>

lemma write_spare:
  assumes inv: "bytes_inv h (add_mset (HM m) hs) vs" and fit: "bm_len m + length bs \<le> bm_cap m"
  shows "\<exists>h'. heap_write h (Ptr (blk (bm_ptr m)) (off (bm_ptr m) + bm_len m)) bs = Inr h' \<and>
    became h hs vs (HM (m\<lparr>bm_len := bm_len m + length bs\<rparr>)) (contents h (HM m) @ bs) h'"
proof (cases "bs = []")
  case True
  moreover have "m\<lparr>bm_len := bm_len m\<rparr> = m" by (cases m) simp
  ultimately show ?thesis using inv by (simp add: heap_write_def became_def)
next
  case False
  with fit have "0 < bm_cap m" by (cases bs) auto
  from mut_buffer [OF inv this] obtain k u cs where
    k: "key (HM m) = Some k" "buf_of (HM m) = Some u" "bm_ptr m = Ptr u (off (bm_ptr m))" "u \<noteq> 0"
      "h u = Some (Buffer cs)" "off (bm_ptr m) + bm_cap m \<le> length cs"
      "k = u \<and> kind m = KIND_VEC \<and> None \<notin> set (take (off (bm_ptr m) + bm_len m) cs) \<or> (k \<noteq> u \<and> (\<exists>s. h k = Some (Shared_V s)))"
    by blast
  let ?p = "off (bm_ptr m)" and ?m = "m\<lparr>bm_len := bm_len m + length bs\<rparr>"
  let ?cs = "patched cs (?p + bm_len m) bs"
  let ?h = "h(u \<mapsto> Buffer ?cs)"
  have ok: "handle_ok h (HM m)" using bytes_invD(3) [OF inv] by simp
  have p: "?p + bm_len m + length bs \<le> length cs" using fit k(6) by simp
  have read: "heap_read ?h (bm_ptr m) (bm_len m + length bs) = Inr (contents h (HM m) @ bs)"
    using heap_read_append [of h u ?p "bm_len m" "contents h (HM m)" cs bs] read_contents(2) [OF ok] k(3,4,5) p by simp
  have key: "key (HM ?m) = key (HM m)" by simp
  have "handle_ok ?h (HM ?m)"
  proof -
    have "kind_ok ?h (HM ?m)" using ok k by (auto simp: handle_ok_def split: if_splits)
    have old: "res_buf h k = buf_of (HM m)" "lies h (HM m) k" using ok k(1) unfolding handle_ok_def by blast+
    have "res_buf ?h k = res_buf h k" using k(5) by (simp add: res_buf_def)
    moreover have "buf_of (HM ?m) = buf_of (HM m)" by (simp add: buf_of_def)
    ultimately have "res_buf ?h k = buf_of (HM ?m)" "kind_ok ?h (HM ?m)" using old(1) \<open>kind_ok ?h (HM ?m)\<close> by simp_all
    moreover have "lies ?h (HM ?m) k"
    proof -
      have "set (take (?p + bm_len m + length bs) ?cs) = set (take (?p + bm_len m) cs) \<union> Some ` set bs"
        using take_patched [OF p] by simp
      with old(2) show ?thesis using k p by (auto simp: lies_def Let_def add.assoc split: if_splits)
    qed
    ultimately show ?thesis using ok key k(1) read fit unfolding handle_ok_def by (simp add: h_slice_def)
  qed
  moreover have "region (HM ?m) = region (HM m)" by (simp add: region_def)
  moreover have "?cs ! i = cs ! i" if "i < length cs" "i \<notin> region (HM m)" for i
    using that fit p k(6) by (auto simp: nth_patched region_def)
  ultimately have "bytes_inv ?h (add_mset (HM ?m) hs) vs" "undisturbed h hs vs ?h"
    by (intro inv_write [where x' = "HM ?m", OF inv _ k(1,2,5) _ refl]; use p key in simp)+
  moreover have "contents ?h (HM ?m) = contents h (HM m) @ bs" using read by (simp add: contents_def h_slice_def)
  moreover have "heap_write h (Ptr (blk (bm_ptr m)) (?p + bm_len m)) bs = Inr ?h"
    using heap_write_ok [of h u cs "?p + bm_len m" bs] k(3,5) p by (metis ptr.sel(1))
  ultimately show ?thesis by (auto simp: became_def)
qed

section \<open>Appending\<close>

text \<open>The pieces that \<open>extend_from_slice\<close>, \<open>put_bytes\<close> and \<open>resize\<close> share\<close>

lemma spare_capacity_ok:
  assumes inv: "bytes_inv h (add_mset (HM m) hs) vs"
  shows "spare_capacity_mut h m = Inr (Ptr (blk (bm_ptr m)) (off (bm_ptr m) + bm_len m), bm_cap m - bm_len m)"
proof -
  have ok: "handle_ok h (HM m)" using bytes_invD(3) [OF inv] by simp
  then have "bm_len m \<le> bm_cap m" by (simp add: handle_ok_def)
  with cap_in_block [OF ok this] show ?thesis by (simp add: spare_capacity_mut_def usize_sub_def)
qed

lemma became_trans:
  assumes "became h hs vs x bs h1" "became h1 hs vs y cs h2"
  shows "became h hs vs y cs h2"
  using assms undisturbed_trans by (auto simp: became_def)

text \<open>An operation that grows a handle: it does so, or the capacity would have been too large.\<close>

definition appended ::
  "heap \<Rightarrow> handle multiset \<Rightarrow> addr set \<Rightarrow> bytes_mut \<Rightarrow> u8 list \<Rightarrow> (bytes_mut \<times> heap) res \<Rightarrow> bool" where
  "appended h hs vs m bs r \<longleftrightarrow>
     (\<exists>m' h'. r = Inr (m', h') \<and> became h hs vs (HM m') (contents h (HM m) @ bs) h') \<or>
     too_large r \<and> \<not> moderate h m (length bs)"

context allocator_laws
begin

lemma append_ok:
  assumes inv: "bytes_inv h (add_mset (HM m) hs) vs" and cnt: "cnt = length bs"
    and run: "\<And>m1 h1 h2. reserve alloc h m cnt = Inr (m1, h1) \<Longrightarrow> bm_len m1 = bm_len m \<Longrightarrow> bm_len m + cnt \<le> bm_cap m1 \<Longrightarrow>
      spare_capacity_mut h1 m1 = Inr (Ptr (blk (bm_ptr m1)) (off (bm_ptr m1) + bm_len m1), bm_cap m1 - bm_len m1) \<Longrightarrow>
      heap_write h1 (Ptr (blk (bm_ptr m1)) (off (bm_ptr m1) + bm_len m1)) bs = Inr h2 \<Longrightarrow>
      r = Inr (m1\<lparr>bm_len := bm_len m1 + cnt\<rparr>, h2)"
    and fail: "\<And>e. reserve alloc h m cnt = Inl e \<Longrightarrow> r = Inl e"
  shows "appended h hs vs m bs r"
  using inv
proof (cases rule: reserve_ok [where additional = cnt])
  case (ok m1 h1)
  have inv1: "bytes_inv h1 (add_mset (HM m1) hs) vs" and c1: "contents h1 (HM m1) = contents h (HM m)"
    using ok(2) by (simp_all add: became_def)
  have "bm_len m1 + length bs \<le> bm_cap m1" using ok(3,4) cnt by simp
  from write_spare [OF inv1 this] obtain h2 where
    h2: "heap_write h1 (Ptr (blk (bm_ptr m1)) (off (bm_ptr m1) + bm_len m1)) bs = Inr h2"
      "became h1 hs vs (HM (m1\<lparr>bm_len := bm_len m1 + length bs\<rparr>)) (contents h (HM m) @ bs) h2" using c1 by auto
  have "r = Inr (m1\<lparr>bm_len := bm_len m1 + cnt\<rparr>, h2)" by (rule run [OF ok(1,3,4) spare_capacity_ok [OF inv1] h2(1)])
  with became_trans [OF ok(2) h2(2)] cnt show ?thesis by (auto simp: appended_def)
next
  case too_large
  then have "too_large r" using fail by (auto simp: too_large_def capacity_overflow_def)
  with too_large(2) cnt show ?thesis by (simp add: appended_def)
qed

lemma bytes_mut_extend_from_slice_ok:
  assumes inv: "bytes_inv h (add_mset (HM m) hs) vs"
  shows "appended h hs vs m bs (bytes_mut_extend_from_slice alloc h m bs)"
  by (rule append_ok [OF inv refl])
    (auto simp: bytes_mut_extend_from_slice_def bytes_mut_advance_mut_def rust_assert_def usize_sub_def Let_def)

lemma bytes_mut_put_bytes_ok:
  assumes inv: "bytes_inv h (add_mset (HM m) hs) vs"
  shows "appended h hs vs m (replicate cnt val) (bytes_mut_put_bytes alloc h m val cnt)"
  by (rule append_ok [OF inv, where cnt = cnt])
    (auto simp: bytes_mut_put_bytes_def bytes_mut_advance_mut_def rust_assert_def usize_sub_def)

lemma resize_grow_ok:
  assumes inv: "bytes_inv h (add_mset (HM m) hs) vs" and n: "bm_len m \<le> n"
  shows "appended h hs vs m (replicate (n - bm_len m) val) (resize alloc h m n val)"
proof (cases "n = bm_len m")
  case True
  with inv show ?thesis by (simp add: resize_def checked_sub_def appended_def became_def)
next
  case False
  show ?thesis
    by (rule append_ok [OF inv, where cnt = "n - bm_len m"])
      (use n False in \<open>auto simp: resize_def checked_sub_def set_len_def rust_assert_def\<close>)
qed

lemma resize_shrink_ok:
  assumes inv: "bytes_inv h (add_mset (HM m) hs) vs" and n: "n < bm_len m"
  shows "\<exists>m'. resize alloc h m n val = Inr (m', h) \<and> became h hs vs (HM m') (take n (contents h (HM m))) h"
proof -
  have "checked_sub n (bm_len m) = None" using n by (simp add: checked_sub_def)
  with bytes_mut_truncate_ok [OF inv, of n] show ?thesis by (auto simp: resize_def)
qed

end

section \<open>Overwriting\<close>

lemma heap_read_overwrite:
  assumes read: "heap_read h (Ptr u p) n = Inr bs0" and cs: "h u = Some (Buffer cs)" "p + n \<le> length cs" and i: "i + length bs \<le> n" and u: "u \<noteq> 0"
  shows "heap_read (h(u \<mapsto> Buffer (patched cs (p + i) bs))) (Ptr u p) n = Inr (take i bs0 @ bs @ drop (i + length bs) bs0)"
proof (cases "n = 0")
  case True
  with assms heap_read_length [OF read] show ?thesis by (simp add: heap_read_def addr_of_def)
next
  case False
  let ?new = "take i bs0 @ bs @ drop (i + length bs) bs0"
  have len: "length bs0 = n" using heap_read_length [OF read] .
  have none: "None \<notin> set (take n (drop p cs))" and bs0: "bs0 = map the (take n (drop p cs))"
    using False read cs by (auto simp: heap_read_def cells_of_def Let_def split: if_splits)
  have old: "cs ! (p + j) = Some (bs0 ! j)" if "j < n" for j
  proof -
    have "take n (drop p cs) ! j \<noteq> None" using none that cs(2) by (metis add_leD2 drop_drop le_add_diff_inverse length_drop length_take min.absorb2 nth_mem add_le_imp_le_diff add.commute)
    with that cs(2) bs0 show ?thesis by auto
  qed
  have "take n (drop p (patched cs (p + i) bs)) = map Some ?new"
  proof (rule nth_equalityI)
    show "length (take n (drop p (patched cs (p + i) bs))) = length (map Some ?new)" using cs(2) i len by simp
    fix j assume "j < length (take n (drop p (patched cs (p + i) bs)))"
    then have j: "j < n" by simp
    then have "take n (drop p (patched cs (p + i) bs)) ! j = patched cs (p + i) bs ! (p + j)" using cs(2) i by simp
    also have "\<dots> = map Some ?new ! j"
      using j cs(2) i len old [OF j] by (auto simp: nth_patched nth_append)
    finally show "take n (drop p (patched cs (p + i) bs)) ! j = map Some ?new ! j" .
  qed
  moreover have "length (patched cs (p + i) bs) = length cs" using cs(2) i by simp
  ultimately show ?thesis using cs(2) False by (auto simp: heap_read_def cells_of_def Let_def comp_def)
qed

lemma write_inside:
  assumes inv: "bytes_inv h (add_mset (HM m) hs) vs" and i: "i + length bs \<le> bm_len m"
  shows "\<exists>h'. heap_write h (Ptr (blk (bm_ptr m)) (off (bm_ptr m) + i)) bs = Inr h' \<and>
    became h hs vs (HM m) (take i (contents h (HM m)) @ bs @ drop (i + length bs) (contents h (HM m))) h'"
proof (cases "bs = []")
  case True
  with inv show ?thesis by (simp add: heap_write_def became_def)
next
  case False
  have ok: "handle_ok h (HM m)" using bytes_invD(3) [OF inv] by simp
  have le: "bm_len m \<le> bm_cap m" using ok by (simp add: handle_ok_def)
  then have "0 < bm_cap m" using False i by (cases bs) auto
  from mut_buffer [OF inv this] obtain k u cs where
    k: "key (HM m) = Some k" "buf_of (HM m) = Some u" "bm_ptr m = Ptr u (off (bm_ptr m))" "u \<noteq> 0"
      "h u = Some (Buffer cs)" "off (bm_ptr m) + bm_cap m \<le> length cs"
      "k = u \<and> kind m = KIND_VEC \<and> None \<notin> set (take (off (bm_ptr m) + bm_len m) cs) \<or> (k \<noteq> u \<and> (\<exists>s. h k = Some (Shared_V s)))"
    by blast
  let ?p = "off (bm_ptr m)" and ?cs = "patched cs (off (bm_ptr m) + i) bs"
  let ?h = "h(u \<mapsto> Buffer ?cs)" and ?new = "take i (contents h (HM m)) @ bs @ drop (i + length bs) (contents h (HM m))"
  have fit: "?p + bm_len m \<le> length cs" "?p + i + length bs \<le> length cs" using le k(6) i by simp_all
  have read: "heap_read ?h (bm_ptr m) (bm_len m) = Inr ?new"
    using heap_read_overwrite [of h u ?p "bm_len m" "contents h (HM m)" cs i bs] read_contents(2) [OF ok] k(3,4,5) fit i by simp
  have "handle_ok ?h (HM m)"
  proof -
    have kok: "kind_ok ?h (HM m)" using ok k by (auto simp: handle_ok_def split: if_splits)
    have old: "res_buf h k = buf_of (HM m)" "lies h (HM m) k" using ok k(1) unfolding handle_ok_def by blast+
    have rb: "res_buf ?h k = res_buf h k" using k(5) by (simp add: res_buf_def)
    have init: "None \<notin> set (take (?p + bm_len m) ?cs)" if "None \<notin> set (take (?p + bm_len m) cs)"
    proof
      assume "None \<in> set (take (?p + bm_len m) ?cs)"
      then obtain j where "j < ?p + bm_len m" "?cs ! j = None" by (auto simp: in_set_conv_nth)
      with fit i have "cs ! j = None" "j < ?p + bm_len m" by (auto simp: nth_patched split: if_splits)
      with that fit(1) show False by (metis in_set_conv_nth length_take min.absorb2 nth_take)
    qed
    have "lies ?h (HM m) k" using old(2) k fit init by (auto simp: lies_def Let_def split: if_splits)
    with ok k(1) kok rb old(1) read show ?thesis unfolding handle_ok_def by (simp add: h_slice_def)
  qed
  moreover have "?cs ! j = cs ! j" if "j < length cs" "j \<notin> region (HM m)" for j
    using that fit i le by (auto simp: nth_patched region_def)
  ultimately have "bytes_inv ?h (add_mset (HM m) hs) vs" "undisturbed h hs vs ?h"
    by (intro inv_write [where x' = "HM m", OF inv _ k(1,2,5) _ refl]; use fit in simp)+
  moreover have "contents ?h (HM m) = ?new" using read by (simp add: contents_def h_slice_def)
  moreover have "heap_write h (Ptr (blk (bm_ptr m)) (?p + i)) bs = Inr ?h"
    using heap_write_ok [of h u cs "?p + i" bs] k(3,5) fit by (metis ptr.sel(1))
  ultimately show ?thesis by (auto simp: became_def)
qed

lemma index_mut_ok:
  assumes inv: "bytes_inv h (add_mset (HM m) hs) vs" and i: "i < bm_len m"
  shows "\<exists>h'. index_mut h m i val = Inr h' \<and> became h hs vs (HM m) ((contents h (HM m))[i := val]) h'"
proof -
  have ok: "handle_ok h (HM m)" using bytes_invD(3) [OF inv] by simp
  have len: "length (contents h (HM m)) = bm_len m" using length_contents [OF ok] by simp
  have "take i (contents h (HM m)) @ [val] @ drop (Suc i) (contents h (HM m)) = (contents h (HM m))[i := val]"
    using i len by (simp add: upd_conv_take_nth_drop)
  with write_inside [OF inv, of i "[val]"] i len read_contents(2) [OF ok] show ?thesis
    by (simp add: index_mut_def bytes_mut_as_slice_def)
qed

end
