(* ===== verification/Bytes_Mut_Conv.thy ===== *)
theory Bytes_Mut_Conv
  imports Bytes_Mut_Write
begin

unbundle bit_operations_syntax

text \<open>
  Joining two \<open>BytesMut\<close> again, and the conversions: from slices and vectors, into vectors,
  and from \<open>Bytes\<close> back to \<open>BytesMut\<close>.
\<close>

section \<open>Constructors\<close>

context allocator_laws
begin

lemma from_new_vec:
  assumes "bytes_inv h1 hs (vec_buf v \<union> vs)" "vec_ok h1 v bs" "vec_buf v \<inter> vs = {}" "undisturbed h hs vs h1"
  shows "\<exists>m. bytes_mut_from_vec v = Inr m \<and> became h hs vs (HM m) bs h1 \<and> views m v 0"
proof -
  have "vec_buf v \<union> vs - vec_buf v = vs" using assms(3) by auto
  with bytes_mut_from_vec_ok [OF assms(1,2) Un_upper1] assms(4) show ?thesis by (auto simp: became_def)
qed

lemma bytes_mut_from_slice_ok:
  assumes inv: "bytes_inv h hs vs" and small: "length bs \<le> isize_max"
  shows "\<exists>m h'. bytes_mut_from_slice alloc h bs = Inr (m, h') \<and> became h hs vs (HM m) bs h'"
proof -
  from to_vec_ok [OF assms] obtain v h1 where
    v: "to_vec alloc h bs = Inr (v, h1)" "vec_ok h1 v bs" "bytes_inv h1 hs (vec_buf v \<union> vs)" "undisturbed h hs vs h1"
      "vec_buf v \<inter> vs = {}" by blast
  from from_new_vec [OF v(3,2,5,4)] v(1) show ?thesis by (auto simp: bytes_mut_from_slice_def)
qed

lemma with_capacity_ok:
  assumes inv: "bytes_inv h hs vs" and n: "n \<le> isize_max"
  shows "\<exists>m h'. with_capacity alloc h n = Inr (m, h') \<and> became h hs vs (HM m) [] h' \<and> bm_cap m = n"
proof -
  from vec_with_capacity_ok [OF assms] obtain v h1 where
    v: "vec_with_capacity alloc h n = Inr (v, h1)" "vec_ok h1 v []" "hv_cap v = n" "bytes_inv h1 hs (vec_buf v \<union> vs)"
      "vec_buf v \<inter> vs = {}" "undisturbed h hs vs h1" by blast
  from from_new_vec [OF v(4,2,5,6)] v(1,3) show ?thesis by (auto simp: with_capacity_def views_def)
qed

lemma zeroed_ok:
  assumes inv: "bytes_inv h hs vs" and n: "n \<le> isize_max"
  shows "\<exists>m h'. zeroed alloc h n = Inr (m, h') \<and> became h hs vs (HM m) (replicate n 0) h'"
proof -
  have "zeroed alloc h n = bytes_mut_from_slice alloc h (replicate n 0)"
    using n by (simp add: zeroed_def bytes_mut_from_slice_def)
  with bytes_mut_from_slice_ok [OF inv, of "replicate n 0"] n show ?thesis by simp
qed

lemma bytes_mut_clone_ok:
  assumes inv: "bytes_inv h (add_mset (HM m) hs) vs"
  shows "\<exists>c h'. bytes_mut_clone alloc h m = Inr (c, h') \<and>
    parted h hs vs (HM c) (contents h (HM m)) (HM m) (contents h (HM m)) h'"
proof -
  have x: "HM m \<in># add_mset (HM m) hs" by simp
  have ok: "handle_ok h (HM m)" using bytes_invD(3) [OF inv x] .
  from bytes_mut_from_slice_ok [OF inv contents_bounded(2) [OF inv x]] obtain c h' where
    "bytes_mut_from_slice alloc h (contents h (HM m)) = Inr (c, h')"
    "became h (add_mset (HM m) hs) vs (HM c) (contents h (HM m)) h'" by blast
  then show ?thesis using read_contents(2) [OF ok]
    by (auto simp: bytes_mut_clone_def bytes_mut_as_slice_def became_def parted_def undisturbed_def)
qed

end

section \<open>Joining\<close>

lemma heap_read_join:
  assumes "heap_read h (Ptr u p) n = Inr xs" "heap_read h (Ptr u (p + n)) m = Inr ys" "u \<noteq> 0"
  shows "heap_read h (Ptr u p) (n + m) = Inr (xs @ ys)"
proof (cases "n = 0 \<or> m = 0")
  case True
  with assms show ?thesis by (auto dest: heap_read_length)
next
  case False
  with assms(2) obtain cs where cs: "cells_of h u = Some cs" "p + n + m \<le> length cs"
    by (auto simp: heap_read_def split: if_splits option.splits)
  have "take (n + m) (drop p cs) = take n (drop p cs) @ take m (drop (p + n) cs)"
    using take_add [of n m "drop p cs"] by (simp add: add.commute)
  with cs False assms show ?thesis by (auto simp: heap_read_def Let_def split: if_splits)
qed

text \<open>Two neighbours in a shared vector: then the first has no spare capacity.\<close>

lemma neighbours:
  assumes inv: "bytes_inv h (add_mset (HM m) (add_mset (HM o') hs)) vs" and arc: "kind m = KIND_ARC" "kind o' = KIND_ARC"
    and data: "bm_data m = bm_data o'" and next': "addr_of (bm_ptr m) + bm_len m = addr_of (bm_ptr o')" and cap: "bm_cap o' \<noteq> 0"
  obtains k u s cs where "bm_data m = Ptr k 0" "key (HM m) = Some k" "key (HM o') = Some k" "h k = Some (Shared_V s)" "h u = Some (Buffer cs)"
    "hv_ptr (sv_vec s) = Ptr u 0" "hv_cap (sv_vec s) \<noteq> 0" "bm_ptr m = Ptr u (off (bm_ptr m))" "u \<noteq> 0"
    "bm_ptr o' = Ptr u (off (bm_ptr m) + bm_len m)" "bm_len m = bm_cap m" "off (bm_ptr m) + bm_cap m + bm_cap o' \<le> length cs"
proof -
  have ok: "handle_ok h (HM m)" "handle_ok h (HM o')" using bytes_invD(3) [OF inv] by simp_all
  from arc_handle [OF ok(1) arc(1)] obtain k s where
    k: "bm_data m = Ptr k 0" "key (HM m) = Some k" "h k = Some (Shared_V s)" by blast
  have "bm_data o' = Ptr k 0" using data k(1) by simp
  then have ko: "key (HM o') = Some k" using arc(2) by simp
  have res: "res_ok h k" using bytes_invD(4) [OF inv, of k] k(2) by simp
  from ok(2) ko k(3) res obtain u cs where
    u: "hv_ptr (sv_vec s) = Ptr u 0" "h u = Some (Buffer cs)" "length cs = hv_cap (sv_vec s)" "0 < length cs"
      "blk (bm_ptr o') = u" "off (bm_ptr o') + bm_cap o' \<le> length cs" "u \<noteq> 0"
    by (cases rule: arc_vec) (use cap in auto)
  have m: "blk (bm_ptr m) = u" using ok(1) k(2,3) res by (cases rule: arc_vec) (use u in auto)
  then have off: "off (bm_ptr o') = off (bm_ptr m) + bm_len m" using next' u(5) by (simp add: addr_of_def)
  have "\<not> clash (HM m) (HM o')" using bytes_invD(9) [OF inv] by simp
  then have "region (HM m) \<inter> region (HM o') = {}" using k(2) ko by (simp add: clash_def)
  then have "off (bm_ptr o') \<notin> region (HM m)" using cap by (auto simp: region_def)
  moreover have "bm_len m \<le> bm_cap m" using ok(1) by (simp add: handle_ok_def)
  ultimately have full: "bm_len m = bm_cap m" using off by (auto simp: region_def)
  show thesis
    by (rule that [OF k(1,2) ko k(3) u(2,1) _ _ u(7) _ full]) (use u m off full in \<open>auto intro: ptr.expand\<close>)
qed

lemma join_ok:
  assumes inv: "bytes_inv h (add_mset (HM m) (add_mset (HM o') hs)) vs" and arc: "kind m = KIND_ARC" "kind o' = KIND_ARC"
    and data: "bm_data m = bm_data o'" and next': "addr_of (bm_ptr m) + bm_len m = addr_of (bm_ptr o')" and cap: "bm_cap o' \<noteq> 0"
  shows "\<exists>h'. bytes_mut_drop h o' = Inr h' \<and>
    became h hs vs (HM (m\<lparr>bm_len := bm_len m + bm_len o', bm_cap := bm_cap m + bm_cap o'\<rparr>)) (contents h (HM m) @ contents h (HM o')) h'"
proof -
  have ok: "handle_ok h (HM m)" "handle_ok h (HM o')" using bytes_invD(3) [OF inv] by simp_all
  obtain k u s cs where
    k: "bm_data m = Ptr k 0" "key (HM m) = Some k" "key (HM o') = Some k" "h k = Some (Shared_V s)" and
    u: "h u = Some (Buffer cs)" "hv_ptr (sv_vec s) = Ptr u 0" "hv_cap (sv_vec s) \<noteq> 0" "bm_ptr m = Ptr u (off (bm_ptr m))" "u \<noteq> 0"
      "bm_ptr o' = Ptr u (off (bm_ptr m) + bm_len m)" "bm_len m = bm_cap m" "off (bm_ptr m) + bm_cap m + bm_cap o' \<le> length cs"
    using neighbours [OF assms] by metis
  let ?m = "m\<lparr>bm_len := bm_len m + bm_len o', bm_cap := bm_cap m + bm_cap o'\<rparr>"
  let ?bs = "contents h (HM m) @ contents h (HM o')"
  let ?h = "h(k \<mapsto> Shared_V (s\<lparr>sv_ref_count := sv_ref_count s - 1\<rparr>))"
  have read: "heap_read h (bm_ptr m) (bm_len m + bm_len o') = Inr ?bs"
    using heap_read_join [of h u "off (bm_ptr m)" "bm_len m" "contents h (HM m)" "bm_len o'" "contents h (HM o')"]
      read_contents(2) [OF ok(1)] read_contents(2) [OF ok(2)] u by simp
  have le: "bm_len o' \<le> bm_cap o'" using ok(2) by (simp add: handle_ok_def)
  from arc_view [of ?m k h s u cs "off (bm_ptr m)" ?bs] arc(1) k u read le
  have mk: "handle_ok h (HM ?m)" "key (HM ?m) = Some k" "contents h (HM ?m) = ?bs" by (simp_all add: kind_def)
  have refs: "res_count h k = Suc (Suc (refs hs k))" using bytes_invD(5) [OF inv, of k] k(2,3) by simp
  then have two: "unat (sv_ref_count s) = Suc (Suc (refs hs k))" using k(4) by (simp add: res_count_def)
  then have nz: "sv_ref_count s \<noteq> 0" "sv_ref_count s \<noteq> 1" by auto
  have agree: "agree UNIV h ?h" using agree_recount(3) [of h k s] k(4) by simp
  have "bytes_inv ?h (add_mset (HM ?m) hs) vs"
  proof (rule inv_recount [OF inv agree])
    show "keys (add_mset (HM ?m) hs) = keys (add_mset (HM m) (add_mset (HM o') hs))" using k mk(2) by auto
    have "region (HM ?m) = region (HM m) \<union> region (HM o')" using u by (auto simp: region_def)
    moreover have "\<not> clash (HM m) y \<and> \<not> clash (HM o') y" if "y \<in># hs" for y using bytes_invD(9) [OF inv] that by auto
    ultimately have "\<not> clash (HM ?m) y" if "y \<in># hs" for y using that k(2,3) mk(2) by (fastforce simp: clash_def)
    then show "exclusive (add_mset (HM ?m) hs)" using bytes_invD(9) [OF inv] by auto
    show "handle_ok h x" if "x \<in># add_mset (HM ?m) hs" for x using that mk(1) bytes_invD(3) [OF inv, of x] by auto
    fix j assume j: "j \<in> keys (add_mset (HM m) (add_mset (HM o') hs))"
    show "res_count ?h j = refs (add_mset (HM ?m) hs) j"
      using bytes_invD(5) [OF inv j] k(2,3) mk(2) two count_drop [OF nz(1)] by (auto simp: res_count_def)
  qed
  moreover have "contents ?h y = contents h y" for y using agree_contents [OF agree_mono [OF agree subset_UNIV]] .
  moreover have "undisturbed h hs vs ?h"
    using calculation(2) agreeD_Static [OF agree UNIV_I] not_vec(1) [OF inv, of k] k(2) by (auto simp: undisturbed_def)
  moreover have "bm_data o' = Ptr k 0" using data k(1) by simp
  then have "bytes_mut_drop h o' = Inr ?h"
    using arc k(4) nz(2) by (simp add: bytes_mut_drop_def release_shared_v_def get_shared_v_def atomic_defs Let_def)
  ultimately show ?thesis using mk(3) by (auto simp: became_def)
qed

lemma try_unsplit_join:
  assumes inv: "bytes_inv h (add_mset (HM m) (add_mset (HM o') hs)) vs" and arc: "kind m = KIND_ARC" "kind o' = KIND_ARC"
    and data: "bm_data m = bm_data o'" and next': "addr_of (bm_ptr m) + bm_len m = addr_of (bm_ptr o')" and cap: "bm_cap o' \<noteq> 0"
  obtains h' where
    "try_unsplit h m o' = Inr (None, m\<lparr>bm_len := bm_len m + bm_len o', bm_cap := bm_cap m + bm_cap o'\<rparr>, h')"
    "became h hs vs (HM (m\<lparr>bm_len := bm_len m + bm_len o', bm_cap := bm_cap m + bm_cap o'\<rparr>)) (contents h (HM m) @ contents h (HM o')) h'"
proof -
  have ok: "handle_ok h (HM m)" "handle_ok h (HM o')" using bytes_invD(3) [OF inv] by simp_all
  have le: "bm_len m \<le> bm_cap m" "bm_len o' \<le> bm_cap o'" using ok by (simp_all add: handle_ok_def)
  from join_ok [OF assms] obtain h' where
    h': "bytes_mut_drop h o' = Inr h'"
      "became h hs vs (HM (m\<lparr>bm_len := bm_len m + bm_len o', bm_cap := bm_cap m + bm_cap o'\<rparr>)) (contents h (HM m) @ contents h (HM o')) h'" by blast
  from neighbours [OF assms] obtain u cs where "h u = Some (Buffer cs)" "bm_cap m + bm_cap o' \<le> length cs"
    by (metis add.assoc add_leE)
  with boundedD(3) [OF bytes_invD(8) [OF inv]] isize_max_less_usize_max have "bm_cap m + bm_cap o' \<le> usize_max" by fastforce
  then have "try_unsplit h m o' = Inr (None, m\<lparr>bm_len := bm_len m + bm_len o', bm_cap := bm_cap m + bm_cap o'\<rparr>, h')"
    using assms cap_in_block(1) [OF ok(1) le(1)] h' le by (auto simp: try_unsplit_def usize_add_def addr_of_def add.assoc)
  with h'(2) that show thesis by blast
qed

lemma try_unsplit_ok:
  assumes inv: "bytes_inv h (add_mset (HM m) (add_mset (HM o') hs)) vs"
  obtains (joined) m' h' where "try_unsplit h m o' = Inr (None, m', h')"
      "became h hs vs (HM m') (contents h (HM m) @ contents h (HM o')) h'"
    | (refused) "try_unsplit h m o' = Inr (Some o', m, h)"
proof -
  have ok: "handle_ok h (HM m)" "handle_ok h (HM o')" using bytes_invD(3) [OF inv] by simp_all
  have le: "bm_len m \<le> bm_cap m" "bm_len o' \<le> bm_cap o'" using ok by (simp_all add: handle_ok_def)
  have p: "ptr_add h (bm_ptr m) (bm_len m) = Inr (Ptr (blk (bm_ptr m)) (off (bm_ptr m) + bm_len m))"
    using cap_in_block(1) [OF ok(1) le(1)] .
  consider (empty) "bm_cap o' = 0"
    | (join) "bm_cap o' \<noteq> 0" "addr_of (bm_ptr m) + bm_len m = addr_of (bm_ptr o')" "kind m = KIND_ARC" "kind o' = KIND_ARC" "bm_data m = bm_data o'"
    | (other) "bm_cap o' \<noteq> 0" "\<not> (addr_of (bm_ptr m) + bm_len m = addr_of (bm_ptr o') \<and> kind m = KIND_ARC \<and> kind o' = KIND_ARC \<and> bm_data m = bm_data o')"
    by blast
  then show thesis
  proof cases
    case empty
    have inv': "bytes_inv h (add_mset (HM o') (add_mset (HM m) hs)) vs" using inv by (simp add: add_mset_commute)
    from bytes_mut_drop_ok [OF inv'] obtain h' where h': "bytes_mut_drop h o' = Inr h'" "dropped h (add_mset (HM m) hs) vs h'" by blast
    have "contents h (HM o') = []" using empty le(2) length_contents [OF ok(2)] by simp
    with h' empty show thesis
      by (intro joined [of m h']) (auto simp: try_unsplit_def dropped_def became_def undisturbed_def)
  next
    case join
    from try_unsplit_join [OF inv join(3,4,5,2,1)] joined show thesis by blast
  next
    case other
    with p show thesis by (intro refused) (auto simp: try_unsplit_def addr_of_def add.assoc)
  qed
qed

context allocator_laws
begin

text \<open>\<open>unsplit\<close>: by joining, or by copying\<close>

lemma unsplit_ok:
  assumes inv: "bytes_inv h (add_mset (HM m) (add_mset (HM o') hs)) vs"
  shows "(\<exists>m' h'. unsplit alloc h m o' = Inr (m', h') \<and>
      became h hs vs (HM m') (contents h (HM m) @ contents h (HM o')) h') \<or>
    too_large (unsplit alloc h m o') \<and> \<not> moderate h m (bm_len o')"
proof -
  have ok: "handle_ok h (HM m)" "handle_ok h (HM o')" using bytes_invD(3) [OF inv] by simp_all
  show ?thesis
  proof (cases "bm_len m = 0")
    case True
    from bytes_mut_drop_ok [OF inv] obtain h' where h': "bytes_mut_drop h m = Inr h'" "dropped h (add_mset (HM o') hs) vs h'" by blast
    have "contents h (HM m) = []" using True length_contents [OF ok(1)] by simp
    with h' True show ?thesis by (auto simp: unsplit_def dropped_def became_def undisturbed_def)
  next
    case False
    show ?thesis using inv
    proof (cases rule: try_unsplit_ok)
      case (joined m' h')
      with False show ?thesis by (simp add: unsplit_def)
    next
      case refused
      have len: "length (contents h (HM o')) = bm_len o'" using length_contents [OF ok(2)] by simp
      have run: "unsplit alloc h m o' = res_bind (bytes_mut_extend_from_slice alloc h m (contents h (HM o')))
          (\<lambda>(self, h). res_bind (bytes_mut_drop h o') (\<lambda>h. Inr (self, h)))"
        using False refused read_contents(2) [OF ok(2)] by (simp add: unsplit_def bytes_mut_as_slice_def)
      from bytes_mut_extend_from_slice_ok [OF inv, of "contents h (HM o')"]
      consider m1 h1 where "bytes_mut_extend_from_slice alloc h m (contents h (HM o')) = Inr (m1, h1)"
          "became h (add_mset (HM o') hs) vs (HM m1) (contents h (HM m) @ contents h (HM o')) h1"
        | "too_large (bytes_mut_extend_from_slice alloc h m (contents h (HM o')))" "\<not> moderate h m (bm_len o')"
        unfolding appended_def len by blast
      then show ?thesis
      proof cases
        case (1 m1 h1)
        have inv1: "bytes_inv h1 (add_mset (HM o') (add_mset (HM m1) hs)) vs" using 1(2) by (simp add: became_def add_mset_commute)
        from bytes_mut_drop_ok [OF inv1] obtain h2 where
          h2: "bytes_mut_drop h1 o' = Inr h2" "dropped h1 (add_mset (HM m1) hs) vs h2" by blast
        have "became h hs vs (HM m1) (contents h (HM m) @ contents h (HM o')) h2"
          using 1(2) h2(2) by (auto simp: became_def dropped_def undisturbed_def)
        with run 1(1) h2(1) show ?thesis by simp
      next
        case 2
        with run show ?thesis by (auto simp: too_large_def capacity_overflow_def)
      qed
    qed
  qed
qed

section \<open>Into a vector\<close>

lemma bytes_mut_into_vec_ok:
  assumes inv: "bytes_inv h (add_mset (HM m) hs) vs"
  shows "\<exists>v h'. bytes_mut_into_vec alloc h m = Inr (v, h') \<and> to_vector h (HM m) hs vs v h'"
proof (cases "kind m = KIND_VEC")
  case True
  from to_vec_view [OF inv True] obtain v bs where
    v: "rebuild_vec h (bm_ptr m) (bm_len m) (bm_cap m) (vec_pos m) = Inr v" "views m v (vec_pos m)" "vec_ok h v bs" by blast
  from vec_to_front [OF inv v(2,3)] v(1) True show ?thesis
    by (auto simp: bytes_mut_into_vec_def get_vec_pos_def rust_assert_def vec_pos_def Let_def)
next
  case False
  with kind_cases have arc: "kind m = KIND_ARC" by blast
  have ok: "handle_ok h (HM m)" using bytes_invD(3) [OF inv] by simp
  from arc_handle [OF ok arc] obtain k s where
    k: "bm_data m = Ptr k 0" "key (HM m) = Some k" "h k = Some (Shared_V s)" by blast
  show ?thesis
  proof (cases "sv_ref_count s = 1")
    case True
    from take_vec [OF inv k(2,3) True] arc k True show ?thesis
      by (auto simp: bytes_mut_into_vec_def get_shared_v_def shared_v_unique_def atomic_defs Let_def)
  next
    case shared: False
    have drop: "\<exists>h'. bytes_mut_drop h1 m = Inr h' \<and> dropped h1 hs vs1 h'"
      if "bytes_inv h1 (add_mset (HM m) hs) vs1" for h1 vs1
      using bytes_mut_drop_ok [OF that] .
    from copy_and_drop [OF inv drop] obtain v h1 h' where
      c: "to_vec alloc h (contents h (HM m)) = Inr (v, h1)" "bytes_mut_drop h1 m = Inr h'" "to_vector h (HM m) hs vs v h'"
      by blast
    with arc k shared read_contents(2) [OF ok] have "bytes_mut_into_vec alloc h m = Inr (v, h')"
      by (simp add: bytes_mut_into_vec_def get_shared_v_def shared_v_unique_def bytes_mut_as_slice_def Let_def atomic_defs)
    with c(3) show ?thesis by blast
  qed
qed

section \<open>From Bytes\<close>

text \<open>A vector with its bytes, of which the first \<open>n\<close> are skipped\<close>

lemma from_vec_advance:
  assumes inv: "bytes_inv h1 hs (vec_buf v \<union> vs)" and v: "vec_ok h1 v bs" "vec_buf v \<inter> vs = {}" and n: "n \<le> hv_len v"
    and un: "undisturbed h hs vs h1"
  shows "\<exists>m h'. res_bind (bytes_mut_from_vec v) (\<lambda>b. advance_unchecked alloc h1 b n) = Inr (m, h') \<and>
    became h hs vs (HM m) (drop n bs) h'"
proof -
  from from_new_vec [OF inv v un] obtain m where
    m: "bytes_mut_from_vec v = Inr m" "became h hs vs (HM m) bs h1" "views m v 0" by blast
  have "n \<le> bm_len m" using n m(3) by (simp add: views_def)
  moreover have "bytes_inv h1 (add_mset (HM m) hs) vs" "contents h1 (HM m) = bs" using m(2) by (simp_all add: became_def)
  ultimately obtain m' h' where "advance_unchecked alloc h1 m n = Inr (m', h')" "became h1 hs vs (HM m') (drop n bs) h'"
    using advance_unchecked_ok [of h1 m hs vs n] by auto
  with m(1) became_trans [OF m(2)] show ?thesis by auto
qed

lemma copied_to_mut:
  assumes inv: "bytes_inv h (add_mset x hs) vs"
    and drop: "\<And>h1 vs1. bytes_inv h1 (add_mset x hs) vs1 \<Longrightarrow> (\<forall>a. h a \<noteq> None \<longrightarrow> h1 a = h a) \<Longrightarrow>
      \<exists>h'. release h1 = Inr h' \<and> dropped h1 hs vs1 h'"
  shows "\<exists>v h1 h' m. to_vec alloc h (contents h x) = Inr (v, h1) \<and> release h1 = Inr h' \<and> bytes_mut_from_vec v = Inr m \<and>
    became h hs vs (HM m) (contents h x) h'"
proof -
  from copy_and_drop [OF assms] obtain v h1 h' where
    v: "to_vec alloc h (contents h x) = Inr (v, h1)" "release h1 = Inr h'" "to_vector h x hs vs v h'" by blast
  then have tv: "bytes_inv h' hs (vec_buf v \<union> vs)" "vec_ok h' v (contents h x)" "vec_buf v \<inter> vs = {}" "undisturbed h hs vs h'"
    by (simp_all add: to_vector_def)
  from from_new_vec [OF tv] v(1,2) show ?thesis by blast
qed

lemma shared_to_mut_impl_ok:
  assumes inv: "bytes_inv h (add_mset (HB b) hs) vs" and k: "key (HB b) = Some k" and s: "h k = Some (Shared s)"
  shows "\<exists>m h'. shared_to_mut_impl alloc h (Ptr k 0) (b_ptr b) (b_len b) = Inr (m, h') \<and>
    became h hs vs (HM m) (contents h (HB b)) h'"
proof (cases "sh_ref_cnt s = 1")
  case True
  have x: "HB b \<in># add_mset (HB b) hs" by simp
  have ok: "handle_ok h (HB b)" using bytes_invD(3) [OF inv x] .
  note r = key_resource [OF inv x k]
  have alone: "k \<notin> keys hs" using alone [OF inv k] s True by (simp add: res_count_def)
  from r(8) s r(2) obtain u cs where
    u: "sh_buf s = Ptr u 0" "buf_of (HB b) = Some u" "h u = Some (Buffer cs)" "sh_cap s = length cs" "0 < length cs"
    by (cases "sh_buf s") (fastforce simp: res_ok_def res_buf_def)
  then have p: "blk (b_ptr b) = u" "k \<noteq> u" using s by (auto simp: buf_of_def split: if_splits)
  let ?n = "off (b_ptr b)" and ?h = "h(k := None)"
  have fit: "?n + b_len b \<le> length cs" "None \<notin> set (take (?n + b_len b) cs)"
    using r(7) s u(3) p by (auto simp: lies_def Let_def)
  have "?h a = (if a = u then Some (Buffer cs) else if a = k then None else h a)" for a using u(3) p by auto
  note rel = release_to_vec [where h' = ?h, OF inv k alone u(2) boundedD(3) [OF bytes_invD(8) [OF inv] u(3)] this]
  have u0: "u \<noteq> 0" using block_nonzero [OF inv u(3)] .
  let ?v = "\<lparr>hv_ptr = Ptr u 0, hv_len = ?n + b_len b, hv_cap = length cs\<rparr>" and ?bs = "map the (take (?n + b_len b) cs)"
  have vok: "vec_ok ?h ?v ?bs"
    using u p fit u0 by (auto simp: vec_ok_def heap_read_def cells_of_def addr_of_def)
  have vb: "vec_buf ?v = {u}" using u(5) by (simp add: vec_buf_def)
  have "heap_read h (Ptr u ?n) (b_len b) = Inr (drop ?n ?bs)"
    using heap_read_slice [of ?h "Ptr u 0" "?n + b_len b" ?bs ?n "b_len b"] vok u0 p fit
    by (simp add: vec_ok_def addr_of_def drop_map take_map drop_take)
  then have bs: "drop ?n ?bs = contents h (HB b)" using read_contents(1) [OF ok] p(1) by (cases "b_ptr b") simp
  have "bytes_inv ?h hs (vec_buf ?v \<union> vs)" "vec_buf ?v \<inter> vs = {}" using rel vb by simp_all
  from from_vec_advance [OF this(1) vok this(2) _ rel(2), of ?n] bs obtain m h' where
    m: "res_bind (bytes_mut_from_vec ?v) (\<lambda>b. advance_unchecked alloc ?h b ?n) = Inr (m, h')"
      "became h hs vs (HM m) (contents h (HB b)) h'" by auto
  have "from_raw_parts ?h (Ptr u 0) (b_len b + ?n) (length cs) = Inr ?v"
    using from_raw_parts_ok [OF vok] by (simp add: add.commute)
  with m s True u(1,4) p(1) show ?thesis
    by (auto simp: shared_to_mut_impl_def get_shared_def offset_from_def atomic_defs Let_def)
next
  case False
  have drop: "\<exists>h'. release_shared h1 (Ptr k 0) = Inr h' \<and> dropped h1 hs vs1 h'"
    if "bytes_inv h1 (add_mset (HB b) hs) vs1" "\<forall>a. h a \<noteq> None \<longrightarrow> h1 a = h a" for h1 vs1
    using release_shared_ok [OF that(1) k, of s] that(2) s by auto
  have "heap_read h (b_ptr b) (b_len b) = Inr (contents h (HB b))" using read_contents(1) bytes_invD(3) [OF inv, of "HB b"] by simp
  with copied_to_mut [OF inv drop] False s show ?thesis
    by (auto simp: shared_to_mut_impl_def get_shared_def atomic_defs Let_def)
qed

text \<open>A boxed slice that nobody shares is a vector without spare capacity.\<close>

lemma promotable_to_mut_ok:
  assumes inv: "bytes_inv h (add_mset (HB b) hs) vs" and k: "key (HB b) = Some k" and cs: "h k = Some (Buffer cs)"
    and vec: "addr_of (b_data b) AND KIND_MASK = KIND_VEC" and f: "f (b_data b) = Ptr k 0"
  shows "\<exists>m h'. promotable_to_mut alloc h (b_data b) (b_ptr b) (b_len b) f = Inr (m, h') \<and>
    became h hs vs (HM m) (contents h (HB b)) h'"
proof -
  have ok: "handle_ok h (HB b)" using bytes_invD(3) [OF inv] by simp
  note so = sole_owner [OF inv k cs, simplified]
  let ?n = "off (b_ptr b)" and ?v = "\<lparr>hv_ptr = Ptr k 0, hv_len = length cs, hv_cap = length cs\<rparr>" and ?bs = "map the cs"
  have vok: "vec_ok h ?v ?bs"
    using so(3,5,6,7) cs by (auto simp: vec_ok_def heap_read_def cells_of_def addr_of_def)
  have vb: "vec_buf ?v = {k}" using so(6) by (simp add: vec_buf_def)
  have "heap_read h (Ptr k ?n) (b_len b) = Inr (drop ?n ?bs)"
    using heap_read_slice [of h "Ptr k 0" "length cs" ?bs ?n "b_len b"] vok so(3) block_nonzero [OF inv cs]
    by (simp add: vec_ok_def addr_of_def drop_map take_map)
  then have bs: "drop ?n ?bs = contents h (HB b)" using read_contents(1) [OF ok] so(2) by (cases "b_ptr b") simp
  have "bytes_inv h hs (vec_buf ?v \<union> vs)" "vec_buf ?v \<inter> vs = {}" "?n \<le> hv_len ?v" using so vb by simp_all
  from from_vec_advance [OF this(1) vok this(2,3) undisturbed_refl] bs obtain m h' where
    m: "res_bind (bytes_mut_from_vec ?v) (\<lambda>b. advance_unchecked alloc h b ?n) = Inr (m, h')"
      "became h hs vs (HM m) (contents h (HB b)) h'" by auto
  have "from_raw_parts h (Ptr k 0) (?n + b_len b) (?n + b_len b) = Inr ?v"
    using from_raw_parts_ok [OF vok] so(3) by simp
  with m vec f so(2) show ?thesis
    by (auto simp: promotable_to_mut_def offset_from_def rust_assert_def atomic_defs)
qed

lemma shared_v_to_mut_ok:
  assumes inv: "bytes_inv h (add_mset (HB b) hs) vs" and k: "key (HB b) = Some k" and s: "h k = Some (Shared_V s)" "b_data b = Ptr k 0" "even k"
  shows "\<exists>m h'. shared_v_to_mut alloc h (b_data b) (b_ptr b) (b_len b) = Inr (m, h') \<and>
    became h hs vs (HM m) (contents h (HB b)) h'"
proof (cases "sv_ref_count s = 1")
  case True
  have x: "HB b \<in># add_mset (HB b) hs" by simp
  have ok: "handle_ok h (HB b)" using bytes_invD(3) [OF inv x] .
  note r = key_resource [OF inv x k]
  have alone: "k \<notin> keys hs" using alone [OF inv k] s(1) True by (simp add: res_count_def)
  let ?n = "off (b_ptr b) - off (hv_ptr (sv_vec s))"
  let ?m = "\<lparr>bm_ptr = b_ptr b, bm_len = b_len b, bm_cap = hv_cap (sv_vec s) - ?n, bm_data = Ptr k 0\<rparr>"
  have arc: "kind ?m = KIND_ARC" using s(3) by (simp add: kind_def addr_of_def kind_even)
  have m: "handle_ok h (HM ?m) \<and> key (HM ?m) = Some k \<and> contents h (HM ?m) = contents h (HB b) \<and>
      offset_from (b_ptr b) (hv_ptr (sv_vec s)) = Inr ?n \<and> ?n \<le> hv_cap (sv_vec s)"
  proof (cases "hv_cap (sv_vec s) = 0")
    case True
    then have d: "hv_ptr (sv_vec s) = dangling" "buf_of (HB b) = None" using r(2,8) s(1) by (simp_all add: res_ok_def res_buf_def)
    then have p: "b_ptr b = dangling" "b_len b = 0" using r(7) s(1) by (auto simp: lies_def buf_of_def split: if_splits)
    have "h_slice h (HM ?m) = h_slice h (HB b)" by (simp add: h_slice_def)
    then show ?thesis using ok d p arc s(1) True
      by (simp add: handle_ok_def contents_def offset_from_def dangling_def res_buf_def buf_of_def lies_def addr_of_def h_slice_def heap_read_def)
  next
    case False
    with r(8) s(1) r(2) obtain u cs where
      u: "hv_ptr (sv_vec s) = Ptr u 0" "buf_of (HB b) = Some u" "h u = Some (Buffer cs)" "length cs = hv_cap (sv_vec s)"
      by (cases "hv_ptr (sv_vec s)") (auto simp: res_ok_def res_buf_def)
    then have p: "b_ptr b = Ptr u (off (b_ptr b))" "u \<noteq> 0" by (cases "b_ptr b"; auto simp: buf_of_def split: if_splits)+
    have "blk (b_ptr b) = u" by (subst p(1)) simp
    then have fit: "off (b_ptr b) + b_len b \<le> length cs" using r(7) s(1) u(3) p(2) by (auto simp: lies_def Let_def buf_of_def split: if_splits)
    from arc_view [of ?m k h s u cs "off (b_ptr b)" "contents h (HB b)"] arc s(1) False u p fit read_contents(1) [OF ok]
    have "handle_ok h (HM ?m)" "key (HM ?m) = Some k" "contents h (HM ?m) = contents h (HB b)" by simp_all
    moreover have "offset_from (b_ptr b) (hv_ptr (sv_vec s)) = Inr ?n" using u(1) p by (metis diff_zero le0 offset_from_def ptr.sel)
    ultimately show ?thesis using u fit by simp
  qed
  have "vptr (b_ptr b) = Inr (b_ptr b)" using ok by (simp add: vptr_def expect_def handle_ok_def)
  with m True s have "shared_v_to_mut alloc h (b_data b) (b_ptr b) (b_len b) = Inr (?m, h)"
    by (simp add: shared_v_to_mut_def get_shared_v_def shared_v_unique_def usize_sub_def atomic_defs Let_def)
  moreover have "became h hs vs (HM ?m) (contents h (HB b)) h"
    using inv_alone [OF inv k alone, of "HM ?m"] m by (simp add: became_def)
  ultimately show ?thesis by blast
next
  case False
  have drop: "\<exists>h'. release_shared_v h1 (Ptr k 0) = Inr h' \<and> dropped h1 hs vs1 h'"
    if "bytes_inv h1 (add_mset (HB b) hs) vs1" "\<forall>a. h a \<noteq> None \<longrightarrow> h1 a = h a" for h1 vs1
    using release_shared_v_ok [OF that(1) k, of s] that(2) s by auto
  have "heap_read h (b_ptr b) (b_len b) = Inr (contents h (HB b))" using read_contents(1) bytes_invD(3) [OF inv, of "HB b"] by simp
  with copied_to_mut [OF inv drop] False s show ?thesis
    by (auto simp: shared_v_to_mut_def get_shared_v_def shared_v_unique_def atomic_defs Let_def)
qed

text \<open>\<open>From<Bytes> for BytesMut\<close>\<close>

lemma into_mut_ok:
  assumes inv: "bytes_inv h (add_mset (HB b) hs) vs" and few: "size hs < 2 ^ 63 - 1"
  shows "\<exists>m h'. into_mut alloc h b = Inr (m, h') \<and> became h hs vs (HM m) (contents h (HB b)) h'"
proof -
  have bok: "handle_ok h (HB b)" using bytes_invD(3) [OF inv] by simp
  note read = read_contents(1) [OF bok]
  show ?thesis using bok
  proof (cases rule: handle_cases)
    case static
    then have "\<exists>h'. Inr h1 = Inr h' \<and> dropped h1 hs vs1 h'" if "bytes_inv h1 (add_mset (HB b) hs) vs1" for h1 vs1
      using that bytes_invD(3) [OF that, of "HB b"] by (simp add: dropped_def inv_keyless)
    from copied_to_mut [OF inv this] static read show ?thesis
      by (auto simp: into_mut_def static_to_mut_def bytes_mut_from_slice_def)
  next
    case (owned k ow)
    have drop: "\<exists>h'. owned_drop_impl h1 (Ptr k 0) = Inr h' \<and> dropped h1 hs vs1 h'"
      if "bytes_inv h1 (add_mset (HB b) hs) vs1" "\<forall>a. h a \<noteq> None \<longrightarrow> h1 a = h a" for h1 vs1
      using owned_drop_ok [OF that(1) owned(2), of ow] that(2) owned(4) few by auto
    from copied_to_mut [OF inv drop] owned read show ?thesis
      by (auto simp: into_mut_def owned_to_mut_def owned_to_vec_def atomic_defs)
  next
    case (arc k s)
    with shared_to_mut_impl_ok [OF inv arc(2,4)] show ?thesis
      by (auto simp: into_mut_def shared_to_mut_def promotable_even_to_mut_def promotable_odd_to_mut_def promotable_to_mut_def atomic_defs)
  next
    case (vec k cs)
    from vec(1) show ?thesis
    proof
      assume v: "b_vtable b = PROMOTABLE_EVEN_VTABLE"
      with promotable_to_mut_ok [OF inv vec(2,3,4), of "\<lambda>sh. ptr_map sh clear_kind"] vec(5) show ?thesis
        by (simp add: into_mut_def promotable_even_to_mut_def)
    next
      assume v: "b_vtable b = PROMOTABLE_ODD_VTABLE"
      with promotable_to_mut_ok [OF inv vec(2,3,4), of "\<lambda>sh. sh"] vec(6) show ?thesis
        by (simp add: into_mut_def promotable_odd_to_mut_def)
    qed
  next
    case (arcv k s)
    with shared_v_to_mut_ok [OF inv arcv(2,4,3,5)] show ?thesis by (simp add: into_mut_def)
  qed
qed

text \<open>\<open>try_into_mut\<close> succeeds exactly for a handle that is alone, and then without copying a byte out.\<close>

lemma try_into_mut_ok:
  assumes inv: "bytes_inv h (add_mset (HB b) hs) vs" and few: "size hs < 2 ^ 63 - 1"
  obtains (mut) m h' where "try_into_mut alloc h b = Inr (Ok m, h')" "became h hs vs (HM m) (contents h (HB b)) h'"
      "is_unique h b = Inr True"
    | (refused) "try_into_mut alloc h b = Inr (Err b, h)" "is_unique h b = Inr False"
proof (cases "is_unique h b = Inr True")
  case True
  with into_mut_ok [OF assms] mut show thesis by (auto simp: try_into_mut_def)
next
  case False
  with is_unique_iff [OF inv] have "is_unique h b = Inr False" by auto
  with refused show thesis by (simp add: try_into_mut_def)
qed

end

end
