(* ===== verification/Bytes_Machine.thy ===== *)
theory Bytes_Machine
  imports Bytes_Mut_Conv
begin

text \<open>
  A client of \<open>Bytes\<close> and \<open>BytesMut\<close>: any sequence of operations on any number of handles and
  vectors. The abstract specification knows no memory at all: every handle is a list of bytes
  of its own, and operations are \<open>take\<close>, \<open>drop\<close> and \<open>@\<close>. The machine on the heap refines it,
  panics included, so shared buffers and reference counts cannot be observed.
\<close>

section \<open>The machine\<close>

record world =
  w_heap :: heap
  w_handles :: "handle list"
  w_vecs :: "hvec list"

text \<open>Operations on one handle; the ones that both types have stand for both.\<close>

datatype handle_op =
    Op_clone
  | Op_drop
  | Op_slice bound bound
  | Op_slice_ref usize usize
  | Op_split_off usize
  | Op_split_to usize
  | Op_truncate usize
  | Op_clear
  | Op_advance usize
  | Op_copy_to_bytes usize
  | Op_into_vec
  | Op_into_mut
  | Op_try_into_mut
  | Op_freeze
  | Op_reserve usize
  | Op_try_reclaim usize
  | Op_extend_from_slice "u8 list"
  | Op_put_bytes u8 usize
  | Op_resize usize u8
  | Op_index_mut usize u8

datatype bytes_op =
    Op_new
  | Op_from_static addr "u8 list"
  | Op_copy_from_slice "u8 list"
  | Op_with_capacity usize
  | Op_zeroed usize
  | Op_mut_from_slice "u8 list"
  | Op_from_vec nat
  | Op_from_owner nat
  | Op_unsplit nat nat
  | On nat handle_op

text \<open>
  The static data of the program: its byte strings and where they lie. A slice of a Rust program
  has at most \<open>isize::MAX\<close> bytes, and a \<open>&'static [u8]\<close> is one of the byte strings.
\<close>

type_synonym static_data = "addr \<rightharpoonup> u8 list"

definition static_ok :: "static_data \<Rightarrow> bool" where
  "static_ok st \<longleftrightarrow> finite (dom st) \<and> st 0 = None \<and> (\<forall>bs \<in> ran st. length bs \<le> isize_max)"

fun sized :: "static_data \<Rightarrow> bytes_op \<Rightarrow> bool" where
  "sized st (Op_copy_from_slice data) \<longleftrightarrow> length data \<le> isize_max"
| "sized st (Op_mut_from_slice data) \<longleftrightarrow> length data \<le> isize_max"
| "sized st (Op_from_static a data) \<longleftrightarrow> st a = Some data"
| "sized st _ \<longleftrightarrow> True"

text \<open>What an operation leaves: handles, vectors and the heap\<close>

type_synonym left = "handle list \<times> hvec list \<times> heap"

definition no_handle :: "heap res \<Rightarrow> left res" where
  "no_handle r = res_bind r (\<lambda>h. Inr ([], [], h))"

definition one_handle :: "('a \<Rightarrow> handle) \<Rightarrow> ('a \<times> heap) res \<Rightarrow> left res" where
  "one_handle f r = res_bind r (\<lambda>(x, h). Inr ([f x], [], h))"

definition two_handles :: "('a \<Rightarrow> handle) \<Rightarrow> ('b \<Rightarrow> handle) \<Rightarrow> ('a \<times> 'b \<times> heap) res \<Rightarrow> left res" where
  "two_handles f g r = res_bind r (\<lambda>(ret, self, h). Inr ([g self, f ret], [], h))"

definition one_vec :: "(hvec \<times> heap) res \<Rightarrow> left res" where
  "one_vec r = res_bind r (\<lambda>(v, h). Inr ([], [v], h))"

text \<open>
  A vector as an owner: \<open>as_ref\<close> is its slice, and dropping it frees its buffer. A panic of
  \<open>from_owner\<close> is one of the operation.
\<close>

definition vec_owner :: "hvec \<Rightarrow> addr option" where
  "vec_owner v = (if hv_cap v = 0 then None else Some (blk (hv_ptr v)))"

definition from_owner_vec :: "allocator \<Rightarrow> heap \<Rightarrow> hvec \<Rightarrow> (bytes \<times> heap) res" where
  "from_owner_vec alloc h v =
     res_bind (from_owner alloc (\<lambda>h owner. Inr (hv_ptr v, hv_len v)) h (vec_owner v)) (\<lambda>(r, h).
     case r of Ok b \<Rightarrow> Inr (b, h) | Err p \<Rightarrow> Inl (Panic p))"

text \<open>
  An operation that the type of the handle does not have is skipped. The slice given to
  \<open>slice_ref\<close> is known by its address, counted from that of the handle, and its length.
\<close>

fun exec_bytes :: "allocator \<Rightarrow> handle_op \<Rightarrow> heap \<Rightarrow> bytes \<Rightarrow> left res" where
  "exec_bytes alloc Op_clone h b = two_handles HB HB (bytes_clone alloc h b)"
| "exec_bytes alloc Op_drop h b = no_handle (bytes_drop h b)"
| "exec_bytes alloc (Op_slice lo hi) h b = two_handles HB HB (bytes_slice alloc h b lo hi)"
| "exec_bytes alloc (Op_slice_ref i n) h b = two_handles HB HB (slice_ref alloc h b (wrapping_add (b_ptr b) i) n)"
| "exec_bytes alloc (Op_split_off n) h b = two_handles HB HB (split_off alloc h b n)"
| "exec_bytes alloc (Op_split_to n) h b = two_handles HB HB (split_to alloc h b n)"
| "exec_bytes alloc (Op_truncate n) h b = one_handle HB (bytes_truncate alloc h b n)"
| "exec_bytes alloc Op_clear h b = one_handle HB (bytes_clear alloc h b)"
| "exec_bytes alloc (Op_advance n) h b = one_handle HB (res_bind (bytes_advance h b n) (\<lambda>b. Inr (b, h)))"
| "exec_bytes alloc (Op_copy_to_bytes n) h b = two_handles HB HB (bytes_copy_to_bytes alloc h b n)"
| "exec_bytes alloc Op_into_vec h b = one_vec (into_vec alloc h b)"
| "exec_bytes alloc Op_into_mut h b = one_handle HM (into_mut alloc h b)"
| "exec_bytes alloc Op_try_into_mut h b =
     one_handle (case_result HM HB) (try_into_mut alloc h b)"
| "exec_bytes alloc _ h b = Inr ([HB b], [], h)"

fun exec_mut :: "allocator \<Rightarrow> handle_op \<Rightarrow> heap \<Rightarrow> bytes_mut \<Rightarrow> left res" where
  "exec_mut alloc Op_clone h m =
     two_handles HM HM (res_bind (bytes_mut_clone alloc h m) (\<lambda>(c, h). Inr (c, m, h)))"
| "exec_mut alloc Op_drop h m = no_handle (bytes_mut_drop h m)"
| "exec_mut alloc (Op_split_off n) h m = two_handles HM HM (bytes_mut_split_off alloc h m n)"
| "exec_mut alloc (Op_split_to n) h m = two_handles HM HM (bytes_mut_split_to alloc h m n)"
| "exec_mut alloc (Op_truncate n) h m = one_handle HM (res_bind (bytes_mut_truncate m n) (\<lambda>m. Inr (m, h)))"
| "exec_mut alloc Op_clear h m = one_handle HM (res_bind (bytes_mut_clear m) (\<lambda>m. Inr (m, h)))"
| "exec_mut alloc (Op_advance n) h m = one_handle HM (bytes_mut_advance alloc h m n)"
| "exec_mut alloc (Op_copy_to_bytes n) h m = two_handles HB HM (bytes_mut_copy_to_bytes alloc h m n)"
| "exec_mut alloc Op_into_vec h m = one_vec (bytes_mut_into_vec alloc h m)"
| "exec_mut alloc Op_freeze h m = one_handle HB (freeze alloc h m)"
| "exec_mut alloc (Op_reserve n) h m = one_handle HM (reserve alloc h m n)"
| "exec_mut alloc (Op_try_reclaim n) h m =
     one_handle HM (res_bind (try_reclaim alloc h m n) (\<lambda>(_, m, h). Inr (m, h)))"
| "exec_mut alloc (Op_extend_from_slice bs) h m = one_handle HM (bytes_mut_extend_from_slice alloc h m bs)"
| "exec_mut alloc (Op_put_bytes val n) h m = one_handle HM (bytes_mut_put_bytes alloc h m val n)"
| "exec_mut alloc (Op_resize n val) h m = one_handle HM (resize alloc h m n val)"
| "exec_mut alloc (Op_index_mut i val) h m = one_handle HM (res_bind (index_mut h m i val) (\<lambda>h. Inr (m, h)))"
| "exec_mut alloc _ h m = Inr ([HM m], [], h)"

fun exec_handle :: "allocator \<Rightarrow> handle_op \<Rightarrow> heap \<Rightarrow> handle \<Rightarrow> left res" where
  "exec_handle alloc op h (HB b) = exec_bytes alloc op h b"
| "exec_handle alloc op h (HM m) = exec_mut alloc op h m"

text \<open>
  An operation takes the handle with the given index out of the list and puts the handles
  that are there afterwards at the end. One on an index that does not exist is skipped.
\<close>

definition others :: "nat \<Rightarrow> 'a list \<Rightarrow> 'a list" where
  "others i xs = take i xs @ drop (Suc i) xs"

definition leave :: "world \<Rightarrow> handle list \<Rightarrow> hvec list \<Rightarrow> left res \<Rightarrow> world res" where
  "leave w xs us r =
     res_bind r (\<lambda>(bs, vs, h). Inr \<lparr>w_heap = h, w_handles = xs @ bs, w_vecs = us @ vs\<rparr>)"

definition leave_unsplit :: "allocator \<Rightarrow> heap \<Rightarrow> handle \<Rightarrow> handle \<Rightarrow> left res" where
  "leave_unsplit alloc h x y =
     (case (x, y) of
        (HM m, HM m') \<Rightarrow> one_handle HM (unsplit alloc h m m')
      | _ \<Rightarrow> Inr ([x, y], [], h))"

text \<open>\<open>Op_unsplit i j\<close> takes handle \<open>i\<close>, and \<open>other\<close> is handle \<open>j\<close> of the rest.\<close>

fun exec :: "allocator \<Rightarrow> bytes_op \<Rightarrow> world \<Rightarrow> world res" where
  "exec alloc Op_new w = leave w (w_handles w) (w_vecs w) (Inr ([HB bytes_new], [], w_heap w))"
| "exec alloc (Op_from_static a data) w =
     leave w (w_handles w) (w_vecs w) (Inr ([HB (from_static (Ptr a 0) (length data))], [], w_heap w))"
| "exec alloc (Op_copy_from_slice data) w =
     leave w (w_handles w) (w_vecs w) (one_handle HB (bytes_copy_from_slice alloc (w_heap w) data))"
| "exec alloc (Op_with_capacity n) w =
     leave w (w_handles w) (w_vecs w) (one_handle HM (with_capacity alloc (w_heap w) n))"
| "exec alloc (Op_zeroed n) w = leave w (w_handles w) (w_vecs w) (one_handle HM (zeroed alloc (w_heap w) n))"
| "exec alloc (Op_mut_from_slice data) w =
     leave w (w_handles w) (w_vecs w) (one_handle HM (bytes_mut_from_slice alloc (w_heap w) data))"
| "exec alloc (Op_from_vec j) w =
     (if j < length (w_vecs w)
      then leave w (w_handles w) (others j (w_vecs w)) (one_handle HB (from_vec alloc (w_heap w) (w_vecs w ! j)))
      else Inr w)"
| "exec alloc (Op_from_owner j) w =
     (if j < length (w_vecs w)
      then leave w (w_handles w) (others j (w_vecs w)) (one_handle HB (from_owner_vec alloc (w_heap w) (w_vecs w ! j)))
      else Inr w)"
| "exec alloc (Op_unsplit i j) w =
     (let xs = others i (w_handles w) in
      if i < length (w_handles w) \<and> j < length xs
      then leave w (others j xs) (w_vecs w) (leave_unsplit alloc (w_heap w) (w_handles w ! i) (xs ! j))
      else Inr w)"
| "exec alloc (On i op) w =
     (if i < length (w_handles w)
      then leave w (others i (w_handles w)) (w_vecs w) (exec_handle alloc op (w_heap w) (w_handles w ! i))
      else Inr w)"

fun run :: "allocator \<Rightarrow> bytes_op list \<Rightarrow> world \<Rightarrow> world res" where
  "run alloc [] w = Inr w"
| "run alloc (op # ops) w = res_bind (exec alloc op w) (run alloc ops)"

section \<open>The specification\<close>

text \<open>
  The values of the handles and of the vectors. An operation has a list of possible outcomes,
  where \<^const>\<open>None\<close> is a panic. Most have exactly one. What the code lets capacities and
  reference counts decide is open: whether a buffer can still grow, whether \<open>split_off\<close> of a
  \<open>BytesMut\<close> behind its length is inside its capacity, and whether \<open>try_into_mut\<close> succeeds.
\<close>

datatype val = VB "u8 list" | VM "u8 list"

type_synonym vals = "val list \<times> u8 list list"

definition provided :: "bool \<Rightarrow> 'a \<Rightarrow> 'a option list" where
  "provided P x = (if P then [Some x] else [None])"

definition spec_slice :: "bound \<Rightarrow> bound \<Rightarrow> u8 list \<Rightarrow> u8 list option" where
  "spec_slice lo hi x =
     (case (range_begin lo, range_end (length x) hi) of
        (Inr i, Inr j) \<Rightarrow> if i \<le> j \<and> j \<le> length x then Some (take (j - i) (drop i x)) else None
      | _ \<Rightarrow> None)"

fun spec_bytes :: "handle_op \<Rightarrow> u8 list \<Rightarrow> vals option list" where
  "spec_bytes Op_clone x = [Some ([VB x, VB x], [])]"
| "spec_bytes Op_drop x = [Some ([], [])]"
| "spec_bytes (Op_slice lo hi) x = [map_option (\<lambda>y. ([VB x, VB y], [])) (spec_slice lo hi x)]"
| "spec_bytes (Op_slice_ref i n) x =
     provided (n = 0 \<or> i + n \<le> length x) ([VB x, VB (take n (drop i x))], [])"
| "spec_bytes (Op_split_off n) x = provided (n \<le> length x) ([VB (take n x), VB (drop n x)], [])"
| "spec_bytes (Op_split_to n) x = provided (n \<le> length x) ([VB (drop n x), VB (take n x)], [])"
| "spec_bytes (Op_truncate n) x = [Some ([VB (take n x)], [])]"
| "spec_bytes Op_clear x = [Some ([VB []], [])]"
| "spec_bytes (Op_advance n) x = provided (n \<le> length x) ([VB (drop n x)], [])"
| "spec_bytes (Op_copy_to_bytes n) x = provided (n \<le> length x) ([VB (drop n x), VB (take n x)], [])"
| "spec_bytes Op_into_vec x = [Some ([], [x])]"
| "spec_bytes Op_into_mut x = [Some ([VM x], [])]"
| "spec_bytes Op_try_into_mut x = [Some ([VM x], []), Some ([VB x], [])]"
| "spec_bytes _ x = [Some ([VB x], [])]"

fun spec_mut :: "handle_op \<Rightarrow> u8 list \<Rightarrow> vals option list" where
  "spec_mut Op_clone x = [Some ([VM x, VM x], [])]"
| "spec_mut Op_drop x = [Some ([], [])]"
| "spec_mut (Op_split_off n) x =
     (if n \<le> length x then [] else [None]) @ [Some ([VM (take n x), VM (drop n x)], [])]"
| "spec_mut (Op_split_to n) x = provided (n \<le> length x) ([VM (drop n x), VM (take n x)], [])"
| "spec_mut (Op_truncate n) x = [Some ([VM (take n x)], [])]"
| "spec_mut Op_clear x = [Some ([VM []], [])]"
| "spec_mut (Op_advance n) x = provided (n \<le> length x) ([VM (drop n x)], [])"
| "spec_mut (Op_copy_to_bytes n) x = provided (n \<le> length x) ([VM (drop n x), VB (take n x)], [])"
| "spec_mut Op_into_vec x = [Some ([], [x])]"
| "spec_mut Op_freeze x = [Some ([VB x], [])]"
| "spec_mut (Op_reserve n) x = [None, Some ([VM x], [])]"
| "spec_mut (Op_try_reclaim n) x = [Some ([VM x], [])]"
| "spec_mut (Op_extend_from_slice bs) x = [None, Some ([VM (x @ bs)], [])]"
| "spec_mut (Op_put_bytes val n) x = [None, Some ([VM (x @ replicate n val)], [])]"
| "spec_mut (Op_resize n val) x =
     (if n < length x then [Some ([VM (take n x)], [])]
      else [None, Some ([VM (x @ replicate (n - length x) val)], [])])"
| "spec_mut (Op_index_mut i val) x = provided (i < length x) ([VM (x[i := val])], [])"
| "spec_mut _ x = [Some ([VM x], [])]"

fun spec_handle :: "handle_op \<Rightarrow> val \<Rightarrow> vals option list" where
  "spec_handle op (VB x) = spec_bytes op x"
| "spec_handle op (VM x) = spec_mut op x"

fun spec_unsplit :: "val \<Rightarrow> val \<Rightarrow> vals option list" where
  "spec_unsplit (VM x) (VM y) = [None, Some ([VM (x @ y)], [])]"
| "spec_unsplit x y = [Some ([x, y], [])]"

definition spec_leave :: "val list \<Rightarrow> u8 list list \<Rightarrow> vals option list \<Rightarrow> vals option list" where
  "spec_leave xs us = map (map_option (\<lambda>(ys, vs). (xs @ ys, us @ vs)))"

fun spec_exec :: "bytes_op \<Rightarrow> vals \<Rightarrow> vals option list" where
  "spec_exec Op_new s = spec_leave (fst s) (snd s) [Some ([VB []], [])]"
| "spec_exec (Op_from_static a data) s = spec_leave (fst s) (snd s) [Some ([VB data], [])]"
| "spec_exec (Op_copy_from_slice data) s = spec_leave (fst s) (snd s) [Some ([VB data], [])]"
| "spec_exec (Op_with_capacity n) s = spec_leave (fst s) (snd s) (provided (n \<le> isize_max) ([VM []], []))"
| "spec_exec (Op_zeroed n) s = spec_leave (fst s) (snd s) (provided (n \<le> isize_max) ([VM (replicate n 0)], []))"
| "spec_exec (Op_mut_from_slice data) s = spec_leave (fst s) (snd s) [Some ([VM data], [])]"
| "spec_exec (Op_from_vec j) s =
     (if j < length (snd s) then spec_leave (fst s) (others j (snd s)) [Some ([VB (snd s ! j)], [])]
      else [Some s])"
| "spec_exec (Op_from_owner j) s =
     (if j < length (snd s) then spec_leave (fst s) (others j (snd s)) [Some ([VB (snd s ! j)], [])]
      else [Some s])"
| "spec_exec (Op_unsplit i j) s =
     (let xs = others i (fst s) in
      if i < length (fst s) \<and> j < length xs
      then spec_leave (others j xs) (snd s) (spec_unsplit (fst s ! i) (xs ! j)) else [Some s])"
| "spec_exec (On i op) s =
     (if i < length (fst s) then spec_leave (others i (fst s)) (snd s) (spec_handle op (fst s ! i))
      else [Some s])"

fun spec_run :: "bytes_op list \<Rightarrow> vals \<Rightarrow> vals option list" where
  "spec_run [] s = [Some s]"
| "spec_run (op # ops) s =
     concat (map (\<lambda>t. case t of None \<Rightarrow> [None] | Some t \<Rightarrow> spec_run ops t) (spec_exec op s))"

section \<open>The abstraction\<close>

definition val_of :: "heap \<Rightarrow> handle \<Rightarrow> val" where
  "val_of h x = (if is_mut x then VM (contents h x) else VB (contents h x))"

definition vec_contents :: "heap \<Rightarrow> hvec \<Rightarrow> u8 list" where
  "vec_contents h v = (case heap_read h (hv_ptr v) (hv_len v) of Inr bs \<Rightarrow> bs | Inl _ \<Rightarrow> [])"

definition values_of :: "world \<Rightarrow> vals" where
  "values_of w = (map (val_of (w_heap w)) (w_handles w), map (vec_contents (w_heap w)) (w_vecs w))"

definition vec_bufs :: "hvec list \<Rightarrow> addr set" where
  "vec_bufs vs = (\<Union>v \<in> set vs. vec_buf v)"

fun apart :: "hvec list \<Rightarrow> bool" where
  "apart [] \<longleftrightarrow> True"
| "apart (v # vs) \<longleftrightarrow> vec_buf v \<inter> vec_bufs vs = {} \<and> apart vs"

definition world_ok :: "world \<Rightarrow> bool" where
  "world_ok w \<longleftrightarrow>
     bytes_inv (w_heap w) (mset (w_handles w)) (vec_bufs (w_vecs w)) \<and> apart (w_vecs w) \<and>
     (\<forall>v \<in> set (w_vecs w). vec_ok (w_heap w) v (vec_contents (w_heap w) v))"

lemma val_of_simps [simp]: "val_of h (HB b) = VB (contents h (HB b))" "val_of h (HM m) = VM (contents h (HM m))"
  by (simp_all add: val_of_def)

lemma vec_ok_contents: "vec_ok h v bs \<Longrightarrow> vec_contents h v = bs"
  by (simp add: vec_ok_def vec_contents_def)

lemma vec_bufs_simps [simp]:
  "vec_bufs [] = {}" "vec_bufs (v # vs) = vec_buf v \<union> vec_bufs vs" "vec_bufs (us @ vs) = vec_bufs us \<union> vec_bufs vs"
  by (auto simp: vec_bufs_def)

lemma apart_append: "apart (us @ vs) \<longleftrightarrow> apart us \<and> apart vs \<and> vec_bufs us \<inter> vec_bufs vs = {}"
  by (induction us) auto

lemma others_split: "i < length xs \<Longrightarrow> xs = take i xs @ xs ! i # drop (Suc i) xs"
  by (rule id_take_nth_drop)

lemma mset_others: "i < length xs \<Longrightarrow> mset xs = add_mset (xs ! i) (mset (others i xs))"
  by (subst others_split, assumption) (simp add: others_def)

lemma others_simps [simp]:
  "map f (others i xs) = others i (map f xs)"
  "i < length xs \<Longrightarrow> length (others i xs) = length xs - 1"
  "set (others i xs) \<subseteq> set xs"
  by (auto simp: others_def take_map drop_map dest: in_set_takeD in_set_dropD)

lemma apart_others:
  assumes "j < length vs" "apart vs"
  shows "apart (others j vs)" "vec_bufs vs = vec_buf (vs ! j) \<union> vec_bufs (others j vs)"
    "vec_buf (vs ! j) \<inter> vec_bufs (others j vs) = {}"
proof -
  note s = others_split [OF assms(1)]
  have "apart (take j vs @ vs ! j # drop (Suc j) vs)" using assms(2) s by simp
  then show "apart (others j vs)" "vec_buf (vs ! j) \<inter> vec_bufs (others j vs) = {}"
    by (auto simp: apart_append others_def)
  show "vec_bufs vs = vec_buf (vs ! j) \<union> vec_bufs (others j vs)"
    by (subst s) (auto simp: others_def)
qed

section \<open>One step\<close>

definition statics :: "heap \<Rightarrow> (addr \<times> u8 list) set" where
  "statics h = {(a, bs). h a = Some (Static bs)}"

definition simulates :: "heap \<Rightarrow> world res \<Rightarrow> vals option list \<Rightarrow> bool" where
  "simulates h r ys \<longleftrightarrow>
     (\<exists>p. r = Inl (Panic p) \<and> None \<in> set ys) \<or>
     (\<exists>w. r = Inr w \<and> Some (values_of w) \<in> set ys \<and> world_ok w \<and> statics (w_heap w) = statics h)"

lemma simulates_statics: "statics h = statics h' \<Longrightarrow> simulates h r s = simulates h' r s"
  by (simp add: simulates_def)

lemma simulates_skip: "world_ok w \<Longrightarrow> simulates (w_heap w) (Inr w) [Some (values_of w)]"
  by (simp add: simulates_def)

text \<open>What an operation on some of the handles must do for the machine to simulate the specification\<close>

definition op_ok :: "heap \<Rightarrow> handle multiset \<Rightarrow> addr set \<Rightarrow> left res \<Rightarrow> vals option list \<Rightarrow> bool" where
  "op_ok h hs vs r ys \<longleftrightarrow>
     (\<exists>p. r = Inl (Panic p) \<and> None \<in> set ys) \<or>
     (\<exists>bs nv h'. r = Inr (bs, nv, h') \<and> Some (map (val_of h') bs, map (vec_contents h') nv) \<in> set ys \<and>
        bytes_inv h' (mset bs + hs) (vs \<union> vec_bufs nv) \<and> undisturbed h hs vs h' \<and>
        apart nv \<and> vs \<inter> vec_bufs nv = {} \<and> (\<forall>v \<in> set nv. vec_ok h' v (vec_contents h' v)))"

text \<open>A new world from an old one: handles \<open>xs\<close> stay, vectors \<open>us\<close> stay, others are new.\<close>

lemma world_okI:
  assumes inv: "bytes_inv h' (mset (xs @ new)) (vec_bufs (us @ nv))" and un: "undisturbed h (mset xs) (vec_bufs us) h'"
    and us: "apart us" "\<forall>v \<in> set us. vec_ok h v (vec_contents h v)"
    and nv: "apart nv" "vec_bufs us \<inter> vec_bufs nv = {}" "\<forall>v \<in> set nv. vec_ok h' v (vec_contents h' v)"
  shows "world_ok \<lparr>w_heap = h', w_handles = xs @ new, w_vecs = us @ nv\<rparr> \<and>
    values_of \<lparr>w_heap = h', w_handles = xs @ new, w_vecs = us @ nv\<rparr> =
      (map (val_of h) xs @ map (val_of h') new, map (vec_contents h) us @ map (vec_contents h') nv) \<and> statics h' = statics h"
proof -
  have "vec_ok h' v (vec_contents h v)" if "v \<in> set us" for v
    by (rule vec_ok_kept [of h]) (use us(2) un that in \<open>auto simp: undisturbed_def vec_bufs_def\<close>)
  then have "\<forall>v \<in> set us. vec_contents h' v = vec_contents h v \<and> vec_ok h' v (vec_contents h' v)"
    using vec_ok_contents by metis
  then have vec: "map (vec_contents h') us = map (vec_contents h) us" "\<forall>v \<in> set us. vec_ok h' v (vec_contents h' v)"
    by (simp, blast)
  have "map (val_of h') xs = map (val_of h) xs" "statics h' = statics h"
    using un by (simp_all add: undisturbed_def statics_def val_of_def)
  then show ?thesis
    using inv us(1) nv vec by (simp add: world_ok_def values_of_def apart_append ball_Un)
qed

lemma leave_simulates:
  assumes op: "op_ok h (mset xs) (vec_bufs us) r ys"
    and us: "apart us" "\<forall>v \<in> set us. vec_ok h v (vec_contents h v)"
  shows "simulates h (leave w xs us r) (spec_leave (map (val_of h) xs) (map (vec_contents h) us) ys)"
proof -
  from op consider (panic) p where "r = Inl (Panic p)" "None \<in> set ys"
    | (ok) bs nv h' where "r = Inr (bs, nv, h')" "Some (map (val_of h') bs, map (vec_contents h') nv) \<in> set ys"
        "bytes_inv h' (mset bs + mset xs) (vec_bufs us \<union> vec_bufs nv)" "undisturbed h (mset xs) (vec_bufs us) h'"
        "apart nv" "vec_bufs us \<inter> vec_bufs nv = {}" "\<forall>v \<in> set nv. vec_ok h' v (vec_contents h' v)"
    unfolding op_ok_def by blast
  then show ?thesis
  proof cases
    case panic
    then show ?thesis by (force simp: simulates_def leave_def spec_leave_def)
  next
    case ok
    have "bytes_inv h' (mset (xs @ bs)) (vec_bufs (us @ nv))" using ok(3) by (simp add: add.commute)
    note new = world_okI [OF this ok(4) us ok(5,6,7)]
    have "Some (map (val_of h) xs @ map (val_of h') bs, map (vec_contents h) us @ map (vec_contents h') nv)
      \<in> set (spec_leave (map (val_of h) xs) (map (vec_contents h) us) ys)"
      unfolding spec_leave_def set_map by (rule image_eqI [OF _ ok(2)]) simp
    with new ok(1) show ?thesis by (simp add: simulates_def leave_def)
  qed
qed

lemma one_handle_ok:
  assumes "\<And>x h. val_of h (f x) = C (contents h (f x))" "Some ([C bs], []) \<in> set ys"
    and "\<exists>x h'. r = Inr (x, h') \<and> became h hs vs (f x) bs h'"
  shows "op_ok h hs vs (one_handle f r) ys"
  using assms by (fastforce simp: op_ok_def one_handle_def became_def)

lemma two_handles_ok:
  assumes "\<And>x h. val_of h (f x) = C (contents h (f x))" "\<And>x h. val_of h (g x) = D (contents h (g x))"
    and "Some ([D b, C a], []) \<in> set ys" "\<exists>ret x h'. r = Inr (ret, x, h') \<and> parted h hs vs (f ret) a (g x) b h'"
  shows "op_ok h hs vs (two_handles f g r) ys"
  using assms by (fastforce simp: op_ok_def two_handles_def parted_def add_mset_commute)

lemma one_vec_ok:
  assumes "Some ([], [contents h x]) \<in> set ys" "\<exists>v h'. r = Inr (v, h') \<and> to_vector h x hs vs v h'"
  shows "op_ok h hs vs (one_vec r) ys"
  using assms by (fastforce simp: op_ok_def one_vec_def to_vector_def vec_ok_contents Un_commute Int_commute)

lemma no_handle_ok:
  assumes "Some ([], []) \<in> set ys" "\<exists>h'. r = Inr h' \<and> dropped h hs vs h'"
  shows "op_ok h hs vs (no_handle r) ys"
  using assms by (fastforce simp: op_ok_def no_handle_def dropped_def)

lemmas one_bytes = one_handle_ok [where f = HB and C = VB, OF val_of_simps(1)]
  and one_mut = one_handle_ok [where f = HM and C = VM, OF val_of_simps(2)]
  and two_bytes = two_handles_ok [where f = HB and g = HB and C = VB and D = VB, OF val_of_simps(1) val_of_simps(1)]
  and two_muts = two_handles_ok [where f = HM and g = HM and C = VM and D = VM, OF val_of_simps(2) val_of_simps(2)]
  and bytes_and_mut = two_handles_ok [where f = HB and g = HM and C = VB and D = VM, OF val_of_simps(1) val_of_simps(2)]

lemma panic_ok:
  assumes "None \<in> set ys"
  shows "op_ok h hs vs (one_handle f (Inl (Panic p))) ys" "op_ok h hs vs (two_handles f' g (Inl (Panic p))) ys"
  using assms by (simp_all add: op_ok_def one_handle_def two_handles_def)

lemma unchanged_ok: "bytes_inv h (add_mset x hs) vs \<Longrightarrow> Some ([val_of h x], []) \<in> set ys \<Longrightarrow> op_ok h hs vs (Inr ([x], [], h)) ys"
  by (fastforce simp: op_ok_def)

section \<open>\<open>Bytes\<close>\<close>

context allocator_laws
begin

lemma slice_simulates:
  assumes inv: "bytes_inv h (add_mset (HB b) hs) vs" and few: "size hs < 2 ^ 63 - 1"
  shows "op_ok h hs vs (exec_bytes alloc (Op_slice lo hi) h b) (spec_bytes (Op_slice lo hi) (contents h (HB b)))"
proof -
  have len: "length (contents h (HB b)) = b_len b" using length_contents bytes_invD(3) [OF inv, of "HB b"] by simp
  have err: "\<exists>p. e = Panic p" if "range_begin x = Inl e \<or> range_end n x = Inl e" for e n x
    using that by (auto simp: range_begin_def range_end_def expect_def split: bound.splits option.splits)
  show ?thesis
  proof (cases "range_begin lo")
    case (Inl e)
    with err [of lo e 0] show ?thesis by (auto simp: op_ok_def two_handles_def bytes_slice_def spec_slice_def)
  next
    case i: (Inr i)
    show ?thesis
    proof (cases "range_end (b_len b) hi")
      case (Inl e)
      with i err [of hi e "b_len b"] len show ?thesis
        by (auto simp: op_ok_def two_handles_def bytes_slice_def spec_slice_def)
    next
      case j: (Inr j)
      show ?thesis
      proof (cases "i \<le> j \<and> j \<le> b_len b")
        case True
        with two_bytes [OF _ bytes_slice_ok [OF inv few i j]] i j len show ?thesis by (simp add: spec_slice_def)
      next
        case False
        with i j len show ?thesis
          by (auto simp: op_ok_def two_handles_def bytes_slice_def spec_slice_def rust_assert_def)
      qed
    qed
  qed
qed

lemma bytes_parts_simulate:
  assumes inv: "bytes_inv h (add_mset (HB b) hs) vs" and few: "size hs < 2 ^ 63 - 1"
  shows "op_ok h hs vs (exec_bytes alloc (Op_split_off n) h b) (spec_bytes (Op_split_off n) (contents h (HB b)))"
    "op_ok h hs vs (exec_bytes alloc (Op_split_to n) h b) (spec_bytes (Op_split_to n) (contents h (HB b)))"
    "op_ok h hs vs (exec_bytes alloc (Op_copy_to_bytes n) h b) (spec_bytes (Op_copy_to_bytes n) (contents h (HB b)))"
    "op_ok h hs vs (exec_bytes alloc (Op_advance n) h b) (spec_bytes (Op_advance n) (contents h (HB b)))"
proof -
  have len: "length (contents h (HB b)) = b_len b" using length_contents bytes_invD(3) [OF inv, of "HB b"] by simp
  show "op_ok h hs vs (exec_bytes alloc (Op_split_off n) h b) (spec_bytes (Op_split_off n) (contents h (HB b)))"
    "op_ok h hs vs (exec_bytes alloc (Op_split_to n) h b) (spec_bytes (Op_split_to n) (contents h (HB b)))"
    "op_ok h hs vs (exec_bytes alloc (Op_copy_to_bytes n) h b) (spec_bytes (Op_copy_to_bytes n) (contents h (HB b)))"
    using two_bytes [OF _ split_off_ok [OF inv few]] two_bytes [OF _ split_to_ok [OF inv few]] len
    by (auto simp: provided_def bytes_copy_to_bytes_def split_off_def split_to_def rust_assert_def intro!: panic_ok)
  show "op_ok h hs vs (exec_bytes alloc (Op_advance n) h b) (spec_bytes (Op_advance n) (contents h (HB b)))"
  proof (cases "n \<le> b_len b")
    case True
    from bytes_advance_ok [OF inv this] True len show ?thesis
      by (auto simp: provided_def became_def intro!: one_bytes)
  next
    case False
    then show ?thesis using len by (simp add: provided_def bytes_advance_def rust_assert_def panic_ok)
  qed
qed

lemma slice_ref_simulates:
  assumes inv: "bytes_inv h (add_mset (HB b) hs) vs" and few: "size hs < 2 ^ 63 - 1"
  shows "op_ok h hs vs (exec_bytes alloc (Op_slice_ref i n) h b) (spec_bytes (Op_slice_ref i n) (contents h (HB b)))"
proof -
  have len: "length (contents h (HB b)) = b_len b" using length_contents bytes_invD(3) [OF inv] by fastforce
  consider (empty) "n = 0" | (ok) "0 < n" "i + n \<le> b_len b" | (panic) "0 < n" "b_len b < i + n" by linarith
  then show ?thesis
  proof cases
    case empty
    have "bytes_inv h (add_mset (HB bytes_new) (add_mset (HB b) hs)) vs" using inv by simp
    with empty have "\<exists>ret b' h'. slice_ref alloc h b (wrapping_add (b_ptr b) i) n = Inr (ret, b', h') \<and>
      parted h hs vs (HB ret) [] (HB b') (contents h (HB b)) h'"
      by (auto simp: slice_ref_def parted_def bytes_new_ok)
    with empty show ?thesis by (auto intro!: two_bytes simp: provided_def)
  next
    case ok
    with slice_ref_ok [OF inv few refl ok(2)] len show ?thesis
      by (auto intro!: two_bytes simp: provided_def wrapping_add_def)
  next
    case panic
    with len show ?thesis
      by (simp add: slice_ref_def rust_assert_def wrapping_add_def addr_of_def provided_def two_handles_def op_ok_def)
  qed
qed

lemma exec_bytes_simulates:
  assumes inv: "bytes_inv h (add_mset (HB b) hs) vs" and few: "size hs < 2 ^ 63 - 2"
  shows "op_ok h hs vs (exec_bytes alloc op h b) (spec_bytes op (contents h (HB b)))"
proof -
  have few1: "size hs < 2 ^ 63 - 1" using few by simp
  have trunc: "\<exists>b' h'. bytes_truncate alloc h b n = Inr (b', h') \<and> became h hs vs (HB b') (take n (contents h (HB b))) h'" for n
    using bytes_truncate_ok [OF inv few, of n] by (simp add: became_def)
  have keep: "op_ok h hs vs (Inr ([HB b], [], h)) [Some ([VB (contents h (HB b))], [])]"
    by (rule unchanged_ok [OF inv]) simp
  show ?thesis
  proof (cases op)
    case Op_clone
    have "\<exists>c b' h'. bytes_clone alloc h b = Inr (c, b', h') \<and>
      parted h hs vs (HB c) (contents h (HB b)) (HB b') (contents h (HB b)) h'"
      using bytes_clone_ok [OF inv few1] by (auto simp: cloned_def parted_def)
    with Op_clone show ?thesis by (auto intro: two_bytes)
  next
    case Op_try_into_mut
    show ?thesis using inv few1
    proof (cases rule: try_into_mut_ok)
      case (mut m h')
      then show ?thesis using Op_try_into_mut by (fastforce simp: op_ok_def one_handle_def became_def)
    next
      case refused
      then show ?thesis using Op_try_into_mut inv by (fastforce simp: op_ok_def one_handle_def)
    qed
  next
    case Op_drop
    with no_handle_ok [OF _ bytes_drop_ok [OF inv few1]] show ?thesis by simp
  next
    case Op_into_vec
    with one_vec_ok [OF _ into_vec_ok [OF inv few1]] show ?thesis by simp
  next
    case Op_into_mut
    with one_mut [OF _ into_mut_ok [OF inv few1]] show ?thesis by simp
  next
    case Op_clear
    with one_bytes [OF _ trunc [of 0]] show ?thesis by (simp add: bytes_clear_def)
  next
    case (Op_truncate n)
    with one_bytes [OF _ trunc [of n]] show ?thesis by simp
  next
    case (Op_slice_ref i n)
    with slice_ref_simulates [OF inv few1] show ?thesis by simp
  qed (use keep slice_simulates [OF inv few1] bytes_parts_simulate [OF inv few1] in auto)
qed

section \<open>\<open>BytesMut\<close>\<close>

lemma appended_ok:
  assumes "appended h hs vs m bs r" "ys = [None, Some ([VM (contents h (HM m) @ bs)], [])]"
  shows "op_ok h hs vs (one_handle HM r) ys"
  using assms(1) unfolding appended_def
proof
  assume "\<exists>m' h'. r = Inr (m', h') \<and> became h hs vs (HM m') (contents h (HM m) @ bs) h'"
  from one_mut [OF _ this] assms(2) show ?thesis by simp
next
  assume "too_large r \<and> \<not> moderate h m (length bs)"
  then obtain p where "r = Inl (Panic p)" by (auto simp: too_large_def capacity_overflow_def)
  with assms(2) show ?thesis by (simp add: panic_ok)
qed

lemma mut_parts_simulate:
  assumes inv: "bytes_inv h (add_mset (HM m) hs) vs" and few: "size hs < 2 ^ 63 - 1"
  shows "op_ok h hs vs (exec_mut alloc (Op_split_off n) h m) (spec_mut (Op_split_off n) (contents h (HM m)))"
    "op_ok h hs vs (exec_mut alloc (Op_split_to n) h m) (spec_mut (Op_split_to n) (contents h (HM m)))"
    "op_ok h hs vs (exec_mut alloc (Op_copy_to_bytes n) h m) (spec_mut (Op_copy_to_bytes n) (contents h (HM m)))"
    "op_ok h hs vs (exec_mut alloc (Op_advance n) h m) (spec_mut (Op_advance n) (contents h (HM m)))"
proof -
  have ok: "handle_ok h (HM m)" using bytes_invD(3) [OF inv] by simp
  have len: "length (contents h (HM m)) = bm_len m" using length_contents [OF ok] by simp
  have cap: "bm_len m \<le> bm_cap m" using ok by (simp add: handle_ok_def)
  show "op_ok h hs vs (exec_mut alloc (Op_split_off n) h m) (spec_mut (Op_split_off n) (contents h (HM m)))"
  proof (cases "n \<le> bm_cap m")
    case True
    with two_muts [of "take n (contents h (HM m))" "drop n (contents h (HM m))"] bytes_mut_split_off_ok [OF inv few True]
    show ?thesis by auto
  next
    case False
    then show ?thesis using len cap by (simp add: bytes_mut_split_off_def rust_assert_def panic_ok)
  qed
  show "op_ok h hs vs (exec_mut alloc (Op_split_to n) h m) (spec_mut (Op_split_to n) (contents h (HM m)))"
  proof (cases "n \<le> bm_len m")
    case True
    with two_muts [of "drop n (contents h (HM m))" "take n (contents h (HM m))"] bytes_mut_split_to_ok [OF inv few True] len
    show ?thesis by (auto simp: provided_def)
  next
    case False
    then show ?thesis using len by (simp add: provided_def bytes_mut_split_to_def rust_assert_def panic_ok)
  qed
  show "op_ok h hs vs (exec_mut alloc (Op_copy_to_bytes n) h m) (spec_mut (Op_copy_to_bytes n) (contents h (HM m)))"
  proof (cases "n \<le> bm_len m")
    case True
    with bytes_and_mut [OF _ bytes_mut_copy_to_bytes_ok [OF inv few True]] len show ?thesis by (simp add: provided_def)
  next
    case False
    then show ?thesis using len
      by (simp add: provided_def bytes_mut_copy_to_bytes_def bytes_mut_split_to_def rust_assert_def panic_ok)
  qed
  show "op_ok h hs vs (exec_mut alloc (Op_advance n) h m) (spec_mut (Op_advance n) (contents h (HM m)))"
  proof (cases "n \<le> bm_len m")
    case True
    with one_mut [of "drop n (contents h (HM m))"] bytes_mut_advance_ok [OF inv True] len show ?thesis
      by (auto simp: provided_def)
  next
    case False
    then show ?thesis using len by (simp add: provided_def bytes_mut_advance_def rust_assert_def panic_ok)
  qed
qed

lemma mut_memory_simulates:
  assumes inv: "bytes_inv h (add_mset (HM m) hs) vs"
  shows "op_ok h hs vs (exec_mut alloc (Op_reserve n) h m) (spec_mut (Op_reserve n) (contents h (HM m)))"
    "op_ok h hs vs (exec_mut alloc (Op_try_reclaim n) h m) (spec_mut (Op_try_reclaim n) (contents h (HM m)))"
    "op_ok h hs vs (exec_mut alloc (Op_resize n val) h m) (spec_mut (Op_resize n val) (contents h (HM m)))"
    "op_ok h hs vs (exec_mut alloc (Op_index_mut n val) h m) (spec_mut (Op_index_mut n val) (contents h (HM m)))"
proof -
  have ok: "handle_ok h (HM m)" using bytes_invD(3) [OF inv] by simp
  have len: "length (contents h (HM m)) = bm_len m" using length_contents [OF ok] by simp
  show "op_ok h hs vs (exec_mut alloc (Op_reserve n) h m) (spec_mut (Op_reserve n) (contents h (HM m)))"
    using inv
  proof (cases rule: reserve_ok [where additional = n])
    case (ok m' h')
    with one_mut [of "contents h (HM m)"] show ?thesis by auto
  next
    case too_large
    then obtain p where "reserve alloc h m n = Inl (Panic p)" by (auto simp: too_large_def capacity_overflow_def)
    then show ?thesis by (simp add: panic_ok)
  qed
  show "op_ok h hs vs (exec_mut alloc (Op_try_reclaim n) h m) (spec_mut (Op_try_reclaim n) (contents h (HM m)))"
    using inv
  proof (cases rule: try_reclaim_ok [where additional = n])
    case (yes m' h')
    with one_mut [of "contents h (HM m)"] show ?thesis by auto
  next
    case no
    with one_mut [of "contents h (HM m)"] inv show ?thesis by (auto simp: became_def)
  qed
  show "op_ok h hs vs (exec_mut alloc (Op_resize n val) h m) (spec_mut (Op_resize n val) (contents h (HM m)))"
  proof (cases "n < bm_len m")
    case True
    with one_mut [of "take n (contents h (HM m))"] resize_shrink_ok [OF inv True, of val] len show ?thesis by auto
  next
    case False
    then have "bm_len m \<le> n" by simp
    from appended_ok [OF resize_grow_ok [OF inv this]] False len show ?thesis by simp
  qed
  show "op_ok h hs vs (exec_mut alloc (Op_index_mut n val) h m) (spec_mut (Op_index_mut n val) (contents h (HM m)))"
  proof (cases "n < bm_len m")
    case True
    with one_mut [of "(contents h (HM m))[n := val]"] index_mut_ok [OF inv True, of val] len show ?thesis
      by (auto simp: provided_def)
  next
    case False
    then have "index_mut h m n val = Inl (Panic Slice_index)"
      using read_contents(2) [OF ok] len by (simp add: index_mut_def bytes_mut_as_slice_def)
    then show ?thesis using False len by (simp add: provided_def panic_ok)
  qed
qed

lemma exec_mut_simulates:
  assumes inv: "bytes_inv h (add_mset (HM m) hs) vs" and few: "size hs < 2 ^ 63 - 1"
  shows "op_ok h hs vs (exec_mut alloc op h m) (spec_mut op (contents h (HM m)))"
proof -
  have keep: "op_ok h hs vs (Inr ([HM m], [], h)) [Some ([VM (contents h (HM m))], [])]"
    by (rule unchanged_ok [OF inv]) simp
  show ?thesis
  proof (cases op)
    case Op_clone
    have "\<exists>c m' h'. res_bind (bytes_mut_clone alloc h m) (\<lambda>(c, h). Inr (c, m, h)) = Inr (c, m', h') \<and>
      parted h hs vs (HM c) (contents h (HM m)) (HM m') (contents h (HM m)) h'"
      using bytes_mut_clone_ok [OF inv] by auto
    with Op_clone two_muts [OF _ this] show ?thesis by simp
  next
    case Op_drop
    with no_handle_ok [OF _ bytes_mut_drop_ok [OF inv]] show ?thesis by simp
  next
    case Op_into_vec
    with one_vec_ok [OF _ bytes_mut_into_vec_ok [OF inv]] show ?thesis by simp
  next
    case Op_freeze
    with one_bytes [OF _ freeze_ok [OF inv]] show ?thesis by simp
  next
    case Op_clear
    with one_mut [of "[]"] bytes_mut_clear_ok [OF inv] show ?thesis by auto
  next
    case (Op_truncate n)
    with one_mut [of "take n (contents h (HM m))"] bytes_mut_truncate_ok [OF inv, of n] show ?thesis by auto
  next
    case (Op_extend_from_slice bs)
    with appended_ok [OF bytes_mut_extend_from_slice_ok [OF inv]] show ?thesis by simp
  next
    case (Op_put_bytes val n)
    with appended_ok [OF bytes_mut_put_bytes_ok [OF inv]] show ?thesis by simp
  qed (use keep mut_parts_simulate [OF inv few] mut_memory_simulates [OF inv] in auto)
qed

lemma unsplit_simulates:
  assumes inv: "bytes_inv h (add_mset x (add_mset y hs)) vs"
  shows "op_ok h hs vs (leave_unsplit alloc h x y) (spec_unsplit (val_of h x) (val_of h y))"
proof (cases "is_mut x \<and> is_mut y")
  case False
  then have "leave_unsplit alloc h x y = Inr ([x, y], [], h)" "spec_unsplit (val_of h x) (val_of h y) = [Some ([val_of h x, val_of h y], [])]"
    by (cases x; cases y; simp add: leave_unsplit_def)+
  then show ?thesis using inv by (simp add: op_ok_def add_mset_commute)
next
  case True
  then obtain m m' where xy: "x = HM m" "y = HM m'" by (cases x; cases y; simp)
  from unsplit_ok [of h m m' hs vs] inv xy consider
      (ok) "\<exists>r h'. unsplit alloc h m m' = Inr (r, h') \<and> became h hs vs (HM r) (contents h (HM m) @ contents h (HM m')) h'"
    | (large) "too_large (unsplit alloc h m m')" by blast
  then show ?thesis
  proof cases
    case ok
    from one_mut [OF _ ok] xy show ?thesis by (simp add: leave_unsplit_def)
  next
    case large
    then obtain p where "unsplit alloc h m m' = Inl (Panic p)" by (auto simp: too_large_def capacity_overflow_def)
    with xy show ?thesis by (simp add: leave_unsplit_def panic_ok)
  qed
qed

section \<open>Every operation\<close>

lemma new_handle_simulates:
  assumes w: "world_ok w"
    and op: "\<And>hs vs. bytes_inv (w_heap w) hs vs \<Longrightarrow> op_ok (w_heap w) hs vs r ys"
  shows "simulates (w_heap w) (leave w (w_handles w) (w_vecs w) r) (spec_leave (fst (values_of w)) (snd (values_of w)) ys)"
  using leave_simulates [OF op, of "w_handles w" "w_vecs w"] w by (simp add: world_ok_def values_of_def)

lemma with_capacity_simulates:
  assumes inv: "bytes_inv h hs vs"
  shows "op_ok h hs vs (one_handle HM (with_capacity alloc h n)) (provided (n \<le> isize_max) ([VM []], []))"
    "op_ok h hs vs (one_handle HM (zeroed alloc h n)) (provided (n \<le> isize_max) ([VM (replicate n 0)], []))"
proof -
  show "op_ok h hs vs (one_handle HM (with_capacity alloc h n)) (provided (n \<le> isize_max) ([VM []], []))"
  proof (cases "n \<le> isize_max")
    case True
    with one_mut [of "[]"] with_capacity_ok [OF inv True] show ?thesis by (auto simp: provided_def)
  next
    case False
    then show ?thesis by (simp add: provided_def with_capacity_def vec_with_capacity_def capacity_overflow_def panic_ok)
  qed
  show "op_ok h hs vs (one_handle HM (zeroed alloc h n)) (provided (n \<le> isize_max) ([VM (replicate n 0)], []))"
  proof (cases "n \<le> isize_max")
    case True
    with one_mut [of "replicate n 0"] zeroed_ok [OF inv True] show ?thesis by (auto simp: provided_def)
  next
    case False
    then show ?thesis by (simp add: provided_def zeroed_def capacity_overflow_def panic_ok)
  qed
qed

text \<open>A vector turns into a handle: \<open>Bytes::from(v)\<close> and \<open>Bytes::from_owner(v)\<close>.\<close>

lemma from_owner_vec_ok:
  assumes inv: "bytes_inv h hs vs" and v: "vec_ok h v bs" "vec_buf v \<subseteq> vs"
  shows "\<exists>b h'. from_owner_vec alloc h v = Inr (b, h') \<and> became h hs (vs - vec_buf v) (HB b) bs h'"
proof -
  have own: "set_option (vec_owner v) = vec_buf v" by (simp add: vec_owner_def vec_buf_def)
  have "hv_cap v \<noteq> 0 \<Longrightarrow> blk (hv_ptr v) \<noteq> 0" using v block_nonzero [OF inv] by (auto simp: vec_ok_def)
  with v have p: "vec_owner v = (if blk (hv_ptr v) = 0 then None else Some (blk (hv_ptr v)))"
    and bs: "heap_read h (hv_ptr v) (hv_len v) = Inr bs"
    by (auto simp: vec_owner_def vec_ok_def dangling_def)
  have "set_option (vec_owner v) \<subseteq> vs" using own v(2) by simp
  from from_owner_ok [OF inv this _ p bs, of "\<lambda>h owner. Inr (hv_ptr v, hv_len v)"] show ?thesis
    by (auto simp: from_owner_vec_def became_def own)
qed

lemma from_vec_simulates:
  assumes w: "world_ok w" and j: "j < length (w_vecs w)"
    and conv: "\<And>hs vs. bytes_inv (w_heap w) hs vs \<Longrightarrow> vec_buf (w_vecs w ! j) \<subseteq> vs \<Longrightarrow>
      \<exists>b h'. r = Inr (b, h') \<and> became (w_heap w) hs (vs - vec_buf (w_vecs w ! j)) (HB b)
        (vec_contents (w_heap w) (w_vecs w ! j)) h'"
  shows "simulates (w_heap w) (leave w (w_handles w) (others j (w_vecs w)) (one_handle HB r))
    (spec_leave (fst (values_of w)) (others j (snd (values_of w))) [Some ([VB (snd (values_of w) ! j)], [])])"
proof -
  let ?h = "w_heap w" and ?v = "w_vecs w ! j" and ?us = "others j (w_vecs w)"
  from w have inv: "bytes_inv ?h (mset (w_handles w)) (vec_bufs (w_vecs w))" and ap: "apart (w_vecs w)"
    by (simp_all add: world_ok_def)
  note us = apart_others [OF j ap]
  have "vec_bufs (w_vecs w) - vec_buf ?v = vec_bufs ?us" using us(2,3) by auto
  with conv [OF inv] us(2) have "\<exists>b h'. r = Inr (b, h') \<and>
    became ?h (mset (w_handles w)) (vec_bufs ?us) (HB b) (vec_contents ?h ?v) h'" by simp
  from one_bytes [OF _ this, of "[Some ([VB (vec_contents ?h ?v)], [])]"]
  have op: "op_ok ?h (mset (w_handles w)) (vec_bufs ?us) (one_handle HB r) [Some ([VB (vec_contents ?h ?v)], [])]"
    by simp
  have "\<forall>v \<in> set ?us. vec_ok ?h v (vec_contents ?h v)"
    using w by (auto simp: world_ok_def dest: subsetD [OF others_simps(3)])
  from leave_simulates [OF op us(1) this] j show ?thesis by (simp add: values_of_def)
qed

lemma vec_ops_simulate:
  assumes w: "world_ok w"
  shows "simulates (w_heap w) (exec alloc (Op_from_vec j) w) (spec_exec (Op_from_vec j) (values_of w))"
    "simulates (w_heap w) (exec alloc (Op_from_owner j) w) (spec_exec (Op_from_owner j) (values_of w))"
proof -
  let ?h = "w_heap w" and ?v = "w_vecs w ! j"
  have vok: "vec_ok ?h ?v (vec_contents ?h ?v)" if "j < length (w_vecs w)" using w that by (simp add: world_ok_def)
  have len: "length (snd (values_of w)) = length (w_vecs w)" by (simp add: values_of_def)
  have conv: "\<exists>b h'. from_vec alloc ?h ?v = Inr (b, h') \<and> became ?h hs (vs - vec_buf ?v) (HB b) (vec_contents ?h ?v) h'"
    if "j < length (w_vecs w)" "bytes_inv ?h hs vs" "vec_buf ?v \<subseteq> vs" for hs vs
    using from_vec_ok [OF that(2) vok that(3)] that(1) by (simp add: became_def)
  show "simulates ?h (exec alloc (Op_from_vec j) w) (spec_exec (Op_from_vec j) (values_of w))"
  proof (cases "j < length (w_vecs w)")
    case True
    with from_vec_simulates [OF w True conv] len show ?thesis by simp
  next
    case False
    with simulates_skip [OF w] len show ?thesis by simp
  qed
  show "simulates ?h (exec alloc (Op_from_owner j) w) (spec_exec (Op_from_owner j) (values_of w))"
  proof (cases "j < length (w_vecs w)")
    case True
    with from_vec_simulates [OF w True from_owner_vec_ok [OF _ vok]] len show ?thesis by simp
  next
    case False
    with simulates_skip [OF w] len show ?thesis by simp
  qed
qed

lemma from_static_ok:
  assumes "h a = Some (Static bs)" "h 0 = None"
  shows "handle_ok h (HB (from_static (Ptr a 0) (length bs)))" "key (HB (from_static (Ptr a 0) (length bs))) = None"
    "contents h (HB (from_static (Ptr a 0) (length bs))) = bs"
proof -
  from assms have a: "0 < a" by (auto intro: gr0I)
  have "None \<notin> set (map Some bs)" by auto
  with assms a have "heap_read h (Ptr a 0) (length bs) = Inr bs"
    by (simp add: heap_read_def cells_of_def addr_of_def comp_def)
  with assms a show "handle_ok h (HB (from_static (Ptr a 0) (length bs)))" "key (HB (from_static (Ptr a 0) (length bs))) = None"
    "contents h (HB (from_static (Ptr a 0) (length bs))) = bs"
    by (auto simp: from_static_def handle_ok_def contents_def h_slice_def addr_of_def)
qed

lemma from_static_simulates:
  assumes inv: "bytes_inv h hs vs" and st: "h a = Some (Static bs)"
  shows "op_ok h hs vs (Inr ([HB (from_static (Ptr a 0) (length bs))], [], h)) [Some ([VB bs], [])]"
proof -
  note ok = from_static_ok [OF st bytes_invD(2) [OF inv]]
  have "bytes_inv h (add_mset (HB (from_static (Ptr a 0) (length bs))) hs) vs" using inv_keyless [OF ok(2,1)] inv by simp
  from unchanged_ok [OF this] ok(3) show ?thesis by simp
qed

lemma unsplit_op_simulates:
  assumes w: "world_ok w"
  shows "simulates (w_heap w) (exec alloc (Op_unsplit i j) w) (spec_exec (Op_unsplit i j) (values_of w))"
proof -
  let ?h = "w_heap w" and ?xs = "w_handles w" and ?vs = "w_vecs w" and ?ys = "others i (w_handles w)"
  from w have inv: "bytes_inv ?h (mset ?xs) (vec_bufs ?vs)" and us: "apart ?vs" "\<forall>v \<in> set ?vs. vec_ok ?h v (vec_contents ?h v)"
    by (simp_all add: world_ok_def)
  show ?thesis
  proof (cases "i < length ?xs \<and> j < length ?ys")
    case True
    then have "mset ?xs = add_mset (?xs ! i) (add_mset (?ys ! j) (mset (others j ?ys)))" using mset_others by metis
    with inv have "bytes_inv ?h (add_mset (?xs ! i) (add_mset (?ys ! j) (mset (others j ?ys)))) (vec_bufs ?vs)" by simp
    from leave_simulates [OF unsplit_simulates [OF this] us, of w] True show ?thesis
      by (auto simp: values_of_def nth_map Let_def simp flip: others_simps(1))
  next
    case False
    then have "spec_exec (Op_unsplit i j) (values_of w) = [Some (values_of w)]" by (auto simp: values_of_def Let_def)
    moreover have "exec alloc (Op_unsplit i j) w = Inr w" unfolding exec.simps Let_def using False by (simp only: if_False)
    ultimately show ?thesis using simulates_skip [OF w] by simp
  qed
qed

lemma handle_op_simulates:
  assumes w: "world_ok w" and few: "length (w_handles w) < 2 ^ 63 - 1"
  shows "simulates (w_heap w) (exec alloc (On i hop) w) (spec_exec (On i hop) (values_of w))"
proof -
  let ?h = "w_heap w" and ?xs = "w_handles w" and ?vs = "w_vecs w"
  from w have inv: "bytes_inv ?h (mset ?xs) (vec_bufs ?vs)" and us: "apart ?vs" "\<forall>v \<in> set ?vs. vec_ok ?h v (vec_contents ?h v)"
    by (simp_all add: world_ok_def)
  show ?thesis
  proof (cases "i < length ?xs")
    case True
    let ?x = "?xs ! i" and ?hs = "mset (others i ?xs)"
    have inv': "bytes_inv ?h (add_mset ?x ?hs) (vec_bufs ?vs)" using inv mset_others [OF True] by simp
    have "size ?hs < 2 ^ 63 - 2" using True few by simp
    then have "op_ok ?h ?hs (vec_bufs ?vs) (exec_handle alloc hop ?h ?x) (spec_handle hop (val_of ?h ?x))"
      using exec_bytes_simulates [of ?h _ ?hs "vec_bufs ?vs"] exec_mut_simulates [of ?h _ ?hs "vec_bufs ?vs"] inv'
      by (cases ?x) simp_all
    from leave_simulates [OF this us, of w] True show ?thesis by (simp add: values_of_def)
  next
    case False
    then have "spec_exec (On i hop) (values_of w) = [Some (values_of w)]" by (simp add: values_of_def)
    with False simulates_skip [OF w] show ?thesis by simp
  qed
qed

lemma exec_simulates:
  assumes w: "world_ok w" and few: "length (w_handles w) < 2 ^ 63 - 1" and op: "sized st op"
    and st: "\<And>a bs. st a = Some bs \<Longrightarrow> w_heap w a = Some (Static bs)"
  shows "simulates (w_heap w) (exec alloc op w) (spec_exec op (values_of w))"
proof -
  let ?h = "w_heap w"
  show ?thesis
  proof (cases op)
    case Op_new
    show ?thesis unfolding Op_new exec.simps spec_exec.simps
      by (rule new_handle_simulates [OF w]) (simp add: unchanged_ok bytes_new_ok)
  next
    case (Op_copy_from_slice data)
    then have "\<exists>b h'. bytes_copy_from_slice alloc ?h data = Inr (b, h') \<and> became ?h hs vs (HB b) data h'"
      if "bytes_inv ?h hs vs" for hs vs
      using bytes_copy_from_slice_ok [OF that, of data] op by (simp add: became_def)
    then show ?thesis unfolding Op_copy_from_slice exec.simps spec_exec.simps
      by (intro new_handle_simulates [OF w] one_bytes [where bs = data]) simp_all
  next
    case (Op_mut_from_slice data)
    then show ?thesis unfolding Op_mut_from_slice exec.simps spec_exec.simps
      using bytes_mut_from_slice_ok [of ?h _ _ data] op Op_mut_from_slice
      by (intro new_handle_simulates [OF w] one_mut [where bs = data]) simp_all
  next
    case (Op_from_static a bs)
    with st op have h: "?h a = Some (Static bs)" by simp
    show ?thesis unfolding Op_from_static exec.simps spec_exec.simps
      by (rule new_handle_simulates [OF w]) (rule from_static_simulates, assumption, rule h)
  next
    case (Op_from_vec j)
    with vec_ops_simulate [OF w] show ?thesis by simp
  next
    case (Op_from_owner j)
    with vec_ops_simulate [OF w] show ?thesis by simp
  next
    case (Op_unsplit i j)
    with unsplit_op_simulates [OF w] show ?thesis by simp
  next
    case (On i hop)
    with handle_op_simulates [OF w few] show ?thesis by simp
  qed (simp_all add: new_handle_simulates [OF w] with_capacity_simulates)
qed

section \<open>Runs\<close>

lemma spec_exec_grows: "Some t \<in> set (spec_exec op s) \<Longrightarrow> length (fst t) \<le> Suc (length (fst s))"
proof (cases op)
  case (Op_unsplit i j)
  assume "Some t \<in> set (spec_exec op s)"
  with Op_unsplit show ?thesis
    by (cases "(fst s ! i, others i (fst s) ! j)" rule: spec_unsplit.cases)
      (auto simp: spec_leave_def Let_def split: if_splits)
next
  case (On i hop)
  have two: "length (fst y) \<le> 2" if "Some y \<in> set (spec_handle hop x)" for x y
    using that by (cases x; cases hop) (auto simp: provided_def split: if_splits dest!: sym [of "Some y"])
  assume t: "Some t \<in> set (spec_exec op s)"
  show ?thesis
  proof (cases "i < length (fst s)")
    case True
    with t On obtain y where "Some y \<in> set (spec_handle hop (fst s ! i))" "fst t = others i (fst s) @ fst y"
      by (auto simp: spec_leave_def image_iff map_option_case split: option.splits)
    with two True show ?thesis by fastforce
  qed (use t On in simp)
qed (auto simp: spec_leave_def provided_def split: if_splits)

lemma run_simulates:
  assumes "world_ok w" "length (w_handles w) + length ops < 2 ^ 63" "\<forall>op \<in> set ops. sized st op"
    and "\<And>a bs. st a = Some bs \<Longrightarrow> w_heap w a = Some (Static bs)"
  shows "simulates (w_heap w) (run alloc ops w) (spec_run ops (values_of w))"
  using assms
proof (induction ops arbitrary: w)
  case Nil
  then show ?case by (simp add: simulates_skip)
next
  case (Cons op ops)
  then have "simulates (w_heap w) (exec alloc op w) (spec_exec op (values_of w))"
    by (intro exec_simulates [where st = st]) simp_all
  then consider (panic) p where "exec alloc op w = Inl (Panic p)" "None \<in> set (spec_exec op (values_of w))"
    | (ok) w' where "exec alloc op w = Inr w'" "Some (values_of w') \<in> set (spec_exec op (values_of w))" "world_ok w'"
        "statics (w_heap w') = statics (w_heap w)" unfolding simulates_def by blast
  then show ?case
  proof cases
    case panic
    then show ?thesis by (force simp: simulates_def)
  next
    case ok
    have "length (w_handles w') \<le> Suc (length (w_handles w))"
      using spec_exec_grows [OF ok(2)] by (simp add: values_of_def)
    moreover have "w_heap w' a = Some (Static bs)" if "st a = Some bs" for a bs
      using ok(4) Cons.prems(4) [OF that] by (auto simp: statics_def)
    ultimately have "simulates (w_heap w') (run alloc ops w') (spec_run ops (values_of w'))"
      using Cons.prems(2,3) by (intro Cons.IH [OF ok(3)]) simp_all
    moreover have "set (spec_run ops (values_of w')) \<subseteq> set (spec_run (op # ops) (values_of w))"
      using ok(2) by force
    ultimately show ?thesis using ok(1) simulates_statics [OF ok(4)] by (auto simp: simulates_def)
  qed
qed

end

text \<open>A program starts with its static data and nothing else.\<close>

definition start_world :: "static_data \<Rightarrow> world" where
  "start_world st = \<lparr>w_heap = (\<lambda>a. map_option Static (st a)), w_handles = [], w_vecs = []\<rparr>"

lemma start_world_ok:
  assumes "static_ok st"
  shows "world_ok (start_world st)" "values_of (start_world st) = ([], [])"
proof -
  have "dom (\<lambda>a. map_option Static (st a)) = dom st" by auto
  with assms show "world_ok (start_world st)" "values_of (start_world st) = ([], [])"
    by (auto simp: start_world_def world_ok_def values_of_def bytes_inv_def separate_def no_leak_def static_ok_def
        vec_bufs_def cells_of_def ran_def intro!: boundedI)
qed

lemma start_run_simulates:
  assumes "allocator_laws alloc" "static_ok st" "length ops < 2 ^ 63" "\<forall>op \<in> set ops. sized st op"
  shows "simulates (w_heap (start_world st)) (run alloc ops (start_world st)) (spec_run ops ([], []))"
  using allocator_laws.run_simulates [OF assms(1) start_world_ok(1) [OF assms(2)] _ assms(4)] assms(3)
  by (simp add: start_world_def start_world_ok(2) [OF assms(2), unfolded start_world_def])

end
