(* ===== verification/Bytes_Theorems.thy ===== *)
theory Bytes_Theorems
  imports Bytes_Machine
begin

unbundle bit_operations_syntax

text \<open>
  The properties of \<open>Bytes\<close>: whole runs of \<open>Bytes\<close> and \<open>BytesMut\<close> against the specification
  without memory, and the single operations against the invariant of all handles.
\<close>

section \<open>An example\<close>

text \<open>A heap with one buffer, owned by a vector or by one handle\<close>

definition example_heap :: heap where
  "example_heap = [2 \<mapsto> Buffer [Some 7, Some 8, Some 9]]"

definition example_bytes :: bytes where
  "example_bytes = from_boxed_slice (Ptr 2 0) 3"

definition example_vec :: hvec where
  "example_vec = \<lparr>hv_ptr = Ptr 2 0, hv_len = 3, hv_cap = 3\<rparr>"

lemma example_read: "heap_read example_heap (Ptr 2 0) 3 = Inr [7, 8, 9]"
  by (simp add: heap_read_def cells_of_def example_heap_def)

lemma example_vec_inv: "bytes_inv example_heap {#} {2}"
  by (auto simp: bytes_inv_def example_heap_def separate_def no_leak_def bounded_def cells_of_def isize_max_def split: if_splits)

lemma example_inv: "bytes_inv example_heap {#HB example_bytes#} {}" "contents example_heap (HB example_bytes) = [7, 8, 9]"
  using from_boxed_slice_ok [OF example_vec_inv, of 2 "[Some 7, Some 8, Some 9]" 3] example_read
  by (simp_all add: example_heap_def example_bytes_def)

lemma example_fields: "b_len example_bytes = 3" "b_ptr example_bytes = Ptr 2 0" "b_vtable example_bytes = PROMOTABLE_EVEN_VTABLE"
  by (simp_all add: example_bytes_def from_boxed_slice_def addr_of_def)

section \<open>Runs\<close>

text \<open>
  C24. Handles behave like independent lists of bytes. Any sequence of operations on any
  number of \<open>Bytes\<close>, \<open>BytesMut\<close> and vectors (constructors, static data and owners included,
  \<open>clone\<close>, \<open>drop\<close>, \<open>slice\<close>, \<open>slice_ref\<close>, the three splits, \<open>truncate\<close>, \<open>clear\<close>, \<open>advance\<close>,
  \<open>copy_to_bytes\<close>, \<open>freeze\<close>, \<open>unsplit\<close>, growing and writing, and all conversions) ends with
  values that the specification without memory allows, and panics only when it does. There is no
  undefined behaviour (no use after free, no double free, no access out of bounds, no
  uninitialised byte read) and no abort, with shared, promoted, reclaimed and moved buffers, and a
  write through one handle is never seen by another. (Fewer than \<open>2^63\<close> operations, for the
  reference counts, slices of at most \<open>isize::MAX\<close> bytes, and an allocator that always finds
  memory. \<open>st\<close> is the static data of the program; an owner is a vector.)
\<close>

theorem bytes_run_refines:
  assumes "allocator_laws alloc" "static_ok st" "length ops < 2 ^ 63" "\<forall>op \<in> set ops. sized st op"
  shows "case run alloc ops (start_world st) of
      Inl e \<Rightarrow> (\<exists>p. e = Panic p) \<and> None \<in> set (spec_run ops ([], []))
    | Inr w \<Rightarrow> Some (values_of w) \<in> set (spec_run ops ([], []))"
  using start_run_simulates [OF assms] by (auto simp: simulates_def)

definition example_ops :: "bytes_op list" where
  "example_ops = [Op_mut_from_slice [1, 2, 3, 4], On 0 (Op_split_off 1), On 1 (Op_index_mut 0 9), On 1 Op_freeze,
     On 1 Op_clone, On 2 (Op_truncate 2), On 1 Op_drop, On 1 Op_into_vec, Op_from_owner 0, Op_from_static 4 [5, 6],
     On 1 (Op_slice_ref 1 1)]"

lemma example_spec: "spec_run example_ops ([], []) = [Some ([VM [1], VB [5, 6], VB [9, 3], VB [3]], [])]"
  by (simp add: example_ops_def spec_leave_def provided_def others_def)

theorem bytes_run_refines_witness:
  "\<exists>w. run bump example_ops (start_world [4 \<mapsto> [5, 6]]) = Inr w \<and>
    values_of w = ([VM [1], VB [5, 6], VB [9, 3], VB [3]], [])"
proof -
  have "static_ok [4 \<mapsto> [5, 6]]" "\<forall>op \<in> set example_ops. sized [4 \<mapsto> [5, 6]] op" "length example_ops < 2 ^ 63"
    by (simp_all add: static_ok_def example_ops_def isize_max_def)
  from bytes_run_refines [OF bump.allocator_laws_axioms this(1,3,2)] example_spec show ?thesis
    by (cases "run bump example_ops (start_world [4 \<mapsto> [5, 6]])") auto
qed

text \<open>
  C25. Memory is freed exactly once and completely: when a run has dropped all handles, what
  is still allocated are the buffers that the vectors own, and the static data of the program.
\<close>

theorem bytes_run_no_leak:
  assumes "allocator_laws alloc" "static_ok st" "length ops < 2 ^ 63" "\<forall>op \<in> set ops. sized st op"
    and "run alloc ops (start_world st) = Inr w" "w_handles w = []"
  shows "dom (w_heap w) = vec_bufs (w_vecs w) \<union> dom st"
proof -
  from start_run_simulates [OF assms(1-4)] assms(5)
  have w: "world_ok w" and "statics (w_heap w) = statics (w_heap (start_world st))" by (auto simp: simulates_def)
  then have st: "w_heap w a = Some (Static bs) \<longleftrightarrow> st a = Some bs" for a bs
    by (auto simp: statics_def start_world_def set_eq_iff)
  have inv: "bytes_inv (w_heap w) {#} (vec_bufs (w_vecs w))" using w assms(6) by (simp add: world_ok_def)
  have "a \<in> vec_bufs (w_vecs w) \<union> dom st" if "w_heap w a = Some x" for a x
    using bytes_invD(7) [OF inv] that st by (fastforce simp: no_leak_def)
  moreover have "w_heap w a \<noteq> None" if "a \<in> vec_bufs (w_vecs w) \<union> dom st" for a
    using bytes_invD(6) [OF inv] that st by (fastforce simp: separate_def)
  ultimately show ?thesis by blast
qed

definition drop_ops :: "bytes_op list" where
  "drop_ops = [Op_mut_from_slice [1, 2, 3], On 0 (Op_split_to 1), On 0 Op_freeze, On 1 Op_clone, On 0 Op_drop, On 0 Op_drop,
     On 0 Op_into_vec, Op_from_owner 0, On 0 Op_clone, On 0 Op_drop, On 0 Op_drop, Op_from_static 4 [5, 6], On 0 Op_drop]"

theorem bytes_run_no_leak_witness:
  "\<exists>w. run bump drop_ops (start_world [4 \<mapsto> [5, 6]]) = Inr w \<and> dom (w_heap w) = {4}"
proof -
  have ops: "static_ok [4 \<mapsto> [5, 6]]" "length drop_ops < 2 ^ 63" "\<forall>op \<in> set drop_ops. sized [4 \<mapsto> [5, 6]] op"
    by (simp_all add: static_ok_def drop_ops_def isize_max_def)
  have "spec_run drop_ops ([], []) = [Some ([], [])]"
    by (simp add: drop_ops_def spec_leave_def provided_def others_def)
  with start_run_simulates [OF bump.allocator_laws_axioms ops] obtain w where
    w: "run bump drop_ops (start_world [4 \<mapsto> [5, 6]]) = Inr w" "values_of w = ([], [])"
    by (auto simp: simulates_def)
  then have "w_handles w = []" "w_vecs w = []" by (simp_all add: values_of_def)
  with bytes_run_no_leak [OF bump.allocator_laws_axioms ops w(1)] have "dom (w_heap w) = {4}" by simp
  with w(1) show ?thesis by blast
qed

section \<open>Sharing\<close>

text \<open>
  C26. \<open>Bytes::clone\<close>, for every vtable (static, owned, promotable before and after promotion,
  shared): the clone points to the same bytes as the original, no byte is copied, the original
  keeps its pointer and length (its data pointer changes when it is promoted), the reference
  counts again count the handles, and nothing else changes.
\<close>

theorem clone_shares_memory:
  assumes "allocator_laws alloc" "bytes_inv h (add_mset (HB b) hs) vs" "size hs < 2 ^ 63 - 1"
  shows "\<exists>c b' h'. bytes_clone alloc h b = Inr (c, b', h') \<and>
    bytes_inv h' (add_mset (HB c) (add_mset (HB b') hs)) vs \<and>
    b_ptr c = b_ptr b \<and> b_len c = b_len b \<and> b_ptr b' = b_ptr b \<and> b_len b' = b_len b \<and>
    contents h' (HB c) = contents h (HB b) \<and> contents h' (HB b') = contents h (HB b) \<and> undisturbed h hs vs h'"
  using allocator_laws.bytes_clone_ok [OF assms] by (fastforce simp: cloned_def)

theorem clone_shares_memory_witness:
  "\<exists>c b' h'. bytes_clone bump example_heap example_bytes = Inr (c, b', h') \<and>
    bytes_inv h' {#HB c, HB b'#} {} \<and> b_ptr c = Ptr 2 0 \<and> contents h' (HB c) = [7, 8, 9] \<and> contents h' (HB b') = [7, 8, 9]"
  using clone_shares_memory [OF bump.allocator_laws_axioms, of example_heap example_bytes "{#}" "{}"]
  by (auto simp: example_inv example_fields)

text \<open>
  \<open>Bytes::drop\<close>, for every vtable: it returns, the invariant holds of the remaining
  handles, so that memory without a handle is gone and memory with one is not, and their contents
  are unchanged.
\<close>

theorem drop_releases:
  assumes "bytes_inv h (add_mset (HB b) hs) vs" "size hs < 2 ^ 63 - 1"
  shows "\<exists>h'. bytes_drop h b = Inr h' \<and> bytes_inv h' hs vs \<and> undisturbed h hs vs h'"
  using bytes_drop_ok [OF assms] by (simp add: dropped_def)

theorem drop_releases_witness:
  "\<exists>h'. bytes_drop example_heap example_bytes = Inr h' \<and> bytes_inv h' {#} {}"
  using drop_releases [of example_heap example_bytes "{#}" "{}"] by (auto simp: example_inv)

text \<open>
  C28. \<open>Bytes::is_unique\<close> is exact for memory that \<open>Bytes\<close> allocated itself: it is true if
  and only if no other live handle refers to the same memory. For static data and for
  \<open>from_owner\<close> it is always false.
\<close>

theorem is_unique_exact:
  assumes "bytes_inv h (add_mset (HB b) hs) vs"
  shows "is_unique h b = Inr (b_vtable b \<noteq> STATIC_VTABLE \<and> b_vtable b \<noteq> OWNED_VTABLE \<and> (\<forall>c \<in># hs. key c \<noteq> key (HB b)))"
  using is_unique_iff [OF assms] .

theorem is_unique_exact_witness: "is_unique example_heap example_bytes = Inr True"
  using is_unique_exact [of example_heap example_bytes "{#}" "{}"] by (simp add: example_inv example_fields)

section \<open>Vectors and owners\<close>

lemma map_Some_the: "None \<notin> set xs \<Longrightarrow> map (Some \<circ> the) xs = xs"
  by (induction xs) auto

lemma copy_in_place:
  assumes "h u = Some (Buffer cs)" "heap_read h (Ptr u 0) n = Inr bs"
  shows "ptr_copy h (Ptr u 0) (Ptr u 0) n = Inr h"
proof (cases "n = 0")
  case True
  with assms(2) show ?thesis by (auto simp: ptr_copy_def heap_read_def heap_write_def split: if_splits)
next
  case False
  with assms have bs: "bs = map the (take n cs)" "None \<notin> set (take n cs)" "n \<le> length cs"
    by (auto simp: heap_read_def cells_of_def Let_def split: if_splits)
  then have "map Some bs = take n cs" by (simp add: map_Some_the)
  with assms bs False have "heap_write h (Ptr u 0) bs = Inr (h(u \<mapsto> Buffer (take n cs @ drop n cs)))"
    by (auto simp: heap_write_def)
  with assms show ?thesis by (simp add: ptr_copy_def fun_upd_idem)
qed

lemma into_vec_boxed:
  assumes buf: "h u = Some (Buffer cs)" "heap_read h (Ptr u 0) len = Inr bs" and len: "0 < len" "length cs = len"
  shows "into_vec alloc h (from_boxed_slice (Ptr u 0) len) = Inr (\<lparr>hv_ptr = Ptr u 0, hv_len = len, hv_cap = len\<rparr>, h)"
proof -
  have raw: "from_raw_parts h (Ptr u 0) len len = Inr \<lparr>hv_ptr = Ptr u 0, hv_len = len, hv_cap = len\<rparr>"
    using buf len from_raw_parts_ok [of h "\<lparr>hv_ptr = Ptr u 0, hv_len = len, hv_cap = len\<rparr>" bs] by (simp add: vec_ok_def)
  show ?thesis
  proof (cases "even u")
    case True
    then have "from_boxed_slice (Ptr u 0) len =
        \<lparr>b_ptr = Ptr u 0, b_len = len, b_data = Ptr u 1, b_vtable = PROMOTABLE_EVEN_VTABLE\<rparr>"
      using len tag [of u] by (simp add: from_boxed_slice_def addr_of_def and_one_nat)
    moreover have "addr_of (Ptr u 1) AND KIND_MASK = KIND_VEC" using True by (simp add: addr_of_def kind_odd)
    ultimately show ?thesis using copy_in_place [OF buf] untag [OF True] raw
      by (simp add: into_vec_def to_vec_defs atomic_defs offset_from_def rust_assert_def)
  next
    case False
    then have "from_boxed_slice (Ptr u 0) len =
        \<lparr>b_ptr = Ptr u 0, b_len = len, b_data = Ptr u 0, b_vtable = PROMOTABLE_ODD_VTABLE\<rparr>"
      using len by (simp add: from_boxed_slice_def addr_of_def and_one_nat odd_iff_mod_2_eq_one)
    moreover have "addr_of (Ptr u 0) AND KIND_MASK = KIND_VEC" using False by (simp add: addr_of_def kind_odd)
    ultimately show ?thesis using copy_in_place [OF buf] raw
      by (simp add: into_vec_def to_vec_defs atomic_defs offset_from_def rust_assert_def)
  qed
qed

text \<open>
  C29. \<open>Vec::from(Bytes::from(v))\<close> gives back the vector: the same buffer, length and
  capacity, the heap as it was (a \<open>Shared\<close> that was allocated on the way is freed).
\<close>

theorem vec_bytes_round_trip:
  assumes alloc: "allocator_laws alloc" and inv: "bytes_inv h hs vs"
    and v: "vec_ok h v bs" "vec_buf v \<subseteq> vs" "0 < hv_cap v"
  shows "\<exists>b h1. from_vec alloc h v = Inr (b, h1) \<and> contents h1 (HB b) = bs \<and> into_vec alloc h1 b = Inr (v, h)"
proof -
  obtain u where u: "hv_ptr v = Ptr u 0" using v by (cases "hv_ptr v") (auto simp: vec_ok_def)
  with v obtain cs where buf: "h u = Some (Buffer cs)" "length cs = hv_cap v" "heap_read h (Ptr u 0) (hv_len v) = Inr bs"
    by (auto simp: vec_ok_def)
  have eta: "\<lparr>hv_ptr = Ptr u 0, hv_len = hv_len v, hv_cap = hv_cap v\<rparr> = v" using u by (cases v) simp
  show ?thesis
  proof (cases "hv_len v = hv_cap v")
    case True
    let ?b = "from_boxed_slice (hv_ptr v) (hv_len v)"
    have uv: "u \<in> vs" using v u by (simp add: vec_buf_def)
    have "contents h (HB ?b) = bs"
      using from_boxed_slice_ok(2) [OF inv uv buf(1)] buf v u True by simp
    moreover have "into_vec alloc h ?b = Inr (v, h)"
      using into_vec_boxed [OF buf(1,3)] buf(2) v(3) u eta True by simp
    ultimately show ?thesis using True by (simp add: from_vec_def)
  next
    case False
    let ?s = "\<lparr>sh_buf = hv_ptr v, sh_cap = hv_cap v, sh_ref_cnt = 1\<rparr>"
    obtain a where a: "new_block alloc h 24 8 (Shared ?s) = Inr (a, h(a \<mapsto> Shared ?s))" "h a = None" "0 < a" "a mod 8 = 0"
      using allocator_laws.new_block_ok [OF alloc bytes_invD(1) [OF inv], of 24 8 "Shared ?s"] by auto
    let ?h = "h(a \<mapsto> Shared ?s)"
    let ?b = "\<lparr>b_ptr = hv_ptr v, b_len = hv_len v, b_data = Ptr a 0, b_vtable = SHARED_VTABLE\<rparr>"
    have "even a" using a(4) by presburger
    then have "from_vec alloc h v = Inr (?b, ?h)"
      using False a(1) by (simp add: from_vec_def rust_assert_def kind_even KIND_ARC_def)
    moreover have "u \<noteq> a" using buf a(2) by auto
    then have "contents ?h (HB ?b) = bs" using buf(3) u by (simp add: contents_def h_slice_def)
    moreover have "into_vec alloc ?h ?b = Inr (v, h)"
      using a(2) u from_raw_parts_ok [OF v(1)] copy_in_place [OF buf(1,3)] eta
      by (simp add: into_vec_def to_vec_defs shared_to_vec_impl_def get_shared_def atomic_defs fun_upd_idem)
    ultimately show ?thesis by blast
  qed
qed

theorem vec_bytes_round_trip_witness:
  "\<exists>b h1. from_vec bump example_heap example_vec = Inr (b, h1) \<and> contents h1 (HB b) = [7, 8, 9] \<and>
     into_vec bump h1 b = Inr (example_vec, example_heap)"
  using vec_bytes_round_trip [OF bump.allocator_laws_axioms example_vec_inv, of example_vec "[7, 8, 9]"] example_read
  by (simp add: vec_ok_def vec_buf_def example_vec_def example_heap_def)

text \<open>
  C30. \<open>Bytes::from_owner\<close>. When \<open>as_ref\<close> of the boxed owner returns bytes in the owner's memory
  (or an empty slice, for an owner without memory), the handle shows these bytes, the invariant of
  all handles holds, and dropping the only handle drops the owner, its memory and the box around
  it included. When \<open>as_ref\<close> panics, the panic goes on, and the owner, its memory and the box are
  dropped just the same. Nothing else on the heap changes.
\<close>

theorem from_owner_then_drop:
  assumes "allocator_laws alloc" "bytes_inv h hs vs" "set_option owner \<subseteq> vs"
  shows "(\<forall>p len bs. (\<forall>a ow. h a = None \<longrightarrow> as_ref (h(a \<mapsto> Owned ow)) owner = Inr (p, len)) \<and>
      owner = (if blk p = 0 then None else Some (blk p)) \<and> heap_read h p len = Inr bs \<longrightarrow>
      (\<exists>b h1. from_owner alloc as_ref h owner = Inr (Ok b, h1) \<and> as_slice h1 b = Inr bs \<and>
        bytes_inv h1 (add_mset (HB b) hs) (vs - set_option owner) \<and>
        bytes_drop h1 b = Inr (h |` (- set_option owner)))) \<and>
    (\<forall>q. (\<forall>a ow. h a = None \<longrightarrow> as_ref (h(a \<mapsto> Owned ow)) owner = Inl (Panic q)) \<longrightarrow>
      from_owner alloc as_ref h owner = Inr (Err q, h |` (- set_option owner)))"
proof (intro conjI allI impI; (elim conjE)?)
  fix p len bs
  assume as_ref: "\<forall>a ow. h a = None \<longrightarrow> as_ref (h(a \<mapsto> Owned ow)) owner = Inr (p, len)"
    and p: "owner = (if blk p = 0 then None else Some (blk p))" and bs: "heap_read h p len = Inr bs"
  from allocator_laws.from_owner_ok [OF assms _ p bs, of as_ref] as_ref obtain b h1 a where
    b: "from_owner alloc as_ref h owner = Inr (Ok b, h1)" "h a = None"
      "b = \<lparr>b_ptr = p, b_len = len, b_data = Ptr a 0, b_vtable = OWNED_VTABLE\<rparr>"
      "h1 = h(a \<mapsto> Owned \<lparr>ow_ref_cnt = 1, ow_owner = owner\<rparr>)"
      "bytes_inv h1 (add_mset (HB b) hs) (vs - set_option owner)" "contents h1 (HB b) = bs" by auto
  have "as_slice h1 b = Inr bs" using read_contents(1) bytes_invD(3) [OF b(5), of "HB b"] b(6) by (simp add: as_slice_def)
  moreover have "bytes_drop h1 b = Inr (h |` (- set_option owner))"
    unfolding b(4) using separateD(5) [OF bytes_invD(6) [OF assms(2)]] assms(3) b(2,3)
    by (intro allocator_laws.owner_box_drop [OF assms(1)]) auto
  ultimately show "\<exists>b h1. from_owner alloc as_ref h owner = Inr (Ok b, h1) \<and> as_slice h1 b = Inr bs \<and>
      bytes_inv h1 (add_mset (HB b) hs) (vs - set_option owner) \<and> bytes_drop h1 b = Inr (h |` (- set_option owner))"
    using b(1,5) by blast
qed (simp add: allocator_laws.from_owner_panics [OF assms])

theorem from_owner_then_drop_witness:
  "(\<exists>b h1. from_owner bump (\<lambda>h owner. Inr (Ptr 2 1, 2)) example_heap (Some 2) = Inr (Ok b, h1) \<and>
      as_slice h1 b = Inr [8, 9] \<and> bytes_drop h1 b = Inr Map.empty) \<and>
   from_owner bump (\<lambda>h owner. Inl (Panic Arith_overflow)) example_heap (Some 2) = Inr (Err Arith_overflow, Map.empty)"
proof -
  have empty: "example_heap |` (- set_option (Some 2)) = Map.empty"
    by (auto simp: example_heap_def restrict_map_def fun_eq_iff)
  have read: "heap_read example_heap (Ptr 2 1) 2 = Inr [8, 9]" by (simp add: heap_read_def cells_of_def example_heap_def)
  note owner = from_owner_then_drop [OF bump.allocator_laws_axioms example_vec_inv, of "Some 2"]
  have "\<exists>b h1. from_owner bump (\<lambda>h owner. Inr (Ptr 2 1, 2)) example_heap (Some 2) = Inr (Ok b, h1) \<and>
      as_slice h1 b = Inr [8, 9] \<and> bytes_inv h1 {#HB b#} ({2} - set_option (Some 2)) \<and> bytes_drop h1 b = Inr Map.empty"
    by (rule owner [THEN conjunct1, rule_format, of _ "Ptr 2 1" 2, unfolded empty]) (use read in simp_all)
  moreover from owner [THEN conjunct2, rule_format, of "\<lambda>h owner. Inl (Panic Arith_overflow)" Arith_overflow]
  have "from_owner bump (\<lambda>h owner. Inl (Panic Arith_overflow)) example_heap (Some 2) = Inr (Err Arith_overflow, Map.empty)"
    unfolding empty by simp
  ultimately show ?thesis by blast
qed

section \<open>Views\<close>

text \<open>
  \<open>Bytes::slice_ref\<close> of a subslice of the bytes of a handle, given by its address,
  returns a handle with exactly the bytes of the subslice, and leaves the handle as it was.
\<close>

theorem slice_ref_view:
  assumes "allocator_laws alloc" "bytes_inv h (add_mset (HB b) hs) vs" "size hs < 2 ^ 63 - 1"
    and "sub = Ptr (blk (b_ptr b)) (off (b_ptr b) + i)" "i + n \<le> b_len b"
  shows "\<exists>c b' h'. slice_ref alloc h b sub n = Inr (c, b', h') \<and>
    bytes_inv h' (add_mset (HB c) (add_mset (HB b') hs)) vs \<and> Inr (contents h' (HB c)) = heap_read h sub n \<and>
    contents h' (HB b') = contents h (HB b) \<and> undisturbed h hs vs h'"
proof -
  have ok: "handle_ok h (HB b)" using bytes_invD(3) [OF assms(2)] by simp
  then have "0 < addr_of (b_ptr b)" by (simp add: handle_ok_def)
  from heap_read_slice [OF read_contents(1) [OF ok] assms(5) this] assms(4)
  have "heap_read h sub n = Inr (take n (drop i (contents h (HB b))))" by simp
  with allocator_laws.slice_ref_ok [OF assms] show ?thesis by (auto simp: parted_def)
qed

theorem slice_ref_view_witness:
  "\<exists>c b' h'. slice_ref bump example_heap example_bytes (Ptr 2 1) 2 = Inr (c, b', h') \<and> contents h' (HB c) = [8, 9]"
proof -
  have "heap_read example_heap (Ptr 2 1) 2 = Inr [8, 9]" by (simp add: heap_read_def cells_of_def example_heap_def)
  then show ?thesis
    using slice_ref_view [OF bump.allocator_laws_axioms, of example_heap example_bytes "{#}" "{}" "Ptr 2 1" 1 2]
    by (auto simp: example_inv example_fields)
qed

text \<open>
  \<open>Bytes\<close> is a lawful \<open>Buf\<close>: its bytes are one chunk, all typed reads and the adapters of
  the trait apply to it, and reading keeps the invariant of all handles.
\<close>

theorem bytes_is_lawful_reader:
  "buf_complete (bytes_buf h) (\<lambda>b. bytes_inv h (add_mset (HB b) hs) vs) (\<lambda>b. contents h (HB b))"
  by (rule bytes_reader.buf_complete_axioms)

end
