(* ===== verification/Bytes_Mut_Theorems.thy ===== *)
theory Bytes_Mut_Theorems
  imports Bytes_Theorems
begin

unbundle bit_operations_syntax

text \<open>
  The properties of \<open>BytesMut\<close>: the data word, growing and reclaiming, writing, splitting and
  joining, and the way to \<open>Bytes\<close> and back.
\<close>

section \<open>An example\<close>

text \<open>A handle to a vector of three bytes with room for one more\<close>

definition mut_heap :: heap where
  "mut_heap = [2 \<mapsto> Buffer [Some 7, Some 8, Some 9, None]]"

definition mut_vec :: hvec where
  "mut_vec = \<lparr>hv_ptr = Ptr 2 0, hv_len = 3, hv_cap = 4\<rparr>"

definition example_mut :: bytes_mut where
  "example_mut = \<lparr>bm_ptr = Ptr 2 0, bm_len = 3, bm_cap = 4, bm_data = Ptr 0 1\<rparr>"

lemma example_mut_inv: "bytes_inv mut_heap {#HM example_mut#} {}" "contents mut_heap (HM example_mut) = [7, 8, 9]"
proof -
  have inv: "bytes_inv mut_heap {#} {2}"
    by (auto simp: bytes_inv_def mut_heap_def separate_def no_leak_def bounded_def cells_of_def isize_max_def split: if_splits)
  have "vec_ok mut_heap mut_vec [7, 8, 9]" "vec_buf mut_vec = {2}"
    by (simp_all add: vec_ok_def vec_buf_def mut_vec_def mut_heap_def heap_read_def cells_of_def)
  moreover have "bytes_mut_from_vec mut_vec = Inr example_mut"
    by (simp add: bytes_mut_from_vec_def vptr_def expect_def addr_of_def mut_vec_def example_mut_def
        original_capacity_to_repr_eq bit_width.simps vec_data_eq)
  ultimately show "bytes_inv mut_heap {#HM example_mut#} {}" "contents mut_heap (HM example_mut) = [7, 8, 9]"
    using bytes_mut_from_vec_ok [OF inv, of mut_vec "[7, 8, 9]"] by auto
qed

lemma example_mut_fields: "bm_len example_mut = 3" "bm_cap example_mut = 4" "bm_ptr example_mut = Ptr 2 0" "kind example_mut = KIND_VEC"
  by (simp_all add: example_mut_def kind_arith addr_of_def KIND_VEC_def)

lemma mut_block: "\<forall>cs. mut_heap a = Some (Buffer cs) \<longrightarrow> length cs \<le> 2 ^ 60"
  by (auto simp: mut_heap_def split: if_splits)

section \<open>The data word\<close>

text \<open>
  C33. The tagged data word of an unshared \<open>BytesMut\<close>: \<open>set_vec_pos\<close> of any position up to
  \<open>MAX_VEC_POS\<close> is what \<open>get_vec_pos\<close> returns, the tag and the three bits of the original capacity
  stay, and pointer, length and capacity are untouched.
\<close>

theorem vec_pos_round_trip:
  assumes "kind m = KIND_VEC" "pos \<le> MAX_VEC_POS"
  shows "\<exists>m'. set_vec_pos m pos = Inr m' \<and> get_vec_pos m' = Inr pos \<and> kind m' = KIND_VEC \<and>
    drop_bit ORIGINAL_CAPACITY_OFFSET (addr_of (bm_data m') AND ORIGINAL_CAPACITY_MASK) =
      drop_bit ORIGINAL_CAPACITY_OFFSET (addr_of (bm_data m) AND ORIGINAL_CAPACITY_MASK) \<and>
    bm_ptr m' = bm_ptr m \<and> bm_len m' = bm_len m \<and> bm_cap m' = bm_cap m"
  using set_vec_pos_ok [OF assms]
  by (auto simp: get_vec_pos_def rust_assert_def vec_pos_def capacity_repr_def)

theorem vec_pos_round_trip_witness:
  "\<exists>m'. set_vec_pos example_mut 5 = Inr m' \<and> get_vec_pos m' = Inr 5 \<and> kind m' = KIND_VEC"
  using vec_pos_round_trip [of example_mut 5] by (auto simp: example_mut_fields max_vec_pos)

text \<open>
  The three bits of the original capacity: what is remembered is never more than the
  capacity was, and more than half of it between 1 KiB and 64 KiB; below it is nothing, and above
  it is 64 KiB.
\<close>

theorem original_capacity_bounds:
  assumes "cap < 2 ^ 64"
  defines "kept \<equiv> original_capacity_from_repr (original_capacity_to_repr cap)"
  shows "original_capacity_to_repr cap < 8 \<and> kept \<le> cap \<and> (cap < 2 ^ 10 \<longrightarrow> kept = 0) \<and>
    (2 ^ 10 \<le> cap \<and> cap < 2 ^ 16 \<longrightarrow> cap < 2 * kept) \<and> (2 ^ 16 \<le> cap \<longrightarrow> kept = 2 ^ 16)"
proof -
  let ?w = "bit_width (cap div 1024)"
  have repr: "original_capacity_to_repr cap = min ?w 7" using original_capacity_to_repr_eq [OF assms(1)] .
  have kept: "kept = (if ?w = 0 then 0 else 2 ^ (min ?w 7 + 9))"
    by (auto simp: kept_def repr original_capacity_from_repr_eq min_def)
  show ?thesis
  proof (cases "cap < 1024")
    case True
    then have "?w = 0" by (simp add: bit_width.simps)
    with True show ?thesis by (simp add: kept repr)
  next
    case False
    then have w: "2 ^ (?w - 1) \<le> cap div 1024" "cap div 1024 < 2 ^ ?w" "0 < ?w"
      using bit_width_bounds [of "cap div 1024"] by (simp_all add: div_greater_zero_iff)
    have pow: "(2::nat) ^ (n + 9) = 2 ^ (n - 1) * 1024" if "0 < n" for n using that by (cases n) (simp_all add: power_add)
    have lo: "2 ^ (?w - 1) * 1024 \<le> cap" and hi: "cap < 2 ^ ?w * 1024" using w(1,2) by (simp_all add: less_eq_div_iff_mult_less_eq div_less_iff_less_mult)
    have "(2::nat) ^ (min ?w 7 - 1) * 1024 \<le> 2 ^ (?w - 1) * 1024" by (intro mult_le_mono1 power_increasing) simp_all
    also note lo
    finally have "kept \<le> cap" using w(3) pow [of "min ?w 7"] by (simp add: kept)
    moreover have "?w \<le> 6" if "cap < 2 ^ 16" using that bit_width_le [of "cap div 1024" 6] by (simp add: div_less_iff_less_mult)
    moreover have "7 \<le> ?w" if "2 ^ 16 \<le> cap"
    proof (rule ccontr)
      assume "\<not> 7 \<le> ?w"
      then have "(2::nat) ^ ?w \<le> 2 ^ 6" by (intro power_increasing) simp_all
      with hi that show False by simp
    qed
    ultimately show ?thesis using False hi w(3) pow [of ?w] power_Suc [of "2::nat" "?w - 1"]
      by (auto simp: kept repr min_less_iff_disj)
  qed
qed

theorem original_capacity_bounds_witness: "3000 < 2 * original_capacity_from_repr (original_capacity_to_repr 3000)"
  using original_capacity_bounds [of 3000] by simp

section \<open>Growing\<close>

text \<open>
  C35. \<open>BytesMut::reserve\<close> returns, for buffers and requests of at most \<open>2^60\<close> bytes, whatever
  the handle shares and wherever it starts: afterwards there is room for \<open>additional\<close> bytes, the
  bytes are the same, and no other handle and no vector notices (whether the buffer was moved,
  shifted, regrown or left to the other handles).
\<close>

theorem reserve_makes_room:
  assumes "allocator_laws alloc" "bytes_inv h (add_mset (HM m) hs) vs"
    and "bm_len m + additional \<le> 2 ^ 60" "\<forall>cs. h (blk (bm_ptr m)) = Some (Buffer cs) \<longrightarrow> length cs \<le> 2 ^ 60"
  shows "\<exists>m' h'. reserve alloc h m additional = Inr (m', h') \<and> additional \<le> bm_cap m' - bm_len m' \<and>
    contents h' (HM m') = contents h (HM m) \<and> bytes_inv h' (add_mset (HM m') hs) vs \<and> undisturbed h hs vs h'"
  using assms(1,2)
  by (rule allocator_laws.reserve_ok [where additional = additional])
    (use assms(3,4) in \<open>auto simp: became_def moderate_def\<close>)

theorem reserve_makes_room_witness:
  "\<exists>m' h'. reserve bump mut_heap example_mut 100 = Inr (m', h') \<and> 100 \<le> bm_cap m' - bm_len m' \<and>
    contents h' (HM m') = [7, 8, 9]"
  using reserve_makes_room [OF bump.allocator_laws_axioms example_mut_inv(1) _ mut_block, of 100]
  by (auto simp: example_mut_fields example_mut_inv)

text \<open>
  C36. \<open>BytesMut::try_reclaim\<close> never allocates and never panics: it makes the room out of the
  memory that the handle already owns and keeps its bytes, or answers \<open>false\<close> and changes nothing
  at all.
\<close>

lemma heap_write_dom: "heap_write h p bs = Inr h' \<Longrightarrow> dom h' = dom h"
  by (auto simp: heap_write_def split: if_splits option.splits block.splits)

lemma copy_dom: "copy_nonoverlapping h p q n = Inr h' \<Longrightarrow> dom h' = dom h"
  unfolding copy_nonoverlapping_def ptr_copy_def by (clarsimp split: if_splits) (blast dest: heap_write_dom)+

lemma bindE: "res_bind m f = Inr y \<Longrightarrow> (\<And>x. m = Inr x \<Longrightarrow> f x = Inr y \<Longrightarrow> P) \<Longrightarrow> P"
  by auto

lemma branchE: "(if b then x else y) = z \<Longrightarrow> (b \<Longrightarrow> x = z \<Longrightarrow> P) \<Longrightarrow> (\<not> b \<Longrightarrow> y = z \<Longrightarrow> P) \<Longrightarrow> P"
  by (cases b) auto

lemma add_or_give_upE:
  "add_or_give_up allocate a b x f = z \<Longrightarrow> (\<And>c. checked_add a b = Some c \<Longrightarrow> f c = z \<Longrightarrow> P) \<Longrightarrow> (z = Inr x \<Longrightarrow> P) \<Longrightarrow>
    (z = Inl (Panic (Expect_failed ''overflow'')) \<Longrightarrow> P) \<Longrightarrow> P"
  by (auto simp: add_or_give_up_def split: option.split_asm if_split_asm)

lemma reserve_vec_dom: "reserve_vec alloc h m n False = Inr (r, m', h') \<Longrightarrow> dom h' = dom h"
  unfolding reserve_vec_def by (elim bindE branchE; (frule copy_dom)?; simp)

lemma reserve_unique_dom: "reserve_unique alloc h m s n False = Inr (r, m', h') \<Longrightarrow> dom h' = dom h"
  unfolding reserve_unique_def Let_def by (elim bindE branchE add_or_give_upE; (frule copy_dom)?; simp)

lemma try_reclaim_dom: "try_reclaim alloc h m n = Inr (r, m', h') \<Longrightarrow> dom h' = dom h"
  unfolding try_reclaim_def reserve_inner_def
  by (elim bindE branchE add_or_give_upE; (erule reserve_vec_dom | erule reserve_unique_dom | simp))

theorem try_reclaim_no_allocation:
  assumes "allocator_laws alloc" "bytes_inv h (add_mset (HM m) hs) vs"
  shows "\<exists>r m' h'. try_reclaim alloc h m additional = Inr (r, m', h') \<and> dom h' = dom h \<and>
    (if r then additional \<le> bm_cap m' - bm_len m' \<and> contents h' (HM m') = contents h (HM m) \<and>
       bytes_inv h' (add_mset (HM m') hs) vs \<and> undisturbed h hs vs h'
     else m' = m \<and> h' = h)"
  using assms(1,2)
proof (rule allocator_laws.try_reclaim_ok [where additional = additional])
  fix m' h'
  assume r: "try_reclaim alloc h m additional = Inr (True, m', h')" "became h hs vs (HM m') (contents h (HM m)) h'"
    "bm_len m' = bm_len m" "bm_len m + additional \<le> bm_cap m'"
  then show ?thesis using try_reclaim_dom [OF r(1)] by (intro exI [of _ True]) (auto simp: became_def)
qed auto

theorem try_reclaim_no_allocation_witness:
  "\<exists>r m' h'. try_reclaim bump mut_heap example_mut 1 = Inr (r, m', h') \<and> dom h' = {2}"
  using try_reclaim_no_allocation [OF bump.allocator_laws_axioms example_mut_inv(1), of 1]
  by (auto simp: mut_heap_def)

section \<open>Writing\<close>

text \<open>
  C37. \<open>BytesMut::extend_from_slice\<close> appends exactly the slice, in place or in a new buffer; no
  other handle and no vector changes, also not one that shares the buffer. It can fail only by
  the panic for a capacity overflow, and not for buffers and results of at most \<open>2^60\<close> bytes.
\<close>

theorem extend_from_slice_appends:
  assumes "allocator_laws alloc" "bytes_inv h (add_mset (HM m) hs) vs"
  shows "case bytes_mut_extend_from_slice alloc h m src of
      Inr (m', h') \<Rightarrow> contents h' (HM m') = contents h (HM m) @ src \<and>
        bytes_inv h' (add_mset (HM m') hs) vs \<and> undisturbed h hs vs h'
    | Inl e \<Rightarrow> e \<in> {Panic (Expect_failed ''overflow''), Panic (Expect_failed ''capacity overflow'')} \<and>
        \<not> (bm_len m + length src \<le> 2 ^ 60 \<and> (\<forall>cs. h (blk (bm_ptr m)) = Some (Buffer cs) \<longrightarrow> length cs \<le> 2 ^ 60))"
  using allocator_laws.bytes_mut_extend_from_slice_ok [OF assms, of src]
  by (auto simp: appended_def became_def too_large_def capacity_overflow_def moderate_def)

theorem extend_from_slice_appends_witness:
  "\<exists>m' h'. bytes_mut_extend_from_slice bump mut_heap example_mut [1, 2] = Inr (m', h') \<and> contents h' (HM m') = [7, 8, 9, 1, 2]"
  using extend_from_slice_appends [OF bump.allocator_laws_axioms example_mut_inv(1), of "[1, 2]"]
    mut_block [of "blk (bm_ptr example_mut)"]
  by (simp add: example_mut_fields example_mut_inv split: sum.splits prod.splits)

section \<open>Splitting and joining\<close>

text \<open>
  C38. \<open>split_off(at)\<close> inside the bytes, then \<open>unsplit\<close>: the handle is as before, with the same
  pointer, length, capacity and bytes; nothing is copied and nothing can fail.
\<close>

theorem split_unsplit_round_trip:
  assumes alloc: "allocator_laws alloc" and inv: "bytes_inv h (add_mset (HM m) hs) vs" and few: "size hs < 2 ^ 63 - 1"
    and at: "n \<le> bm_len m"
  shows "\<exists>ret m1 h1 m2 h2. bytes_mut_split_off alloc h m n = Inr (ret, m1, h1) \<and> unsplit alloc h1 m1 ret = Inr (m2, h2) \<and>
    bm_ptr m2 = bm_ptr m \<and> bm_len m2 = bm_len m \<and> bm_cap m2 = bm_cap m \<and>
    contents h2 (HM m2) = contents h (HM m) \<and> bytes_inv h2 (add_mset (HM m2) hs) vs \<and> undisturbed h hs vs h2"
proof -
  have le: "bm_len m \<le> bm_cap m" using bytes_invD(3) [OF inv, of "HM m"] by (simp add: handle_ok_def)
  then have "n \<le> bm_cap m" using at by simp
  then obtain m0 h1 where m0: "kind m0 = KIND_ARC" "bm_ptr m0 = bm_ptr m"
    "bytes_mut_split_off alloc h m n = Inr (part m0 n (bm_len m - n) (bm_cap m - n), part m0 0 (min (bm_len m) n) n, h1)"
    "parted h hs vs (HM (part m0 n (bm_len m - n) (bm_cap m - n))) (drop n (contents h (HM m)))
      (HM (part m0 0 (min (bm_len m) n) n)) (take n (contents h (HM m))) h1"
    using allocator_laws.split_off_parts [OF alloc inv few] by blast
  let ?o = "part m0 n (bm_len m - n) (bm_cap m - n)" and ?s = "part m0 0 n n"
  note split = m0(3,4) [unfolded min_absorb2 [OF at]]
  have inv1: "bytes_inv h1 (add_mset (HM ?s) (add_mset (HM ?o) hs)) vs"
    and c: "contents h1 (HM ?s) @ contents h1 (HM ?o) = contents h (HM m)" and un: "undisturbed h hs vs h1"
    using split(2) by (simp_all add: parted_def add_mset_commute)
  have arc: "kind ?s = KIND_ARC" "kind ?o = KIND_ARC" "bm_data ?s = bm_data ?o"
    and fields: "bm_len ?s = n" "bm_cap ?s = n" "bm_len ?o = bm_len m - n" "bm_cap ?o = bm_cap m - n"
      "bm_ptr ?s = bm_ptr m" "bm_ptr ?o = Ptr (blk (bm_ptr m)) (off (bm_ptr m) + n)"
    using m0(1,2) by (simp_all add: part_def kind_def)
  have "\<exists>m2 h2. unsplit alloc h1 ?s ?o = Inr (m2, h2) \<and> bm_ptr m2 = bm_ptr m \<and> bm_len m2 = bm_len m \<and>
    bm_cap m2 = bm_cap m \<and> became h1 hs vs (HM m2) (contents h (HM m)) h2"
  proof -
    consider (first) "n = 0" | (all) "n \<noteq> 0" "bm_cap m = n" | (mid) "n \<noteq> 0" "n < bm_cap m" using at le by linarith
    then show ?thesis
    proof cases
      case first
      then have "contents h1 (HM ?s) = []" using split(2) by (simp add: parted_def)
      with bytes_mut_drop_ok [OF inv1] first fields c show ?thesis
        by (cases "bm_ptr m") (auto simp: unsplit_def dropped_def became_def undisturbed_def)
    next
      case all
      have inv2: "bytes_inv h1 (add_mset (HM ?o) (add_mset (HM ?s) hs)) vs" using inv1 by (simp add: add_mset_commute)
      have "contents h1 (HM ?o) = []" using split(2) all at le
        length_contents [OF bytes_invD(3) [OF inv, of "HM m"]] by (simp add: parted_def)
      with bytes_mut_drop_ok [OF inv2] all fields c at le show ?thesis
        by (auto simp: unsplit_def try_unsplit_def dropped_def became_def undisturbed_def)
    next
      case mid
      have "addr_of (bm_ptr ?s) + bm_len ?s = addr_of (bm_ptr ?o)" using fields by (simp add: addr_of_def)
      from try_unsplit_join [OF inv1 arc this] mid fields obtain h2 where
        "try_unsplit h1 ?s ?o = Inr (None, ?s\<lparr>bm_len := bm_len m, bm_cap := bm_cap m\<rparr>, h2)"
        "became h1 hs vs (HM (?s\<lparr>bm_len := bm_len m, bm_cap := bm_cap m\<rparr>)) (contents h (HM m)) h2"
        using at c by auto
      with mid fields show ?thesis by (auto simp: unsplit_def)
    qed
  qed
  with split(1) undisturbed_trans [OF un] show ?thesis by (auto simp: became_def)
qed

theorem split_unsplit_round_trip_witness:
  "\<exists>ret m1 h1 m2 h2. bytes_mut_split_off bump mut_heap example_mut 1 = Inr (ret, m1, h1) \<and>
    unsplit bump h1 m1 ret = Inr (m2, h2) \<and> bm_ptr m2 = Ptr 2 0 \<and> contents h2 (HM m2) = [7, 8, 9]"
  using split_unsplit_round_trip [OF bump.allocator_laws_axioms example_mut_inv(1), of 1]
  by (fastforce simp: example_mut_fields example_mut_inv)

section \<open>Freezing and thawing\<close>

lemma from_vec_unique:
  assumes "from_vec alloc h v = Inr (b, h')" "0 < hv_cap v" "off (hv_ptr v) = 0"
  shows "is_unique h' b = Inr True"
proof (cases "hv_len v = hv_cap v")
  case True
  obtain u where u: "hv_ptr v = Ptr u 0" using assms(3) by (cases "hv_ptr v") simp
  have b: "b = from_boxed_slice (Ptr u 0) (hv_cap v)" "h' = h" using assms(1) True u by (simp_all add: from_vec_def)
  show ?thesis
  proof (cases "even u")
    case True
    with b assms(2) tag [OF True] show ?thesis
      by (simp add: from_boxed_slice_def addr_of_def and_one_nat is_unique_def promotable_is_unique_def atomic_defs kind_odd)
  next
    case False
    with b assms(2) show ?thesis
      by (simp add: from_boxed_slice_def addr_of_def and_one_nat is_unique_def promotable_is_unique_def atomic_defs kind_odd
          odd_iff_mod_2_eq_one)
  qed
next
  case False
  with assms(1) show ?thesis
    by (auto simp: from_vec_def new_block_def is_unique_def shared_is_unique_def get_shared_def atomic_defs rust_assert_def
        split: option.splits if_splits)
qed

lemma from_raw_parts_fields:
  assumes "from_raw_parts h p len cap = Inr v" "0 < cap"
  shows "hv_cap v = cap" "hv_ptr v = p" "off p = 0"
  using assms by (auto simp: from_raw_parts_def Let_def split: if_split_asm option.split_asm block.split_asm)

lemma freeze_vec_unique:
  assumes "freeze alloc h m = Inr (b, h')" "kind m = KIND_VEC" "0 < bm_cap m"
  shows "is_unique h' b = Inr True"
proof -
  from assms obtain pos v b0 where v: "rebuild_vec h (bm_ptr m) (bm_len m) (bm_cap m) pos = Inr v"
    "from_vec alloc h v = Inr (b0, h')" "bytes_advance h' b0 pos = Inr b"
    by (auto simp: freeze_def)
  then have "0 < hv_cap v" "off (hv_ptr v) = 0" using assms(3)
    by (auto simp: rebuild_vec_def usize_add_def from_raw_parts_fields split: if_split_asm)
  from from_vec_unique [OF v(2) this] v(3) show ?thesis
    by (cases "b_vtable b0") (auto simp: bytes_advance_def inc_start_def is_unique_def)
qed

text \<open>
  C39. \<open>freeze\<close>, then \<open>try_into_mut\<close>: when no other handle shares the memory, thawing succeeds
  and the bytes are the same, for unshared and for reference-counted buffers, with spare capacity
  or without. (A handle without capacity freezes to a static \<open>Bytes\<close>, which never thaws.)
\<close>

theorem freeze_thaw_round_trip:
  assumes alloc: "allocator_laws alloc" and inv: "bytes_inv h (add_mset (HM m) hs) vs" and few: "size hs < 2 ^ 63 - 1"
    and alone: "\<forall>c \<in># hs. key c \<noteq> key (HM m)" and cap: "0 < bm_cap m"
  shows "\<exists>b h1 m' h2. freeze alloc h m = Inr (b, h1) \<and> try_into_mut alloc h1 b = Inr (Ok m', h2) \<and>
    contents h2 (HM m') = contents h (HM m) \<and> bytes_inv h2 (add_mset (HM m') hs) vs \<and> undisturbed h hs vs h2"
proof -
  from allocator_laws.freeze_ok [OF alloc inv] obtain b h1 where
    b: "freeze alloc h m = Inr (b, h1)" "became h hs vs (HB b) (contents h (HM m)) h1" by blast
  then have inv1: "bytes_inv h1 (add_mset (HB b) hs) vs" and c: "contents h1 (HB b) = contents h (HM m)"
    and un: "undisturbed h hs vs h1" by (simp_all add: became_def)
  have unique: "is_unique h1 b = Inr True"
  proof (cases "kind m = KIND_VEC")
    case True
    from freeze_vec_unique [OF b(1) True cap] show ?thesis .
  next
    case False
    with b(1) kind_cases [of m] have "b_vtable b = SHARED_V_VTABLE" "b_data b = bm_data m"
      by (auto simp: freeze_def rust_assert_def with_vtable_def)
    with False is_unique_iff [OF inv1] alone show ?thesis by simp
  qed
  show ?thesis using alloc inv1 few
  proof (rule allocator_laws.try_into_mut_ok)
    fix m' h2
    assume "try_into_mut alloc h1 b = Inr (Ok m', h2)" "became h1 hs vs (HM m') (contents h1 (HB b)) h2"
    with b(1) c undisturbed_trans [OF un] show ?thesis by (auto simp: became_def)
  next
    assume "is_unique h1 b = Inr False"
    with unique show ?thesis by simp
  qed
qed

theorem freeze_thaw_round_trip_witness:
  "\<exists>b h1 m' h2. freeze bump mut_heap example_mut = Inr (b, h1) \<and> try_into_mut bump h1 b = Inr (Ok m', h2) \<and>
    contents h2 (HM m') = [7, 8, 9]"
  using freeze_thaw_round_trip [OF bump.allocator_laws_axioms example_mut_inv(1)]
  by (fastforce simp: example_mut_fields example_mut_inv)

end
