(* ===== verification/Bytes_Mut_Buf.thy ===== *)
theory Bytes_Mut_Buf
  imports Bytes_Mut_Conv Buf_Mut
begin

text \<open>
  \<open>BytesMut\<close> as a reader and as a writer (\<open>impl Buf\<close> and \<open>impl BufMut for BytesMut\<close> in
  \<^verbatim>\<open>bytes_mut.rs\<close>): both are interpretations of the contracts of the traits, so that all typed
  reads and writes and all adapters apply to it. The state is the handle with the heap.
\<close>

section \<open>Reading\<close>

type_synonym mut_state = "bytes_mut \<times> heap"

text \<open>While the handle is valid, \<open>chunk\<close> is \<^const>\<open>bytes_mut_as_slice\<close>.\<close>

definition bytes_mut_core :: "allocator \<Rightarrow> mut_state buf_core" where
  "bytes_mut_core alloc =
     \<lparr>remaining = (\<lambda>(self, h). bm_len self), chunk = (\<lambda>(self, h). contents h (HM self)),
      advance = (\<lambda>(self, h) cnt. bytes_mut_advance alloc h self cnt)\<rparr>"

definition bytes_mut_buf :: "allocator \<Rightarrow> mut_state buf" where
  "bytes_mut_buf alloc = with_defaults (bytes_mut_core alloc)"

section \<open>Writing\<close>

definition bytes_mut_remaining_mut :: "bytes_mut \<Rightarrow> usize" where
  "bytes_mut_remaining_mut self = isize_max - bm_len self"

text \<open>A borrowed slice of possibly uninitialised cells, and the write through it\<close>

definition heap_cells :: "heap \<Rightarrow> ptr \<Rightarrow> usize \<Rightarrow> uninit_slice res" where
  "heap_cells h p n =
     (if n = 0 then Inr []
      else case cells_of h (blk p) of
        Some cs \<Rightarrow> if off p + n \<le> length cs then Inr (take n (drop (off p) cs)) else Inl (UB ''slice out of bounds'')
      | None \<Rightarrow> Inl (UB ''slice of freed memory''))"

definition heap_store :: "heap \<Rightarrow> ptr \<Rightarrow> uninit_slice \<Rightarrow> heap res" where
  "heap_store h p cells =
     (if cells = [] then Inr h
      else case h (blk p) of
        Some (Buffer cs) \<Rightarrow>
          if off p + length cells \<le> length cs
          then Inr (h(blk p \<mapsto> Buffer (take (off p) cs @ cells @ drop (off p + length cells) cs)))
          else Inl (UB ''write out of bounds'')
      | _ \<Rightarrow> Inl (UB ''write to a block that is no buffer''))"

definition bytes_mut_chunk_mut ::
  "allocator \<Rightarrow> heap \<Rightarrow> bytes_mut \<Rightarrow> (uninit_slice \<times> (uninit_slice \<Rightarrow> mut_state res)) res" where
  "bytes_mut_chunk_mut alloc h self =
     res_bind (if bm_cap self = bm_len self then reserve alloc h self 64 else Inr (self, h)) (\<lambda>(self, h).
     res_bind (spare_capacity_mut h self) (\<lambda>(p, len).
     res_bind (heap_cells h p len) (\<lambda>cells.
     Inr (cells, \<lambda>cells. res_bind (heap_store h p cells) (\<lambda>h. Inr (self, h))))))"

definition bytes_mut_mut_core :: "allocator \<Rightarrow> mut_state buf_mut_core" where
  "bytes_mut_mut_core alloc =
     \<lparr>remaining_mut = (\<lambda>(self, h). bytes_mut_remaining_mut self),
      advance_mut = (\<lambda>(self, h) cnt. res_bind (bytes_mut_advance_mut self cnt) (\<lambda>self. Inr (self, h))),
      chunk_mut = (\<lambda>(self, h). bytes_mut_chunk_mut alloc h self)\<rparr>"

definition bytes_mut_buf_mut :: "allocator \<Rightarrow> mut_state buf_mut" where
  "bytes_mut_buf_mut alloc =
     \<lparr>remaining_mut = remaining_mut (bytes_mut_mut_core alloc), advance_mut = advance_mut (bytes_mut_mut_core alloc),
      chunk_mut = chunk_mut (bytes_mut_mut_core alloc),
      put_slice = (\<lambda>(self, h) src. bytes_mut_put_slice alloc h self src),
      put_bytes = (\<lambda>(self, h) val cnt. bytes_mut_put_bytes alloc h self val cnt)\<rparr>"

section \<open>The contracts\<close>

text \<open>
  The states that a handle can get to without disturbing the other handles, from a heap \<open>h0\<close>.
  What is promised without allocating is the spare capacity.
\<close>

definition mut_ok :: "heap \<Rightarrow> handle multiset \<Rightarrow> addr set \<Rightarrow> mut_state \<Rightarrow> bool" where
  "mut_ok h0 hs vs = (\<lambda>(m, h). bytes_inv h (add_mset (HM m) hs) vs \<and> undisturbed h0 hs vs h)"

definition mut_view :: "mut_state \<Rightarrow> u8 list" where
  "mut_view = (\<lambda>(m, h). contents h (HM m))"

definition mut_room :: "mut_state \<Rightarrow> usize" where
  "mut_room = (\<lambda>(m, h). bm_cap m - bm_len m)"

lemma mut_ok_became: "mut_ok h0 hs vs (m, h) \<Longrightarrow> became h hs vs (HM m') bs h' \<Longrightarrow> mut_ok h0 hs vs (m', h') \<and> mut_view (m', h') = bs"
  using undisturbed_trans by (auto simp: mut_ok_def mut_view_def became_def)

lemma mut_ok_fields:
  assumes "mut_ok h0 hs vs (m, h)"
  shows "bytes_inv h (add_mset (HM m) hs) vs" "length (contents h (HM m)) = bm_len m" "bm_len m \<le> bm_cap m" "bm_cap m \<le> isize_max"
proof -
  show inv: "bytes_inv h (add_mset (HM m) hs) vs" using assms by (simp add: mut_ok_def)
  then have ok: "handle_ok h (HM m)" using bytes_invD(3) by simp
  then show "length (contents h (HM m)) = bm_len m" "bm_len m \<le> bm_cap m"
    using length_contents [OF ok] by (simp_all add: handle_ok_def)
  show "bm_cap m \<le> isize_max"
  proof (cases "bm_cap m = 0")
    case False
    then have "0 < bm_cap m" by simp
    from mut_buffer [OF inv this] obtain u cs where "h u = Some (Buffer cs)" "off (bm_ptr m) + bm_cap m \<le> length cs" by blast
    with boundedD(3) [OF bytes_invD(8) [OF inv]] show ?thesis by fastforce
  qed simp
qed

context allocator_laws
begin

lemma mut_reader_core: "buf_core_contract (bytes_mut_core alloc) (mut_ok h0 hs vs) mut_view"
proof unfold_locales
  fix s n
  assume s: "mut_ok h0 hs vs s"
  obtain m h where mh: "s = (m, h)" by (cases s)
  note ok = s [unfolded mh]
  note f = mut_ok_fields [OF ok]
  show "remaining (bytes_mut_core alloc) s = length (mut_view s)" using f by (simp add: mh bytes_mut_core_def mut_view_def)
  show "prefix (chunk (bytes_mut_core alloc) s) (mut_view s)" by (simp add: mh bytes_mut_core_def mut_view_def)
  show "mut_view s \<noteq> [] \<Longrightarrow> chunk (bytes_mut_core alloc) s \<noteq> []" by (simp add: mh bytes_mut_core_def mut_view_def)
  show "\<exists>s'. advance (bytes_mut_core alloc) s n = Inr s' \<and> mut_ok h0 hs vs s' \<and> mut_view s' = drop n (mut_view s)"
    if n: "n \<le> length (mut_view s)"
  proof -
    from n f have "n \<le> bm_len m" by (simp add: mh mut_view_def)
    from bytes_mut_advance_ok [OF f(1) this] obtain m' h' where
      "bytes_mut_advance alloc h m n = Inr (m', h')" "became h hs vs (HM m') (drop n (contents h (HM m))) h'" by blast
    with mut_ok_became [OF ok] show ?thesis by (force simp: mh bytes_mut_core_def mut_view_def)
  qed
  show "length (mut_view s) < n \<Longrightarrow> \<exists>p. advance (bytes_mut_core alloc) s n = Inl (Panic p)"
    using f by (simp add: mh bytes_mut_core_def mut_view_def bytes_mut_advance_def rust_assert_def)
qed

lemma mut_reader: "buf_complete (bytes_mut_buf alloc) (mut_ok h0 hs vs) mut_view"
  unfolding bytes_mut_buf_def
proof (rule buf_complete_with_defaults [OF mut_reader_core])
qed (auto simp: bytes_mut_core_def mut_view_def)

text \<open>The spare cells, and that storing through the borrow is a write to the heap\<close>

lemma drop_take_append: "k \<le> n \<Longrightarrow> n \<le> length xs \<Longrightarrow> drop k (take n xs) @ drop n xs = drop k xs"
  using drop_append [of k "take n xs" "drop n xs"] by simp

lemma spare_cells:
  assumes inv: "bytes_inv h (add_mset (HM m) hs) vs"
  defines "p \<equiv> Ptr (blk (bm_ptr m)) (off (bm_ptr m) + bm_len m)"
  obtains mem where "heap_cells h p (bm_cap m - bm_len m) = Inr mem" "length mem = bm_cap m - bm_len m"
    "\<And>bs. length bs \<le> length mem \<Longrightarrow> heap_store h p (map Some bs @ drop (length bs) mem) = heap_write h p bs"
proof (cases "bm_cap m = bm_len m")
  case True
  then show thesis by (intro that [of "[]"]) (simp_all add: heap_cells_def heap_store_def heap_write_def)
next
  case False
  have le: "bm_len m \<le> bm_cap m" using bytes_invD(3) [OF inv, of "HM m"] by (simp add: handle_ok_def)
  with False have "0 < bm_cap m" by simp
  from mut_buffer [OF inv this] obtain u cs where
    u: "bm_ptr m = Ptr u (off (bm_ptr m))" "h u = Some (Buffer cs)" "off (bm_ptr m) + bm_cap m \<le> length cs" by blast
  let ?o = "off (bm_ptr m) + bm_len m" and ?n = "bm_cap m - bm_len m"
  have blk: "blk (bm_ptr m) = u" by (subst u(1)) simp
  have p: "p = Ptr u ?o" "?o + ?n \<le> length cs" using blk u(3) le by (simp_all add: p_def)
  let ?mem = "take ?n (drop ?o cs)"
  show thesis
  proof (rule that [of ?mem])
    show "heap_cells h p ?n = Inr ?mem" using p u(2) False by (simp add: heap_cells_def cells_of_def)
    show len: "length ?mem = ?n" using p(2) by simp
    fix bs :: "u8 list" assume bs: "length bs \<le> length ?mem"
    then have bs: "length bs \<le> ?n" using len by simp
    have "drop (length bs) ?mem @ drop ?n (drop ?o cs) = drop (length bs) (drop ?o cs)" using bs p(2) by (intro drop_take_append) simp_all
    then have "take ?o cs @ (map Some bs @ drop (length bs) ?mem) @ drop (?o + ?n) cs = patched cs ?o bs"
      by (simp add: patched_def add.commute)
    moreover have "heap_store h p c = Inr (h(u \<mapsto> Buffer (take ?o cs @ c @ drop (?o + ?n) cs)))" if "length c = ?n" for c
      using that p u(2) False le by (auto simp: heap_store_def)
    moreover have "length (map Some bs @ drop (length bs) ?mem) = ?n" using bs len by simp
    ultimately show "heap_store h p (map Some bs @ drop (length bs) ?mem) = heap_write h p bs"
      using heap_write_ok [of h u cs ?o bs] u(2) bs p by simp
  qed
qed

lemma chunk_mut_ok:
  assumes ok: "mut_ok h0 hs vs (m, h)" and chunk: "bytes_mut_chunk_mut alloc h m = Inr (mem, commit)"
  obtains m1 h1 where "mut_ok h0 hs vs (m1, h1)" "contents h1 (HM m1) = contents h (HM m)" "bm_len m1 = bm_len m"
    "bm_cap m - bm_len m \<le> bm_cap m1 - bm_len m1" "length mem = bm_cap m1 - bm_len m1"
    "\<And>bs. length bs \<le> length mem \<Longrightarrow> commit (map Some bs @ drop (length bs) mem) =
      res_bind (heap_write h1 (Ptr (blk (bm_ptr m1)) (off (bm_ptr m1) + bm_len m1)) bs) (\<lambda>h. Inr (m1, h))"
proof -
  note f = mut_ok_fields [OF ok]
  have "\<exists>m1 h1. (if bm_cap m = bm_len m then reserve alloc h m 64 else Inr (m, h)) = Inr (m1, h1) \<and>
    mut_ok h0 hs vs (m1, h1) \<and> contents h1 (HM m1) = contents h (HM m) \<and> bm_len m1 = bm_len m \<and>
    bm_cap m - bm_len m \<le> bm_cap m1 - bm_len m1"
  proof (cases "bm_cap m = bm_len m")
    case True
    show ?thesis using f(1)
    proof (cases rule: reserve_ok [where additional = 64])
      case (ok m1 h1)
      with mut_ok_became [OF assms(1) ok(2)] True show ?thesis by (auto simp: mut_view_def)
    next
      case too_large
      with chunk True show ?thesis by (auto simp: bytes_mut_chunk_mut_def too_large_def capacity_overflow_def)
    qed
  qed (use ok in simp)
  then obtain m1 h1 where m1: "(if bm_cap m = bm_len m then reserve alloc h m 64 else Inr (m, h)) = Inr (m1, h1)"
    "mut_ok h0 hs vs (m1, h1)" "contents h1 (HM m1) = contents h (HM m)" "bm_len m1 = bm_len m"
    "bm_cap m - bm_len m \<le> bm_cap m1 - bm_len m1" by blast
  note f1 = mut_ok_fields [OF m1(2)]
  obtain cells where c: "heap_cells h1 (Ptr (blk (bm_ptr m1)) (off (bm_ptr m1) + bm_len m1)) (bm_cap m1 - bm_len m1) = Inr cells"
      "length cells = bm_cap m1 - bm_len m1"
      "\<And>bs. length bs \<le> length cells \<Longrightarrow> heap_store h1 (Ptr (blk (bm_ptr m1)) (off (bm_ptr m1) + bm_len m1)) (map Some bs @ drop (length bs) cells) =
        heap_write h1 (Ptr (blk (bm_ptr m1)) (off (bm_ptr m1) + bm_len m1)) bs"
    using spare_cells [OF f1(1)] by blast
  have "mem = cells \<and> commit = (\<lambda>cells. res_bind (heap_store h1 (Ptr (blk (bm_ptr m1)) (off (bm_ptr m1) + bm_len m1)) cells) (\<lambda>h. Inr (m1, h)))"
    using chunk m1(1) spare_capacity_ok [OF f1(1)] c(1) by (simp add: bytes_mut_chunk_mut_def)
  with that [OF m1(2,3,4,5)] c(2,3) show thesis by simp
qed

lemma mut_writer_core: "buf_mut_core_contract (bytes_mut_mut_core alloc) (mut_ok h0 hs vs) mut_view mut_room"
proof unfold_locales
  fix s assume s: "mut_ok h0 hs vs s"
  obtain m h where mh: "s = (m, h)" by (cases s)
  note ok = s [unfolded mh]
  note f = mut_ok_fields [OF ok]
  show "mut_room s \<le> remaining_mut (bytes_mut_mut_core alloc) s"
    using f by (simp add: mh mut_room_def bytes_mut_mut_core_def bytes_mut_remaining_mut_def)
  show "\<exists>mem commit. chunk_mut (bytes_mut_mut_core alloc) s = Inr (mem, commit) \<and> mem \<noteq> []" if "0 < mut_room s"
  proof -
    obtain cells where "heap_cells h (Ptr (blk (bm_ptr m)) (off (bm_ptr m) + bm_len m)) (bm_cap m - bm_len m) = Inr cells"
      "length cells = bm_cap m - bm_len m" using spare_cells [OF f(1)] by blast
    with that spare_capacity_ok [OF f(1)] show ?thesis
      by (auto simp: mh mut_room_def bytes_mut_mut_core_def bytes_mut_chunk_mut_def)
  qed
  fix mem commit assume "chunk_mut (bytes_mut_mut_core alloc) s = Inr (mem, commit)"
  then have chunk: "bytes_mut_chunk_mut alloc h m = Inr (mem, commit)" by (simp add: mh bytes_mut_mut_core_def)
  obtain m1 h1 where m1: "mut_ok h0 hs vs (m1, h1)" "contents h1 (HM m1) = contents h (HM m)" "bm_len m1 = bm_len m"
    "bm_cap m - bm_len m \<le> bm_cap m1 - bm_len m1" "length mem = bm_cap m1 - bm_len m1"
    "\<And>bs. length bs \<le> length mem \<Longrightarrow> commit (map Some bs @ drop (length bs) mem) =
      res_bind (heap_write h1 (Ptr (blk (bm_ptr m1)) (off (bm_ptr m1) + bm_len m1)) bs) (\<lambda>h. Inr (m1, h))"
    using chunk_mut_ok [OF ok chunk] by blast
  note f1 = mut_ok_fields [OF m1(1)]
  show "length mem \<le> remaining_mut (bytes_mut_mut_core alloc) s"
    using f1 m1 by (simp add: mh bytes_mut_mut_core_def bytes_mut_remaining_mut_def)
  fix bs :: "u8 list" assume len: "length bs \<le> length mem"
  then have fit: "bm_len m1 + length bs \<le> bm_cap m1" using m1(5) f1(3) by simp
  from write_spare [OF f1(1) fit] obtain h2 where
    h2: "heap_write h1 (Ptr (blk (bm_ptr m1)) (off (bm_ptr m1) + bm_len m1)) bs = Inr h2"
      "became h1 hs vs (HM (m1\<lparr>bm_len := bm_len m1 + length bs\<rparr>)) (contents h1 (HM m1) @ bs) h2" by blast
  let ?m2 = "m1\<lparr>bm_len := bm_len m1 + length bs\<rparr>"
  note b2 = mut_ok_became [OF m1(1) h2(2)]
  have "commit (map Some bs @ drop (length bs) mem) = Inr (m1, h2)" using m1(6) [OF len] h2(1) by simp
  moreover have "advance_mut (bytes_mut_mut_core alloc) (m1, h2) (length bs) = Inr (?m2, h2)"
    using fit f1(3) by (auto simp: bytes_mut_mut_core_def bytes_mut_advance_mut_def usize_sub_def)
  moreover have "written (bytes_mut_mut_core alloc) (mut_ok h0 hs vs) mut_view mut_room bs s (?m2, h2)"
    using b2 m1(2,3,4) by (simp add: written_def mh mut_view_def mut_room_def bytes_mut_mut_core_def bytes_mut_remaining_mut_def)
  ultimately show "\<exists>b1 b2. commit (map Some bs @ drop (length bs) mem) = Inr b1 \<and>
      remaining_mut (bytes_mut_mut_core alloc) b1 = remaining_mut (bytes_mut_mut_core alloc) s \<and>
      advance_mut (bytes_mut_mut_core alloc) b1 (length bs) = Inr b2 \<and>
      written (bytes_mut_mut_core alloc) (mut_ok h0 hs vs) mut_view mut_room bs s b2"
    using m1(3) by (intro exI [of _ "(m1, h2)"] exI [of _ "(?m2, h2)"])
      (simp add: mh bytes_mut_mut_core_def bytes_mut_remaining_mut_def)
qed

text \<open>Appending within the capacity keeps the buffer and the capacity.\<close>

lemma append_fits:
  assumes inv: "bytes_inv h (add_mset (HM m) hs) vs" and fit: "bm_len m + length bs \<le> bm_cap m"
  obtains h' where "bytes_mut_extend_from_slice alloc h m bs = Inr (m\<lparr>bm_len := bm_len m + length bs\<rparr>, h')"
    "\<And>val cnt. bs = replicate cnt val \<Longrightarrow> bytes_mut_put_bytes alloc h m val cnt = Inr (m\<lparr>bm_len := bm_len m + length bs\<rparr>, h')"
    "became h hs vs (HM (m\<lparr>bm_len := bm_len m + length bs\<rparr>)) (contents h (HM m) @ bs) h'"
proof -
  from write_spare [OF inv fit] obtain h' where
    h': "heap_write h (Ptr (blk (bm_ptr m)) (off (bm_ptr m) + bm_len m)) bs = Inr h'"
      "became h hs vs (HM (m\<lparr>bm_len := bm_len m + length bs\<rparr>)) (contents h (HM m) @ bs) h'" by blast
  have "reserve alloc h m (length bs) = Inr (m, h)" using fit by (simp add: reserve_def usize_sub_def) linarith
  moreover have "length bs \<le> bm_cap m - bm_len m" "bm_len m \<le> bm_cap m" using fit by simp_all
  ultimately have "bytes_mut_extend_from_slice alloc h m bs = Inr (m\<lparr>bm_len := bm_len m + length bs\<rparr>, h')"
    "\<And>val cnt. bs = replicate cnt val \<Longrightarrow> bytes_mut_put_bytes alloc h m val cnt = Inr (m\<lparr>bm_len := bm_len m + length bs\<rparr>, h')"
    using h'(1) spare_capacity_ok [OF inv]
    by (auto simp: bytes_mut_extend_from_slice_def bytes_mut_put_bytes_def bytes_mut_advance_mut_def rust_assert_def usize_sub_def Let_def)
  with h'(2) that show thesis by blast
qed

lemma appended_writes:
  assumes "\<And>m h. bytes_inv h (add_mset (HM m) hs) vs \<Longrightarrow> appended h hs vs m bs (op m h)"
    and "\<And>m h. bytes_inv h (add_mset (HM m) hs) vs \<Longrightarrow> bm_len m + length bs \<le> bm_cap m \<Longrightarrow>
      \<exists>h'. op m h = Inr (m\<lparr>bm_len := bm_len m + length bs\<rparr>, h') \<and>
        became h hs vs (HM (m\<lparr>bm_len := bm_len m + length bs\<rparr>)) (contents h (HM m) @ bs) h'"
    and M: "remaining_mut M = (\<lambda>(m, h). bytes_mut_remaining_mut m)"
  shows "writes M (mut_ok h0 hs vs) mut_view mut_room bs (\<lambda>(m, h). op m h)"
  unfolding writes_def
proof (intro allI impI conjI)
  fix s assume s: "mut_ok h0 hs vs s"
  obtain m h where mh: "s = (m, h)" by (cases s)
  note ok = s [unfolded mh]
  note f = mut_ok_fields [OF ok]
  show "\<exists>s'. (case s of (m, h) \<Rightarrow> op m h) = Inr s' \<and> written M (mut_ok h0 hs vs) mut_view mut_room bs s s'"
    if "length bs \<le> mut_room s"
  proof -
    from that f(3) have "bm_len m + length bs \<le> bm_cap m" by (simp add: mh mut_room_def)
    from assms(2) [OF f(1) this] obtain h' where
      h': "op m h = Inr (m\<lparr>bm_len := bm_len m + length bs\<rparr>, h')"
        "became h hs vs (HM (m\<lparr>bm_len := bm_len m + length bs\<rparr>)) (contents h (HM m) @ bs) h'" by blast
    with mut_ok_became [OF ok h'(2)] show ?thesis
      by (simp add: mh written_def M mut_view_def mut_room_def bytes_mut_remaining_mut_def)
  qed
  show "\<exists>p. (case s of (m, h) \<Rightarrow> op m h) = Inl (Panic p)" if big: "remaining_mut M s < length bs"
    using assms(1) [OF f(1)] unfolding appended_def
  proof
    assume "\<exists>m' h'. op m h = Inr (m', h') \<and> became h hs vs (HM m') (contents h (HM m) @ bs) h'"
    then obtain m' h' where "became h hs vs (HM m') (contents h (HM m) @ bs) h'" by blast
    with mut_ok_became [OF ok this] mut_ok_fields [of h0 hs vs m' h'] f have "bm_len m + length bs \<le> isize_max"
      by (simp add: mut_view_def)
    with big f show ?thesis by (simp add: mh M bytes_mut_remaining_mut_def)
  qed (auto simp: mh too_large_def capacity_overflow_def)
qed

lemma mut_writer: "buf_mut_contract (bytes_mut_buf_mut alloc) (mut_ok h0 hs vs) mut_view mut_room"
proof -
  have core: "buf_mut_core_contract (bytes_mut_buf_mut alloc) (mut_ok h0 hs vs) mut_view mut_room"
    by (rule buf_mut_core_contract_cong [OF mut_writer_core]) (simp_all add: bytes_mut_buf_mut_def)
  have rem: "remaining_mut (bytes_mut_buf_mut alloc) = (\<lambda>(m, h). bytes_mut_remaining_mut m)"
    by (simp add: bytes_mut_buf_mut_def bytes_mut_mut_core_def)
  have "writes (bytes_mut_buf_mut alloc) (mut_ok h0 hs vs) mut_view mut_room src (\<lambda>(m, h). bytes_mut_extend_from_slice alloc h m src)" for src
    by (rule appended_writes [OF bytes_mut_extend_from_slice_ok _ rem]) (assumption, erule (1) append_fits, blast)
  moreover have "writes (bytes_mut_buf_mut alloc) (mut_ok h0 hs vs) mut_view mut_room (replicate cnt val)
      (\<lambda>(m, h). bytes_mut_put_bytes alloc h m val cnt)" for cnt val
    by (rule appended_writes [OF bytes_mut_put_bytes_ok _ rem]) (assumption, erule (1) append_fits, blast)
  ultimately show ?thesis using core
    by (simp add: buf_mut_contract_def buf_mut_contract_axioms_def bytes_mut_buf_mut_def bytes_mut_put_slice_def case_prod_beta')
qed

end

text \<open>The contracts for one allocator\<close>

interpretation bump_reader: buf_complete "bytes_mut_buf bump" "mut_ok h0 hs vs" mut_view for h0 hs vs
  by (rule bump.mut_reader)

interpretation bump_writer: buf_mut_contract "bytes_mut_buf_mut bump" "mut_ok h0 hs vs" mut_view mut_room for h0 hs vs
  by (rule bump.mut_writer)

end
