(* ===== verification/Fmt.thy ===== *)
theory Fmt
  imports Prelude
begin

text \<open>
  Formatting (\<^verbatim>\<open>patches/bytes/src/fmt\<close> and the \<open>Display\<close> of \<^verbatim>\<open>lib.rs\<close>): what \<open>{:?}\<close>, \<open>{:x}\<close> and
  \<open>{:X}\<close> print for a string of bytes, over any sink of text, and that the text can be read back.
\<close>

section \<open>Sinks\<close>

text \<open>
  A \<open>fmt::Write\<close> is its method \<open>write_str\<close>, which may panic, or return \<open>fmt::Error\<close> (\<open>Err ()\<close>).
  One \<open>write!\<close> is one call of it: in which portions \<open>core::fmt\<close> passes the text of one \<open>write!\<close> on
  is left open. \<open>fmt_try\<close> is the operator \<open>?\<close>.
\<close>

type_synonym fmt_result = "(unit, unit) result"
type_synonym 's fmt_write = "'s \<Rightarrow> string \<Rightarrow> (fmt_result \<times> 's) res"

definition fmt_try :: "(fmt_result \<times> 's) res \<Rightarrow> ('s \<Rightarrow> (fmt_result \<times> 's) res) \<Rightarrow> (fmt_result \<times> 's) res" where
  "fmt_try r k = res_bind r (\<lambda>(x, s). case x of Ok _ \<Rightarrow> k s | Err e \<Rightarrow> Inr (Err e, s))"

text \<open>\<open>for &b in self.0 { write!(f, ...)?; }\<close>\<close>

fun write_each :: "'s fmt_write \<Rightarrow> (u8 \<Rightarrow> string) \<Rightarrow> u8 list \<Rightarrow> 's \<Rightarrow> (fmt_result \<times> 's) res" where
  "write_each W piece [] f = Inr (Ok (), f)"
| "write_each W piece (b # bs) f = fmt_try (W f (piece b)) (write_each W piece bs)"

text \<open>\<open>fmt::write(f, args)\<close>, on the pieces that the arguments format to\<close>

fun write_pieces :: "'s fmt_write \<Rightarrow> string list \<Rightarrow> 's \<Rightarrow> (fmt_result \<times> 's) res" where
  "write_pieces W [] f = Inr (Ok (), f)"
| "write_pieces W (p # ps) f = fmt_try (W f p) (write_pieces W ps)"

text \<open>The standard library's \<open>{:02x}\<close>, \<open>{:02X}\<close>, \<open>{}\<close> of a \<open>usize\<close>, and \<open>b as char\<close>\<close>

definition lower_digits :: string where "lower_digits = ''0123456789abcdef''"
definition upper_digits :: string where "upper_digits = ''0123456789ABCDEF''"

definition hex2 :: "string \<Rightarrow> u8 \<Rightarrow> string" where
  "hex2 digits b = [digits ! (unat b div 16), digits ! (unat b mod 16)]"

fun show_usize :: "usize \<Rightarrow> string" where
  "show_usize n = (if n < 10 then [lower_digits ! n] else show_usize (n div 10) @ [lower_digits ! (n mod 10)])"

declare show_usize.simps [simp del]

definition as_char :: "u8 \<Rightarrow> char" where
  "as_char b = char_of (unat b)"

definition backslash :: char where "backslash = CHR 0x5C"
definition quote :: char where "quote = CHR 0x22"

section \<open>Debug, LowerHex and UpperHex of BytesRef\<close>

definition debug_piece :: "u8 \<Rightarrow> string" where
  "debug_piece b =
     (if b = 10 then [backslash, CHR ''n'']
      else if b = 13 then [backslash, CHR ''r'']
      else if b = 9 then [backslash, CHR ''t'']
      else if b = 0x5C \<or> b = 0x22 then [backslash, as_char b]
      else if b = 0 then [backslash, CHR ''0'']
      else if 0x20 \<le> b \<and> b < 0x7F then [as_char b]
      else [backslash, CHR ''x''] @ hex2 lower_digits b)"

definition bytes_ref_debug :: "'s fmt_write \<Rightarrow> u8 list \<Rightarrow> 's \<Rightarrow> (fmt_result \<times> 's) res" where
  "bytes_ref_debug W self f =
     fmt_try (W f [CHR ''b'', quote]) (\<lambda>f.
     fmt_try (write_each W debug_piece self f) (\<lambda>f.
     fmt_try (W f [quote]) (\<lambda>f.
     Inr (Ok (), f))))"

definition bytes_ref_lower_hex :: "'s fmt_write \<Rightarrow> u8 list \<Rightarrow> 's \<Rightarrow> (fmt_result \<times> 's) res" where
  "bytes_ref_lower_hex W self f = fmt_try (write_each W (hex2 lower_digits) self f) (\<lambda>f. Inr (Ok (), f))"

definition bytes_ref_upper_hex :: "'s fmt_write \<Rightarrow> u8 list \<Rightarrow> 's \<Rightarrow> (fmt_result \<times> 's) res" where
  "bytes_ref_upper_hex W self f = fmt_try (write_each W (hex2 upper_digits) self f) (\<lambda>f. Inr (Ok (), f))"

definition try_get_error_display :: "'s fmt_write \<Rightarrow> try_get_error \<Rightarrow> 's \<Rightarrow> (fmt_result \<times> 's) res" where
  "try_get_error_display W self f =
     W f (''Not enough bytes remaining in buffer to read value (requested '' @ show_usize (requested self) @
       '' but only '' @ show_usize (available self) @ '' available)'')"

text \<open>A \<open>String\<close> takes all text.\<close>

definition string_write_str :: "string fmt_write" where
  "string_write_str self s = Inr (Ok (), self @ s)"

section \<open>What is written\<close>

text \<open>A result that has written \<open>s\<close>, or panicked, or stopped after a part of it\<close>

definition writes_text :: "('s \<Rightarrow> bool) \<Rightarrow> ('s \<Rightarrow> string) \<Rightarrow> string \<Rightarrow> 's \<Rightarrow> (fmt_result \<times> 's) res \<Rightarrow> bool" where
  "writes_text ok txt_of s f r \<longleftrightarrow> (\<exists>p. r = Inl (Panic p)) \<or>
     (\<exists>f'. ok f' \<and> (r = Inr (Ok (), f') \<and> txt_of f' = txt_of f @ s \<or>
        (\<exists>t. r = Inr (Err (), f') \<and> prefix t s \<and> txt_of f' = txt_of f @ t)))"

text \<open>
  The contract of a sink: text is appended as a whole, or nothing is and the sink reports an
  error, or it panics.
\<close>

locale fmt_sink =
  fixes W :: "'s fmt_write" and ok :: "'s \<Rightarrow> bool" and txt_of :: "'s \<Rightarrow> string"
  assumes write_str: "ok f \<Longrightarrow> (\<exists>p. W f s = Inl (Panic p)) \<or>
    (\<exists>f'. ok f' \<and> (W f s = Inr (Ok (), f') \<and> txt_of f' = txt_of f @ s \<or> W f s = Inr (Err (), f') \<and> txt_of f' = txt_of f))"
begin

lemma writes_text_write_str: "ok f \<Longrightarrow> writes_text ok txt_of s f (W f s)"
  using write_str [of f s] by (fastforce simp: writes_text_def)

lemma writes_text_nil: "ok f \<Longrightarrow> writes_text ok txt_of [] f (Inr (Ok (), f))"
  by (simp add: writes_text_def)

lemma writes_text_try:
  assumes "writes_text ok txt_of s f r" "\<And>f'. ok f' \<Longrightarrow> txt_of f' = txt_of f @ s \<Longrightarrow> writes_text ok txt_of t f' (k f')"
  shows "writes_text ok txt_of (s @ t) f (fmt_try r k)"
proof -
  from assms(1) consider p where "r = Inl (Panic p)"
    | f' where "ok f'" "r = Inr (Ok (), f')" "txt_of f' = txt_of f @ s"
    | f' u where "ok f'" "r = Inr (Err (), f')" "prefix u s" "txt_of f' = txt_of f @ u"
    unfolding writes_text_def by blast
  then show ?thesis
  proof cases
    case 2
    with assms(2) [of f'] show ?thesis
      by (fastforce simp: writes_text_def fmt_try_def)
  qed (auto simp: writes_text_def fmt_try_def)
qed

lemma writes_text_each: "ok f \<Longrightarrow> writes_text ok txt_of (concat (map piece bs)) f (write_each W piece bs f)"
  by (induction bs arbitrary: f) (auto intro: writes_text_nil writes_text_try writes_text_write_str)

lemma writes_text_pieces: "ok f \<Longrightarrow> writes_text ok txt_of (concat ps) f (write_pieces W ps f)"
  by (induction ps arbitrary: f) (auto intro: writes_text_nil writes_text_try writes_text_write_str)

lemma debug_text:
  assumes "ok f"
  shows "writes_text ok txt_of ([CHR ''b'', quote] @ concat (map debug_piece bs) @ [quote]) f (bytes_ref_debug W bs f)"
proof -
  have "writes_text ok txt_of ([quote] @ []) f (fmt_try (W f [quote]) (\<lambda>f. Inr (Ok (), f)))" if "ok f" for f
    using that by (intro writes_text_try writes_text_write_str writes_text_nil)
  then show ?thesis unfolding bytes_ref_debug_def
    using assms by (intro writes_text_try writes_text_write_str writes_text_each) simp_all
qed

lemma hex_text:
  assumes "ok f"
  shows "writes_text ok txt_of (concat (map (hex2 lower_digits) bs)) f (bytes_ref_lower_hex W bs f)"
    "writes_text ok txt_of (concat (map (hex2 upper_digits) bs)) f (bytes_ref_upper_hex W bs f)"
proof -
  have "writes_text ok txt_of (concat (map (hex2 d) bs) @ []) f (fmt_try (write_each W (hex2 d) bs f) (\<lambda>f. Inr (Ok (), f)))" for d
    using assms by (intro writes_text_try writes_text_each writes_text_nil)
  then show "writes_text ok txt_of (concat (map (hex2 lower_digits) bs)) f (bytes_ref_lower_hex W bs f)"
    "writes_text ok txt_of (concat (map (hex2 upper_digits) bs)) f (bytes_ref_upper_hex W bs f)"
    by (simp_all add: bytes_ref_lower_hex_def bytes_ref_upper_hex_def)
qed

end

interpretation string_sink: fmt_sink string_write_str "\<lambda>s. True" "\<lambda>s. s"
  by unfold_locales (simp add: string_write_str_def)

lemma write_each_string: "write_each string_write_str piece bs s = Inr (Ok (), s @ concat (map piece bs))"
  by (induction bs arbitrary: s) (simp_all add: fmt_try_def string_write_str_def)

lemma bytes_ref_debug_string:
  "bytes_ref_debug string_write_str bs s = Inr (Ok (), s @ [CHR ''b'', quote] @ concat (map debug_piece bs) @ [quote])"
  by (simp add: bytes_ref_debug_def fmt_try_def write_each_string string_write_str_def)

lemma bytes_ref_hex_string:
  "bytes_ref_lower_hex string_write_str bs s = Inr (Ok (), s @ concat (map (hex2 lower_digits) bs))"
  "bytes_ref_upper_hex string_write_str bs s = Inr (Ok (), s @ concat (map (hex2 upper_digits) bs))"
  by (simp_all add: bytes_ref_lower_hex_def bytes_ref_upper_hex_def fmt_try_def write_each_string)

section \<open>Reading the text back\<close>

text \<open>The digits of a number in base 16, in either case\<close>

definition hex_value :: "char \<Rightarrow> nat option" where
  "hex_value c =
     (let n = of_char c in
      if 48 \<le> n \<and> n \<le> 57 then Some (n - 48)
      else if 97 \<le> n \<and> n \<le> 102 then Some (n - 87)
      else if 65 \<le> n \<and> n \<le> 70 then Some (n - 55)
      else None)"

definition hex_byte :: "char \<Rightarrow> char \<Rightarrow> u8 option" where
  "hex_byte c d =
     (case (hex_value c, hex_value d) of
        (Some i, Some j) \<Rightarrow> Some (of_nat (16 * i + j)) | _ \<Rightarrow> None)"

fun parse_hex :: "string \<Rightarrow> u8 list option" where
  "parse_hex [] = Some []"
| "parse_hex (c # d # cs) =
     (case (hex_byte c d, parse_hex cs) of (Some b, Some bs) \<Rightarrow> Some (b # bs) | _ \<Rightarrow> None)"
| "parse_hex _ = None"

text \<open>
  A byte string literal of the Rust language: printable ASCII characters for themselves, and
  the escapes \<open>n\<close>, \<open>r\<close>, \<open>t\<close>, backslash, \<open>0\<close>, both quotes and \<open>x\<close> with two hexadecimal digits.
\<close>

definition simple_escape :: "char \<Rightarrow> u8 option" where
  "simple_escape c =
     (if c = CHR ''n'' then Some 10 else if c = CHR ''r'' then Some 13 else if c = CHR ''t'' then Some 9
      else if c = backslash then Some 0x5C else if c = quote then Some 0x22 else if c = CHR 0x27 then Some 0x27
      else if c = CHR ''0'' then Some 0 else None)"

fun parse_chars :: "string \<Rightarrow> (u8 list \<times> string) option" where
  "parse_chars [] = None"
| "parse_chars (c # cs) =
     (if c = quote then Some ([], cs)
      else if c = backslash then
        (case cs of
           [] \<Rightarrow> None
         | e # es \<Rightarrow>
             if e = CHR ''x'' then
               (case es of
                  x # y # zs \<Rightarrow>
                    (case (hex_byte x y, parse_chars zs) of (Some b, Some (bs, r)) \<Rightarrow> Some (b # bs, r) | _ \<Rightarrow> None)
                | _ \<Rightarrow> None)
             else
               (case (simple_escape e, parse_chars es) of (Some b, Some (bs, r)) \<Rightarrow> Some (b # bs, r) | _ \<Rightarrow> None))
      else map_option (\<lambda>(bs, r). (of_nat (of_char c) # bs, r)) (parse_chars cs))"

definition parse_byte_string :: "string \<Rightarrow> u8 list option" where
  "parse_byte_string s =
     (case s of
        c # q # cs \<Rightarrow>
          if c = CHR ''b'' \<and> q = quote then
            (case parse_chars cs of Some (bs, []) \<Rightarrow> Some bs | _ \<Rightarrow> None)
          else None
      | _ \<Rightarrow> None)"

lemma less_16: "n < 16 \<Longrightarrow> n \<in> {0, 1, 2, 3, 4, 5, 6, 7, 8, 9, 10, 11, 12, 13, 14, 15::nat}"
  by (simp add: numeral_eq_Suc less_Suc_eq)

lemma hex_value_digits:
  "n < 16 \<Longrightarrow> hex_value (lower_digits ! n) = Some n" "n < 16 \<Longrightarrow> hex_value (upper_digits ! n) = Some n"
  by (drule less_16; auto simp: hex_value_def lower_digits_def upper_digits_def)+

lemma unat_u8: "unat (b :: u8) < 256"
  using unsigned_less [of b] by simp

lemma hex_byte_hex2: "hex_byte (lower_digits ! (unat b div 16)) (lower_digits ! (unat b mod 16)) = Some b"
  "hex_byte (upper_digits ! (unat b div 16)) (upper_digits ! (unat b mod 16)) = Some b"
proof -
  have "unat b div 16 < 16" "unat b mod 16 < 16" using unat_u8 [of b] by auto
  moreover have "of_nat (16 * (unat b div 16) + unat b mod 16) = b" by (simp only: mult_div_mod_eq) simp
  ultimately show "hex_byte (lower_digits ! (unat b div 16)) (lower_digits ! (unat b mod 16)) = Some b"
    "hex_byte (upper_digits ! (unat b div 16)) (upper_digits ! (unat b mod 16)) = Some b"
    by (simp_all add: hex_byte_def hex_value_digits)
qed

lemma parse_hex_hex2:
  "parse_hex (concat (map (hex2 lower_digits) bs)) = Some bs" "parse_hex (concat (map (hex2 upper_digits) bs)) = Some bs"
  by (induction bs) (simp_all add: hex2_def hex_byte_hex2)

lemma of_char_as_char [simp]: "of_char (as_char b) = unat b"
  using unat_u8 [of b] by (simp add: as_char_def)

lemma as_char_eq_iff: "as_char b = c \<longleftrightarrow> unat b = of_char c"
  using of_char_as_char by (metis as_char_def char_of_char)

lemma marks: "backslash \<noteq> quote" "quote \<noteq> backslash" "CHR ''n'' \<noteq> backslash" "CHR ''r'' \<noteq> backslash" "CHR ''t'' \<noteq> backslash"
  "CHR ''n'' \<noteq> quote" "CHR ''r'' \<noteq> quote" "CHR ''t'' \<noteq> quote" "CHR ''0'' \<noteq> quote" "CHR ''0'' \<noteq> backslash"
  "backslash \<noteq> CHR ''n''" "backslash \<noteq> CHR ''r''" "backslash \<noteq> CHR ''t''" "quote \<noteq> CHR ''n''" "quote \<noteq> CHR ''r''"
  "quote \<noteq> CHR ''t''" "CHR ''x'' \<noteq> backslash" "CHR ''x'' \<noteq> quote"
  by (simp_all add: backslash_def quote_def)

lemma parse_chars_piece:
  "parse_chars (debug_piece b @ cs) = map_option (\<lambda>(bs, r). (b # bs, r)) (parse_chars cs)"
proof -
  consider (simple) "b \<in> {10, 13, 9, 0x5C, 0x22, 0}"
    | (printable) "b \<notin> {10, 13, 9, 0x5C, 0x22, 0}" "0x20 \<le> b \<and> b < 0x7F"
    | (other) "b \<notin> {10, 13, 9, 0x5C, 0x22, 0}" "\<not> (0x20 \<le> b \<and> b < 0x7F)"
    by blast
  then show ?thesis
  proof cases
    case simple
    have escape: "parse_chars (backslash # e # cs) = map_option (\<lambda>(bs, r). (b # bs, r)) (parse_chars cs)"
      if "simple_escape e = Some b" for e
      using that marks simple_escape_def [of "CHR ''x''"] by (auto simp: backslash_def split: option.split)
    have "as_char 0x5C = backslash" "as_char 0x22 = quote" by (simp_all add: as_char_eq_iff backslash_def quote_def)
    with simple obtain e where "debug_piece b = [backslash, e]" "simple_escape e = Some b"
      using marks by (auto simp: debug_piece_def simple_escape_def)
    with escape [of e] show ?thesis by (simp only: append.simps)
  next
    case printable
    then have "unat b \<noteq> 0x5C" "unat b \<noteq> 0x22" by (simp_all add: word_unat_eq_iff)
    then have "as_char b \<noteq> quote" "as_char b \<noteq> backslash" by (simp_all add: as_char_eq_iff quote_def backslash_def)
    with printable show ?thesis by (simp add: debug_piece_def)
  next
    case other
    then have "debug_piece b = [backslash, CHR ''x''] @ hex2 lower_digits b" by (simp add: debug_piece_def)
    then show ?thesis
      by (simp add: hex2_def hex_byte_hex2 backslash_def quote_def split: option.split)
  qed
qed

lemma parse_chars_pieces: "parse_chars (concat (map debug_piece bs) @ [quote]) = Some (bs, [])"
  by (induction bs) (simp_all add: parse_chars_piece)

lemma parse_debug: "parse_byte_string ([CHR ''b'', quote] @ concat (map debug_piece bs) @ [quote]) = Some bs"
  by (simp add: parse_byte_string_def parse_chars_pieces)

text \<open>Everything printed is printable.\<close>

definition printable :: "char \<Rightarrow> bool" where
  "printable c \<longleftrightarrow> 0x20 \<le> (of_char c :: nat) \<and> (of_char c :: nat) < 0x7F"

lemma printable_digits: "n < 16 \<Longrightarrow> printable (lower_digits ! n)"
  by (drule less_16; auto simp: printable_def lower_digits_def)

lemma printable_hex2: "list_all printable (hex2 lower_digits b)"
proof -
  have "unat b div 16 < 16" "unat b mod 16 < 16" using unat_u8 [of b] by auto
  then show ?thesis by (simp add: hex2_def printable_digits)
qed

lemma printable_piece: "list_all printable (debug_piece b)"
proof -
  have "printable backslash" "printable quote" "printable (CHR ''n'')" "printable (CHR ''r'')" "printable (CHR ''t'')"
    "printable (CHR ''x'')" "printable (CHR ''0'')" by (simp_all add: printable_def backslash_def quote_def)
  moreover have "printable (as_char b)" if "0x20 \<le> b" "b < 0x7F"
    using that by (simp add: printable_def word_le_nat_alt word_less_nat_alt)
  ultimately show ?thesis using printable_hex2 [of b] by (auto simp: debug_piece_def)
qed

lemma printable_pieces: "list_all printable (concat (map debug_piece bs))"
  by (induction bs) (simp_all add: printable_piece)

section \<open>Properties\<close>

text \<open>
  C40. Formatting loses nothing: the \<open>Debug\<close> text of any bytes is printable ASCII and, read as a
  Rust byte string literal, denotes exactly those bytes; the \<open>LowerHex\<close> and \<open>UpperHex\<close> texts have two
  digits for every byte and read back as the bytes.
\<close>

theorem fmt_round_trip:
  "\<exists>d l u. bytes_ref_debug string_write_str bs [] = Inr (Ok (), d) \<and> parse_byte_string d = Some bs \<and> list_all printable d \<and>
     bytes_ref_lower_hex string_write_str bs [] = Inr (Ok (), l) \<and> parse_hex l = Some bs \<and> length l = 2 * length bs \<and>
     bytes_ref_upper_hex string_write_str bs [] = Inr (Ok (), u) \<and> parse_hex u = Some bs \<and> length u = 2 * length bs"
proof -
  have "length (concat (map (hex2 d) bs)) = 2 * length bs" for d by (induction bs) (simp_all add: hex2_def)
  moreover have "printable quote" "printable (CHR ''b'')" by (simp_all add: printable_def quote_def)
  ultimately show ?thesis
    using parse_debug [of bs] by (simp add: bytes_ref_debug_string bytes_ref_hex_string parse_hex_hex2 printable_pieces)
qed

end
