(* ===== verification/Buf_Access.thy ===== *)
theory Buf_Access
  imports Buf_Adapters Buf_Mut_Impls Bytes_Mut_Buf Fmt
begin

text \<open>
  The constructors and accessors of the adapters (\<^verbatim>\<open>chain.rs\<close>, \<^verbatim>\<open>take.rs\<close>, \<^verbatim>\<open>limit.rs\<close>, \<^verbatim>\<open>iter.rs\<close>,
  \<^verbatim>\<open>reader.rs\<close>, \<^verbatim>\<open>writer.rs\<close>), the methods of \<open>Buf\<close> and \<open>BufMut\<close> that make them, and the views and
  indices of \<open>UninitSlice\<close> (\<^verbatim>\<open>uninit_slice.rs\<close>).

  A \<open>&mut\<close> to a part is the part and the function that writes it back into the whole. The structs
  \<open>IntoIter\<close>, \<open>Reader\<close> and \<open>Writer\<close> have one field and are that field.
\<close>

type_synonym ('p, 'w) borrow = "'p \<times> ('p \<Rightarrow> 'w)"

section \<open>Chain\<close>

definition chain_new :: "'a \<Rightarrow> 'b \<Rightarrow> ('a, 'b) chain" where "chain_new a b = \<lparr>chain_a = a, chain_b = b\<rparr>"
definition chain_first_ref :: "('a, 'b) chain \<Rightarrow> 'a" where "chain_first_ref self = chain_a self"
definition chain_first_mut :: "('a, 'b) chain \<Rightarrow> ('a, ('a, 'b) chain) borrow" where
  "chain_first_mut self = (chain_a self, \<lambda>a. self\<lparr>chain_a := a\<rparr>)"
definition chain_last_ref :: "('a, 'b) chain \<Rightarrow> 'b" where "chain_last_ref self = chain_b self"
definition chain_last_mut :: "('a, 'b) chain \<Rightarrow> ('b, ('a, 'b) chain) borrow" where
  "chain_last_mut self = (chain_b self, \<lambda>b. self\<lparr>chain_b := b\<rparr>)"
definition chain_into_inner :: "('a, 'b) chain \<Rightarrow> 'a \<times> 'b" where "chain_into_inner self = (chain_a self, chain_b self)"

section \<open>Take and Limit\<close>

definition take_new :: "'a \<Rightarrow> usize \<Rightarrow> 'a take_adapter" where "take_new inner limit = \<lparr>take_inner = inner, take_limit = limit\<rparr>"
definition take_into_inner :: "'a take_adapter \<Rightarrow> 'a" where "take_into_inner self = take_inner self"
definition take_get_ref :: "'a take_adapter \<Rightarrow> 'a" where "take_get_ref self = take_inner self"
definition take_get_mut :: "'a take_adapter \<Rightarrow> ('a, 'a take_adapter) borrow" where
  "take_get_mut self = (take_inner self, \<lambda>i. self\<lparr>take_inner := i\<rparr>)"
definition take_get_limit :: "'a take_adapter \<Rightarrow> usize" where "take_get_limit self = take_limit self"

definition limit_new :: "'a \<Rightarrow> usize \<Rightarrow> 'a limit_adapter" where "limit_new inner limit = \<lparr>limit_inner = inner, limit_limit = limit\<rparr>"
definition limit_into_inner :: "'a limit_adapter \<Rightarrow> 'a" where "limit_into_inner self = limit_inner self"
definition limit_get_ref :: "'a limit_adapter \<Rightarrow> 'a" where "limit_get_ref self = limit_inner self"
definition limit_get_mut :: "'a limit_adapter \<Rightarrow> ('a, 'a limit_adapter) borrow" where
  "limit_get_mut self = (limit_inner self, \<lambda>i. self\<lparr>limit_inner := i\<rparr>)"
definition limit_get_limit :: "'a limit_adapter \<Rightarrow> usize" where "limit_get_limit self = limit_limit self"
definition limit_set_limit :: "'a limit_adapter \<Rightarrow> usize \<Rightarrow> 'a limit_adapter" where
  "limit_set_limit self lim = self\<lparr>limit_limit := lim\<rparr>"

section \<open>IntoIter, Reader and Writer\<close>

definition into_iter_new :: "'b \<Rightarrow> 'b" where "into_iter_new inner = inner"
definition into_iter_into_inner :: "'b \<Rightarrow> 'b" where "into_iter_into_inner self = self"
definition into_iter_get_ref :: "'b \<Rightarrow> 'b" where "into_iter_get_ref self = self"
definition into_iter_get_mut :: "'b \<Rightarrow> ('b, 'b) borrow" where "into_iter_get_mut self = (self, \<lambda>b. b)"

definition reader_new :: "'b \<Rightarrow> 'b" where "reader_new buf = buf"
definition reader_get_ref :: "'b \<Rightarrow> 'b" where "reader_get_ref self = self"
definition reader_get_mut :: "'b \<Rightarrow> ('b, 'b) borrow" where "reader_get_mut self = (self, \<lambda>b. b)"
definition reader_into_inner :: "'b \<Rightarrow> 'b" where "reader_into_inner self = self"

definition writer_new :: "'b \<Rightarrow> 'b" where "writer_new buf = buf"
definition writer_get_ref :: "'b \<Rightarrow> 'b" where "writer_get_ref self = self"
definition writer_get_mut :: "'b \<Rightarrow> ('b, 'b) borrow" where "writer_get_mut self = (self, \<lambda>b. b)"
definition writer_into_inner :: "'b \<Rightarrow> 'b" where "writer_into_inner self = self"

section \<open>The methods that make adapters\<close>

definition buf_take :: "'b \<Rightarrow> usize \<Rightarrow> 'b take_adapter" where "buf_take self limit = take_new self limit"
definition buf_chain :: "'a \<Rightarrow> 'b \<Rightarrow> ('a, 'b) chain" where "buf_chain self next = chain_new self next"
definition buf_reader :: "'b \<Rightarrow> 'b" where "buf_reader self = reader_new self"
definition buf_mut_limit :: "'b \<Rightarrow> usize \<Rightarrow> 'b limit_adapter" where "buf_mut_limit self limit = limit_new self limit"
definition buf_mut_writer :: "'b \<Rightarrow> 'b" where "buf_mut_writer self = writer_new self"
definition buf_mut_chain_mut :: "'a \<Rightarrow> 'b \<Rightarrow> ('a, 'b) chain" where "buf_mut_chain_mut self next = chain_new self next"
definition chain_into_iter :: "('a, 'b) chain \<Rightarrow> ('a, 'b) chain" where "chain_into_iter self = into_iter_new self"
definition bytes_into_iter :: "bytes \<Rightarrow> bytes" where "bytes_into_iter self = into_iter_new self"
definition bytes_mut_into_iter :: "bytes_mut \<Rightarrow> bytes_mut" where "bytes_mut_into_iter self = into_iter_new self"

section \<open>Borrowing a part\<close>

text \<open>Running an operation on a part through a borrow\<close>

definition through :: "('w \<Rightarrow> ('p, 'w) borrow) \<Rightarrow> ('p \<Rightarrow> 'p res) \<Rightarrow> 'w \<Rightarrow> 'w res" where
  "through get_mut f w = res_bind (f (fst (get_mut w))) (\<lambda>p. Inr (snd (get_mut w) p))"

text \<open>The contract of an accessor pair: the shared borrow reads what the mutable one writes, and nothing else changes.\<close>

locale borrows =
  fixes get_ref :: "'w \<Rightarrow> 'p" and get_mut :: "'w \<Rightarrow> ('p, 'w) borrow"
  assumes reads: "fst (get_mut w) = get_ref w"
    and reads_back: "get_ref (snd (get_mut w) p) = p"
    and writes_back: "snd (get_mut w) (get_ref w) = w"
    and writes_over: "snd (get_mut (snd (get_mut w) p)) q = snd (get_mut w) q"
begin

lemma through_twice: "res_bind (through get_mut f w) (through get_mut g) = through get_mut (\<lambda>p. res_bind (f p) g) w"
  by (cases "f (get_ref w)") (simp_all add: through_def reads reads_back writes_over)

lemma through_nothing: "through get_mut Inr w = Inr w"
  by (simp add: through_def reads writes_back)

lemma through_ref: "through get_mut f w = Inr w' \<Longrightarrow> f (get_ref w) = Inr (get_ref w')"
  by (auto simp: through_def reads reads_back)

end

interpretation chain_first: borrows chain_first_ref chain_first_mut
  by unfold_locales (simp_all add: chain_first_ref_def chain_first_mut_def)

interpretation chain_last: borrows chain_last_ref chain_last_mut
  by unfold_locales (simp_all add: chain_last_ref_def chain_last_mut_def)

interpretation take_part: borrows take_get_ref take_get_mut
  by unfold_locales (simp_all add: take_get_ref_def take_get_mut_def)

interpretation limit_part: borrows limit_get_ref limit_get_mut
  by unfold_locales (simp_all add: limit_get_ref_def limit_get_mut_def)

interpretation into_iter_part: borrows into_iter_get_ref into_iter_get_mut
  by unfold_locales (simp_all add: into_iter_get_ref_def into_iter_get_mut_def)

interpretation reader_part: borrows reader_get_ref reader_get_mut
  by unfold_locales (simp_all add: reader_get_ref_def reader_get_mut_def)

interpretation writer_part: borrows writer_get_ref writer_get_mut
  by unfold_locales (simp_all add: writer_get_ref_def writer_get_mut_def)

text \<open>What the parts have left after reading \<open>n\<close> bytes through the adapter\<close>

context two_bufs
begin

lemma chain_advance_parts:
  assumes c: "chain_ok oka va okb vb c" and n: "n \<le> length (chain_view va vb c)"
  shows "\<exists>c'. chain_advance A B c n = Inr c' \<and> va (fst (chain_into_inner c')) = drop n (va (chain_a c)) \<and>
    vb (snd (chain_into_inner c')) = drop (n - length (va (chain_a c))) (vb (chain_b c))"
proof -
  let ?a = "chain_a c" and ?b = "chain_b c"
  have ok: "oka ?a" "okb ?b" using c by (auto simp: chain_ok_def)
  show ?thesis
  proof (cases "n \<le> length (va ?a) \<and> va ?a \<noteq> []")
    case True
    with ok a.advance_view [of ?a n] show ?thesis
      by (auto simp: chain_advance_def a.remaining_view chain_into_inner_def)
  next
    case False
    from ok a.advance_view [of ?a "length (va ?a)"] obtain a' where
      a: "advance A ?a (length (va ?a)) = Inr a'" "va a' = []" by auto
    from n have "n - length (va ?a) \<le> length (vb ?b)" by (simp add: chain_view_def)
    with ok b.advance_view obtain b' where
      b: "advance B ?b (n - length (va ?a)) = Inr b'" "vb b' = drop (n - length (va ?a)) (vb ?b)" by blast
    with a False ok show ?thesis
      by (auto simp: chain_advance_def a.remaining_view usize_sub_def Let_def not_le chain_into_inner_def)
  qed
qed

end

context buf_core_contract
begin

lemma take_advance_part:
  assumes "ok (take_inner t)" "n \<le> length (view (take_inner t))" "n \<le> take_limit t"
  shows "\<exists>t'. take_advance B t n = Inr t' \<and> view (take_into_inner t') = drop n (view (take_inner t)) \<and> take_get_limit t' = take_limit t - n"
  using advance_view [OF assms(1,2)] assms(3)
  by (auto simp: take_advance_def rust_assert_def usize_sub_def take_into_inner_def take_get_limit_def)

end

section \<open>UninitSlice\<close>

definition uninit_ref :: "maybe_uninit list \<Rightarrow> uninit_slice" where "uninit_ref s = s"
definition uninit_len :: "uninit_slice \<Rightarrow> usize" where "uninit_len self = length self"
definition as_uninit_slice_mut :: "uninit_slice \<Rightarrow> (maybe_uninit list, uninit_slice) borrow" where
  "as_uninit_slice_mut self = (self, \<lambda>m. m)"
definition uninit_from_slice :: "u8 list \<Rightarrow> uninit_slice" where "uninit_from_slice s = uninit_slice_new s"
definition uninit_from_maybe_uninit :: "maybe_uninit list \<Rightarrow> uninit_slice" where
  "uninit_from_maybe_uninit s = uninit_slice_uninit s"

definition uninit_from_raw_parts_mut :: "heap \<Rightarrow> ptr \<Rightarrow> usize \<Rightarrow> (uninit_slice \<times> (uninit_slice \<Rightarrow> heap res)) res" where
  "uninit_from_raw_parts_mut h ptr len =
     res_bind (heap_cells h ptr len) (\<lambda>maybe_init. Inr (uninit_slice_uninit maybe_init, heap_store h ptr))"

definition uninit_debug :: "'f fmt_write \<Rightarrow> 'f \<Rightarrow> (fmt_result \<times> 'f) res" where
  "uninit_debug W fmt = W fmt ''UninitSlice[...]''"

text \<open>
  The ranges of \<open>impl_index!\<close>, and the indexing of slices by them in the standard library; an
  inclusive range up to \<open>usize::MAX\<close> panics as well.
\<close>

datatype index_range =
    Range usize usize
  | RangeFrom usize
  | RangeFull
  | RangeInclusive usize usize
  | RangeTo usize
  | RangeToInclusive usize

fun range_start :: "index_range \<Rightarrow> usize" where
  "range_start (Range a b) = a"
| "range_start (RangeFrom a) = a"
| "range_start RangeFull = 0"
| "range_start (RangeInclusive a b) = a"
| "range_start (RangeTo b) = 0"
| "range_start (RangeToInclusive b) = 0"

fun slice_index :: "'a list \<Rightarrow> index_range \<Rightarrow> 'a list res" where
  "slice_index xs (Range a b) = slice_range xs a b"
| "slice_index xs (RangeFrom a) = slice_from xs a"
| "slice_index xs RangeFull = Inr xs"
| "slice_index xs (RangeInclusive a b) = (if b = usize_max then Inl (Panic Slice_index) else slice_range xs a (b + 1))"
| "slice_index xs (RangeTo b) = slice_to xs b"
| "slice_index xs (RangeToInclusive b) = (if b = usize_max then Inl (Panic Slice_index) else slice_range xs 0 (b + 1))"

definition uninit_index :: "uninit_slice \<Rightarrow> index_range \<Rightarrow> uninit_slice res" where
  "uninit_index self index = res_bind (slice_index self index) (\<lambda>s. Inr (uninit_ref s))"

definition uninit_index_mut :: "uninit_slice \<Rightarrow> index_range \<Rightarrow> ((uninit_slice, uninit_slice) borrow) res" where
  "uninit_index_mut self index =
     res_bind (slice_index self index) (\<lambda>s.
     Inr (uninit_slice_uninit s, \<lambda>m. take (range_start index) self @ m @ drop (range_start index + length s) self))"

text \<open>The end of a range in a slice of \<open>n\<close> elements\<close>

fun range_stop :: "usize \<Rightarrow> index_range \<Rightarrow> nat" where
  "range_stop n (Range a b) = b"
| "range_stop n (RangeFrom a) = n"
| "range_stop n RangeFull = n"
| "range_stop n (RangeInclusive a b) = b + 1"
| "range_stop n (RangeTo b) = b"
| "range_stop n (RangeToInclusive b) = b + 1"

lemma slice_index_bounds:
  assumes "length xs \<le> isize_max"
  shows "slice_index xs r =
    (if range_start r \<le> range_stop (length xs) r \<and> range_stop (length xs) r \<le> length xs
     then Inr (take (range_stop (length xs) r - range_start r) (drop (range_start r) xs)) else Inl (Panic Slice_index))"
  using assms isize_max_less_usize_max by (cases r) (auto simp: slice_range_def slice_from_def slice_to_def)

lemma uninit_index_mut_frame:
  assumes "length s \<le> isize_max" "uninit_index_mut s r = Inr (chosen, commit)" "length m = length chosen"
  shows "length (commit m) = length s" "uninit_index (commit m) r = Inr m"
    "i < range_start r \<or> range_stop (length s) r \<le> i \<Longrightarrow> i < length s \<Longrightarrow> commit m ! i = s ! i"
proof -
  let ?a = "range_start r" and ?b = "range_stop (length s) r"
  have p: "?a \<le> ?b" "?b \<le> length s" "chosen = take (?b - ?a) (drop ?a s)" "commit = (\<lambda>m. take ?a s @ m @ drop (?a + length chosen) s)"
    using assms(2) slice_index_bounds [OF assms(1), of r] by (auto simp: uninit_index_mut_def uninit_slice_uninit_def split: if_splits)
  then have len: "length m = ?b - ?a" "?a + length chosen = ?b" using assms(3) by simp_all
  then show l: "length (commit m) = length s" using p by simp
  have "slice_index (commit m) r = Inr (take (?b - ?a) (drop ?a (commit m)))"
    using slice_index_bounds [of "commit m" r] assms(1) l p(1,2) by simp
  moreover have "take (?b - ?a) (drop ?a (commit m)) = m" using p len by simp
  ultimately show "uninit_index (commit m) r = Inr m" by (simp add: uninit_index_def uninit_ref_def)
  show "commit m ! i = s ! i" if "i < ?a \<or> ?b \<le> i" "i < length s"
    using that p(1,2) len by (auto simp: p(4) nth_append)
qed

text \<open>\<open>write_byte\<close> is a write through \<open>self[index..]\<close>.\<close>

lemma write_byte_index_mut:
  assumes "i < length s" "length s \<le> isize_max"
  shows "\<exists>chosen commit. uninit_index_mut s (RangeFrom i) = Inr (chosen, commit) \<and> write_byte s i b = Inr (commit (chosen[0 := Some b]))"
proof -
  have "take i s @ (drop i s)[0 := Some b] = s[i := Some b]" using assms(1)
    by (metis append_take_drop_id length_take list_update_append min.absorb4 diff_self_eq_0 less_irrefl)
  then show ?thesis using assms by (simp add: uninit_index_mut_def slice_from_def write_byte_def rust_assert_def uninit_slice_uninit_def)
qed

end
