(* ===== verification/Bytes_Traits.thy ===== *)
theory Bytes_Traits
  imports Bytes_Mut_Conv "HOL-Library.List_Lexorder"
begin

text \<open>
  The small trait implementations of \<open>Bytes\<close> and \<open>BytesMut\<close> (\<^verbatim>\<open>bytes.rs\<close>, \<^verbatim>\<open>bytes_mut.rs\<close>):
  views as slices, hashing, and the comparisons with each other and with slices, vectors and
  strings, each with the delegation that the code has. A \<open>str\<close> and a \<open>String\<close> are their UTF-8 bytes.
\<close>

section \<open>Views\<close>

definition bytes_len :: "bytes \<Rightarrow> usize" where "bytes_len self = b_len self"
definition bytes_is_empty :: "bytes \<Rightarrow> bool" where "bytes_is_empty self \<longleftrightarrow> b_len self = 0"
definition bytes_deref :: "heap \<Rightarrow> bytes \<Rightarrow> u8 list res" where "bytes_deref h self = as_slice h self"
definition bytes_as_ref :: "heap \<Rightarrow> bytes \<Rightarrow> u8 list res" where "bytes_as_ref h self = as_slice h self"
definition bytes_borrow :: "heap \<Rightarrow> bytes \<Rightarrow> u8 list res" where "bytes_borrow h self = as_slice h self"

definition bytes_mut_len :: "bytes_mut \<Rightarrow> usize" where "bytes_mut_len self = bm_len self"
definition bytes_mut_is_empty :: "bytes_mut \<Rightarrow> bool" where "bytes_mut_is_empty self \<longleftrightarrow> bm_len self = 0"
definition bytes_mut_capacity :: "bytes_mut \<Rightarrow> usize" where "bytes_mut_capacity self = bm_cap self"
definition bytes_mut_as_ref :: "heap \<Rightarrow> bytes_mut \<Rightarrow> u8 list res" where "bytes_mut_as_ref h self = bytes_mut_as_slice h self"
definition bytes_mut_deref :: "heap \<Rightarrow> bytes_mut \<Rightarrow> u8 list res" where "bytes_mut_deref h self = bytes_mut_as_ref h self"
definition bytes_mut_borrow :: "heap \<Rightarrow> bytes_mut \<Rightarrow> u8 list res" where "bytes_mut_borrow h self = bytes_mut_as_ref h self"

text \<open>\<open>Hash\<close>: \<open>hash_slice\<close> is the hash of a slice in the standard library.\<close>

definition bytes_hash :: "(u8 list \<Rightarrow> 's \<Rightarrow> 's) \<Rightarrow> heap \<Rightarrow> bytes \<Rightarrow> 's \<Rightarrow> 's res" where
  "bytes_hash hash_slice h self state = res_bind (as_slice h self) (\<lambda>s. Inr (hash_slice s state))"

definition bytes_mut_hash :: "(u8 list \<Rightarrow> 's \<Rightarrow> 's) \<Rightarrow> heap \<Rightarrow> bytes_mut \<Rightarrow> 's \<Rightarrow> 's res" where
  "bytes_mut_hash hash_slice h self state = res_bind (bytes_mut_as_ref h self) (\<lambda>s. Inr (hash_slice s state))"

text \<open>\<open>Default\<close> and the conversions that only delegate\<close>

definition bytes_default :: bytes where "bytes_default = bytes_new"
definition bytes_from_static_slice :: "ptr \<Rightarrow> usize \<Rightarrow> bytes" where "bytes_from_static_slice p len = from_static p len"
definition bytes_from_static_str :: "ptr \<Rightarrow> usize \<Rightarrow> bytes" where "bytes_from_static_str p len = from_static p len"
definition bytes_from_string :: "allocator \<Rightarrow> heap \<Rightarrow> hvec \<Rightarrow> (bytes \<times> heap) res" where
  "bytes_from_string alloc h s = from_vec alloc h s"
definition bytes_mut_default :: "allocator \<Rightarrow> heap \<Rightarrow> (bytes_mut \<times> heap) res" where
  "bytes_mut_default alloc h = bytes_mut_new alloc h"
definition bytes_mut_from_str :: "allocator \<Rightarrow> heap \<Rightarrow> u8 list \<Rightarrow> (bytes_mut \<times> heap) res" where
  "bytes_mut_from_str alloc h src = bytes_mut_from_slice alloc h src"
definition bytes_from_bytes_mut :: "allocator \<Rightarrow> heap \<Rightarrow> bytes_mut \<Rightarrow> (bytes \<times> heap) res" where
  "bytes_from_bytes_mut alloc h src = freeze alloc h src"

section \<open>Comparisons of slices\<close>

text \<open>\<open>cmp::Ordering\<close> and the comparisons of \<open>[u8]\<close> in the standard library\<close>

datatype ordering = Less | Equal | Greater

fun reverse :: "ordering \<Rightarrow> ordering" where
  "reverse Less = Greater" | "reverse Equal = Equal" | "reverse Greater = Less"

fun slice_cmp :: "u8 list \<Rightarrow> u8 list \<Rightarrow> ordering" where
  "slice_cmp [] [] = Equal"
| "slice_cmp [] (_ # _) = Less"
| "slice_cmp (_ # _) [] = Greater"
| "slice_cmp (x # xs) (y # ys) = (if x < y then Less else if y < x then Greater else slice_cmp xs ys)"

definition slice_partial_cmp :: "u8 list \<Rightarrow> u8 list \<Rightarrow> ordering option" where
  "slice_partial_cmp xs ys = Some (slice_cmp xs ys)"

text \<open>The abstract order: lexicographic\<close>

definition lex_order :: "u8 list \<Rightarrow> u8 list \<Rightarrow> ordering" where
  "lex_order xs ys = (if xs < ys then Less else if xs = ys then Equal else Greater)"

lemma slice_cmp_lex: "slice_cmp xs ys = lex_order xs ys"
  by (induction xs ys rule: slice_cmp.induct) (auto simp: lex_order_def)

lemma reverse_lex_order: "reverse (lex_order xs ys) = lex_order ys xs"
  by (auto simp: lex_order_def)

lemma lex_eq_iff: "lex_order xs ys = Equal \<longleftrightarrow> xs = ys"
  by (auto simp: lex_order_def)

section \<open>Comparisons of Bytes\<close>

definition bytes_cmp :: "heap \<Rightarrow> bytes \<Rightarrow> bytes \<Rightarrow> ordering res" where
  "bytes_cmp h self other =
     res_bind (as_slice h self) (\<lambda>a. res_bind (as_slice h other) (\<lambda>b. Inr (slice_cmp a b)))"

definition bytes_partial_cmp :: "heap \<Rightarrow> bytes \<Rightarrow> bytes \<Rightarrow> ordering option res" where
  "bytes_partial_cmp h self other = res_bind (bytes_cmp h self other) (\<lambda>c. Inr (Some c))"

definition bytes_eq_slice :: "heap \<Rightarrow> bytes \<Rightarrow> u8 list \<Rightarrow> bool res" where
  "bytes_eq_slice h self other = res_bind (as_slice h self) (\<lambda>a. Inr (a = other))"

definition bytes_partial_cmp_slice :: "heap \<Rightarrow> bytes \<Rightarrow> u8 list \<Rightarrow> ordering option res" where
  "bytes_partial_cmp_slice h self other = res_bind (as_slice h self) (\<lambda>a. Inr (slice_partial_cmp a other))"

definition slice_eq_bytes :: "heap \<Rightarrow> u8 list \<Rightarrow> bytes \<Rightarrow> bool res" where
  "slice_eq_bytes h self other = bytes_eq_slice h other self"

definition slice_partial_cmp_bytes :: "heap \<Rightarrow> u8 list \<Rightarrow> bytes \<Rightarrow> ordering option res" where
  "slice_partial_cmp_bytes h self other = res_bind (bytes_deref h other) (\<lambda>b. Inr (slice_partial_cmp self b))"

definition bytes_eq_str :: "heap \<Rightarrow> bytes \<Rightarrow> u8 list \<Rightarrow> bool res" where
  "bytes_eq_str h self other = res_bind (as_slice h self) (\<lambda>a. Inr (a = other))"

definition bytes_partial_cmp_str :: "heap \<Rightarrow> bytes \<Rightarrow> u8 list \<Rightarrow> ordering option res" where
  "bytes_partial_cmp_str h self other = res_bind (as_slice h self) (\<lambda>a. Inr (slice_partial_cmp a other))"

definition str_eq_bytes :: "heap \<Rightarrow> u8 list \<Rightarrow> bytes \<Rightarrow> bool res" where
  "str_eq_bytes h self other = bytes_eq_str h other self"

definition str_partial_cmp_bytes :: "heap \<Rightarrow> u8 list \<Rightarrow> bytes \<Rightarrow> ordering option res" where
  "str_partial_cmp_bytes h self other = res_bind (bytes_deref h other) (\<lambda>b. Inr (slice_partial_cmp self b))"

definition bytes_eq_vec :: "heap \<Rightarrow> bytes \<Rightarrow> u8 list \<Rightarrow> bool res" where
  "bytes_eq_vec h self other = bytes_eq_slice h self other"

definition bytes_partial_cmp_vec :: "heap \<Rightarrow> bytes \<Rightarrow> u8 list \<Rightarrow> ordering option res" where
  "bytes_partial_cmp_vec h self other = res_bind (as_slice h self) (\<lambda>a. Inr (slice_partial_cmp a other))"

definition vec_eq_bytes :: "heap \<Rightarrow> u8 list \<Rightarrow> bytes \<Rightarrow> bool res" where
  "vec_eq_bytes h self other = bytes_eq_vec h other self"

definition vec_partial_cmp_bytes :: "heap \<Rightarrow> u8 list \<Rightarrow> bytes \<Rightarrow> ordering option res" where
  "vec_partial_cmp_bytes h self other = res_bind (bytes_deref h other) (\<lambda>b. Inr (slice_partial_cmp self b))"

definition bytes_eq_string :: "heap \<Rightarrow> bytes \<Rightarrow> u8 list \<Rightarrow> bool res" where
  "bytes_eq_string h self other = bytes_eq_str h self other"

definition bytes_partial_cmp_string :: "heap \<Rightarrow> bytes \<Rightarrow> u8 list \<Rightarrow> ordering option res" where
  "bytes_partial_cmp_string h self other = res_bind (as_slice h self) (\<lambda>a. Inr (slice_partial_cmp a other))"

definition string_eq_bytes :: "heap \<Rightarrow> u8 list \<Rightarrow> bytes \<Rightarrow> bool res" where
  "string_eq_bytes h self other = bytes_eq_string h other self"

definition string_partial_cmp_bytes :: "heap \<Rightarrow> u8 list \<Rightarrow> bytes \<Rightarrow> ordering option res" where
  "string_partial_cmp_bytes h self other = res_bind (bytes_deref h other) (\<lambda>b. Inr (slice_partial_cmp self b))"

text \<open>A comparison with a reference is the comparison with what it refers to.\<close>

definition bytes_eq_ref :: "(heap \<Rightarrow> bytes \<Rightarrow> 't \<Rightarrow> bool res) \<Rightarrow> heap \<Rightarrow> bytes \<Rightarrow> 't \<Rightarrow> bool res" where
  "bytes_eq_ref eq h self other = eq h self other"

definition bytes_partial_cmp_ref :: "(heap \<Rightarrow> bytes \<Rightarrow> 't \<Rightarrow> ordering option res) \<Rightarrow> heap \<Rightarrow> bytes \<Rightarrow> 't \<Rightarrow> ordering option res" where
  "bytes_partial_cmp_ref cmp h self other = cmp h self other"

definition ref_slice_eq_bytes :: "heap \<Rightarrow> u8 list \<Rightarrow> bytes \<Rightarrow> bool res" where
  "ref_slice_eq_bytes h self other = bytes_eq_ref bytes_eq_slice h other self"

definition ref_slice_partial_cmp_bytes :: "heap \<Rightarrow> u8 list \<Rightarrow> bytes \<Rightarrow> ordering option res" where
  "ref_slice_partial_cmp_bytes h self other = res_bind (bytes_deref h other) (\<lambda>b. Inr (slice_partial_cmp self b))"

definition ref_str_eq_bytes :: "heap \<Rightarrow> u8 list \<Rightarrow> bytes \<Rightarrow> bool res" where
  "ref_str_eq_bytes h self other = bytes_eq_ref bytes_eq_str h other self"

definition ref_str_partial_cmp_bytes :: "heap \<Rightarrow> u8 list \<Rightarrow> bytes \<Rightarrow> ordering option res" where
  "ref_str_partial_cmp_bytes h self other = res_bind (bytes_deref h other) (\<lambda>b. Inr (slice_partial_cmp self b))"

section \<open>Comparisons of BytesMut\<close>

definition bytes_mut_eq :: "heap \<Rightarrow> bytes_mut \<Rightarrow> bytes_mut \<Rightarrow> bool res" where
  "bytes_mut_eq h self other =
     res_bind (bytes_mut_as_slice h self) (\<lambda>a. res_bind (bytes_mut_as_slice h other) (\<lambda>b. Inr (a = b)))"

definition bytes_mut_cmp :: "heap \<Rightarrow> bytes_mut \<Rightarrow> bytes_mut \<Rightarrow> ordering res" where
  "bytes_mut_cmp h self other =
     res_bind (bytes_mut_as_slice h self) (\<lambda>a. res_bind (bytes_mut_as_slice h other) (\<lambda>b. Inr (slice_cmp a b)))"

definition bytes_mut_partial_cmp :: "heap \<Rightarrow> bytes_mut \<Rightarrow> bytes_mut \<Rightarrow> ordering option res" where
  "bytes_mut_partial_cmp h self other = res_bind (bytes_mut_cmp h self other) (\<lambda>c. Inr (Some c))"

definition bytes_mut_eq_slice :: "heap \<Rightarrow> bytes_mut \<Rightarrow> u8 list \<Rightarrow> bool res" where
  "bytes_mut_eq_slice h self other = res_bind (bytes_mut_deref h self) (\<lambda>a. Inr (a = other))"

definition bytes_mut_partial_cmp_slice :: "heap \<Rightarrow> bytes_mut \<Rightarrow> u8 list \<Rightarrow> ordering option res" where
  "bytes_mut_partial_cmp_slice h self other = res_bind (bytes_mut_deref h self) (\<lambda>a. Inr (slice_partial_cmp a other))"

definition slice_eq_bytes_mut :: "heap \<Rightarrow> u8 list \<Rightarrow> bytes_mut \<Rightarrow> bool res" where
  "slice_eq_bytes_mut h self other = bytes_mut_eq_slice h other self"

definition slice_partial_cmp_bytes_mut :: "heap \<Rightarrow> u8 list \<Rightarrow> bytes_mut \<Rightarrow> ordering option res" where
  "slice_partial_cmp_bytes_mut h self other = res_bind (bytes_mut_deref h other) (\<lambda>b. Inr (slice_partial_cmp self b))"

definition bytes_mut_eq_str :: "heap \<Rightarrow> bytes_mut \<Rightarrow> u8 list \<Rightarrow> bool res" where
  "bytes_mut_eq_str h self other = res_bind (bytes_mut_deref h self) (\<lambda>a. Inr (a = other))"

definition bytes_mut_partial_cmp_str :: "heap \<Rightarrow> bytes_mut \<Rightarrow> u8 list \<Rightarrow> ordering option res" where
  "bytes_mut_partial_cmp_str h self other = res_bind (bytes_mut_deref h self) (\<lambda>a. Inr (slice_partial_cmp a other))"

definition str_eq_bytes_mut :: "heap \<Rightarrow> u8 list \<Rightarrow> bytes_mut \<Rightarrow> bool res" where
  "str_eq_bytes_mut h self other = bytes_mut_eq_str h other self"

definition str_partial_cmp_bytes_mut :: "heap \<Rightarrow> u8 list \<Rightarrow> bytes_mut \<Rightarrow> ordering option res" where
  "str_partial_cmp_bytes_mut h self other = res_bind (bytes_mut_deref h other) (\<lambda>b. Inr (slice_partial_cmp self b))"

definition bytes_mut_eq_vec :: "heap \<Rightarrow> bytes_mut \<Rightarrow> u8 list \<Rightarrow> bool res" where
  "bytes_mut_eq_vec h self other = bytes_mut_eq_slice h self other"

definition bytes_mut_partial_cmp_vec :: "heap \<Rightarrow> bytes_mut \<Rightarrow> u8 list \<Rightarrow> ordering option res" where
  "bytes_mut_partial_cmp_vec h self other = res_bind (bytes_mut_deref h self) (\<lambda>a. Inr (slice_partial_cmp a other))"

definition vec_eq_bytes_mut :: "heap \<Rightarrow> u8 list \<Rightarrow> bytes_mut \<Rightarrow> bool res" where
  "vec_eq_bytes_mut h self other = bytes_mut_eq_vec h other self"

definition vec_partial_cmp_bytes_mut :: "heap \<Rightarrow> u8 list \<Rightarrow> bytes_mut \<Rightarrow> ordering option res" where
  "vec_partial_cmp_bytes_mut h self other = bytes_mut_partial_cmp_vec h other self"

definition bytes_mut_eq_string :: "heap \<Rightarrow> bytes_mut \<Rightarrow> u8 list \<Rightarrow> bool res" where
  "bytes_mut_eq_string h self other = bytes_mut_eq_str h self other"

definition bytes_mut_partial_cmp_string :: "heap \<Rightarrow> bytes_mut \<Rightarrow> u8 list \<Rightarrow> ordering option res" where
  "bytes_mut_partial_cmp_string h self other = res_bind (bytes_mut_deref h self) (\<lambda>a. Inr (slice_partial_cmp a other))"

definition string_eq_bytes_mut :: "heap \<Rightarrow> u8 list \<Rightarrow> bytes_mut \<Rightarrow> bool res" where
  "string_eq_bytes_mut h self other = bytes_mut_eq_string h other self"

definition string_partial_cmp_bytes_mut :: "heap \<Rightarrow> u8 list \<Rightarrow> bytes_mut \<Rightarrow> ordering option res" where
  "string_partial_cmp_bytes_mut h self other = res_bind (bytes_mut_deref h other) (\<lambda>b. Inr (slice_partial_cmp self b))"

text \<open>A comparison with a reference is the comparison with what it refers to.\<close>

definition bytes_mut_eq_ref :: "(heap \<Rightarrow> bytes_mut \<Rightarrow> 't \<Rightarrow> bool res) \<Rightarrow> heap \<Rightarrow> bytes_mut \<Rightarrow> 't \<Rightarrow> bool res" where
  "bytes_mut_eq_ref eq h self other = eq h self other"

definition bytes_mut_partial_cmp_ref :: "(heap \<Rightarrow> bytes_mut \<Rightarrow> 't \<Rightarrow> ordering option res) \<Rightarrow> heap \<Rightarrow> bytes_mut \<Rightarrow> 't \<Rightarrow> ordering option res" where
  "bytes_mut_partial_cmp_ref cmp h self other = cmp h self other"

definition ref_slice_eq_bytes_mut :: "heap \<Rightarrow> u8 list \<Rightarrow> bytes_mut \<Rightarrow> bool res" where
  "ref_slice_eq_bytes_mut h self other = bytes_mut_eq_ref bytes_mut_eq_slice h other self"

definition ref_slice_partial_cmp_bytes_mut :: "heap \<Rightarrow> u8 list \<Rightarrow> bytes_mut \<Rightarrow> ordering option res" where
  "ref_slice_partial_cmp_bytes_mut h self other = res_bind (bytes_mut_deref h other) (\<lambda>b. Inr (slice_partial_cmp self b))"

definition ref_str_eq_bytes_mut :: "heap \<Rightarrow> u8 list \<Rightarrow> bytes_mut \<Rightarrow> bool res" where
  "ref_str_eq_bytes_mut h self other = bytes_mut_eq_ref bytes_mut_eq_str h other self"

definition ref_str_partial_cmp_bytes_mut :: "heap \<Rightarrow> u8 list \<Rightarrow> bytes_mut \<Rightarrow> ordering option res" where
  "ref_str_partial_cmp_bytes_mut h self other = bytes_mut_partial_cmp_ref bytes_mut_partial_cmp_str h other self"

text \<open>\<open>Bytes\<close> against \<open>BytesMut\<close>\<close>

definition bytes_eq_bytes_mut :: "heap \<Rightarrow> bytes \<Rightarrow> bytes_mut \<Rightarrow> bool res" where
  "bytes_eq_bytes_mut h self other =
     res_bind (bytes_mut_deref h other) (\<lambda>b. res_bind (bytes_deref h self) (\<lambda>a. Inr (b = a)))"

definition bytes_mut_eq_bytes :: "heap \<Rightarrow> bytes_mut \<Rightarrow> bytes \<Rightarrow> bool res" where
  "bytes_mut_eq_bytes h self other =
     res_bind (bytes_deref h other) (\<lambda>b. res_bind (bytes_mut_deref h self) (\<lambda>a. Inr (b = a)))"

section \<open>All comparisons at once\<close>

text \<open>
  The comparisons with text and slices, with the handle on the left; the handle is on the
  right in the second list of each pair.
\<close>

definition bytes_eqs :: "(heap \<Rightarrow> bytes \<Rightarrow> u8 list \<Rightarrow> bool res) list" where
  "bytes_eqs = [bytes_eq_slice, bytes_eq_str, bytes_eq_vec, bytes_eq_string, bytes_eq_ref bytes_eq_slice, bytes_eq_ref bytes_eq_str]"

definition eqs_bytes :: "(heap \<Rightarrow> u8 list \<Rightarrow> bytes \<Rightarrow> bool res) list" where
  "eqs_bytes = [slice_eq_bytes, str_eq_bytes, vec_eq_bytes, string_eq_bytes, ref_slice_eq_bytes, ref_str_eq_bytes]"

definition bytes_cmps :: "(heap \<Rightarrow> bytes \<Rightarrow> u8 list \<Rightarrow> ordering option res) list" where
  "bytes_cmps = [bytes_partial_cmp_slice, bytes_partial_cmp_str, bytes_partial_cmp_vec, bytes_partial_cmp_string,
     bytes_partial_cmp_ref bytes_partial_cmp_slice, bytes_partial_cmp_ref bytes_partial_cmp_str]"

definition cmps_bytes :: "(heap \<Rightarrow> u8 list \<Rightarrow> bytes \<Rightarrow> ordering option res) list" where
  "cmps_bytes = [slice_partial_cmp_bytes, str_partial_cmp_bytes, string_partial_cmp_bytes, ref_slice_partial_cmp_bytes, vec_partial_cmp_bytes, ref_str_partial_cmp_bytes]"

definition bytes_mut_eqs :: "(heap \<Rightarrow> bytes_mut \<Rightarrow> u8 list \<Rightarrow> bool res) list" where
  "bytes_mut_eqs = [bytes_mut_eq_slice, bytes_mut_eq_str, bytes_mut_eq_vec, bytes_mut_eq_string, bytes_mut_eq_ref bytes_mut_eq_slice, bytes_mut_eq_ref bytes_mut_eq_str]"

definition eqs_bytes_mut :: "(heap \<Rightarrow> u8 list \<Rightarrow> bytes_mut \<Rightarrow> bool res) list" where
  "eqs_bytes_mut = [slice_eq_bytes_mut, str_eq_bytes_mut, vec_eq_bytes_mut, string_eq_bytes_mut, ref_slice_eq_bytes_mut, ref_str_eq_bytes_mut]"

definition bytes_mut_cmps :: "(heap \<Rightarrow> bytes_mut \<Rightarrow> u8 list \<Rightarrow> ordering option res) list" where
  "bytes_mut_cmps = [bytes_mut_partial_cmp_slice, bytes_mut_partial_cmp_str, bytes_mut_partial_cmp_vec, bytes_mut_partial_cmp_string,
     bytes_mut_partial_cmp_ref bytes_mut_partial_cmp_slice, bytes_mut_partial_cmp_ref bytes_mut_partial_cmp_str]"

definition cmps_bytes_mut :: "(heap \<Rightarrow> u8 list \<Rightarrow> bytes_mut \<Rightarrow> ordering option res) list" where
  "cmps_bytes_mut = [slice_partial_cmp_bytes_mut, str_partial_cmp_bytes_mut, string_partial_cmp_bytes_mut, ref_slice_partial_cmp_bytes_mut]"

lemmas bytes_comparison_defs = bytes_len_def bytes_deref_def bytes_as_ref_def bytes_cmp_def bytes_partial_cmp_def bytes_eq_def bytes_eqs_def eqs_bytes_def bytes_cmps_def cmps_bytes_def bytes_eq_ref_def bytes_partial_cmp_ref_def bytes_eq_slice_def bytes_partial_cmp_slice_def bytes_eq_str_def bytes_partial_cmp_str_def bytes_eq_vec_def bytes_partial_cmp_vec_def bytes_eq_string_def bytes_partial_cmp_string_def slice_eq_bytes_def slice_partial_cmp_bytes_def str_eq_bytes_def str_partial_cmp_bytes_def vec_eq_bytes_def vec_partial_cmp_bytes_def string_eq_bytes_def string_partial_cmp_bytes_def ref_slice_eq_bytes_def ref_slice_partial_cmp_bytes_def ref_str_eq_bytes_def ref_str_partial_cmp_bytes_def

lemmas bytes_mut_comparison_defs = bytes_mut_as_slice_def bytes_mut_deref_def bytes_mut_as_ref_def bytes_mut_cmp_def bytes_mut_partial_cmp_def bytes_mut_eq_def bytes_mut_eqs_def eqs_bytes_mut_def bytes_mut_cmps_def cmps_bytes_mut_def bytes_mut_eq_ref_def bytes_mut_partial_cmp_ref_def bytes_mut_eq_slice_def bytes_mut_partial_cmp_slice_def bytes_mut_eq_str_def bytes_mut_partial_cmp_str_def bytes_mut_eq_vec_def bytes_mut_partial_cmp_vec_def bytes_mut_eq_string_def bytes_mut_partial_cmp_string_def slice_eq_bytes_mut_def slice_partial_cmp_bytes_mut_def str_eq_bytes_mut_def str_partial_cmp_bytes_mut_def vec_eq_bytes_mut_def vec_partial_cmp_bytes_mut_def string_eq_bytes_mut_def string_partial_cmp_bytes_mut_def ref_slice_eq_bytes_mut_def ref_slice_partial_cmp_bytes_mut_def ref_str_eq_bytes_mut_def ref_str_partial_cmp_bytes_mut_def

lemma bytes_reads: "handle_ok h (HB b) \<Longrightarrow> as_slice h b = Inr (contents h (HB b))"
  by (simp add: as_slice_def read_contents)

lemma bytes_mut_reads: "handle_ok h (HM m) \<Longrightarrow> heap_read h (bm_ptr m) (bm_len m) = Inr (contents h (HM m))"
  by (simp add: read_contents)

lemma bytes_comparisons:
  assumes "handle_ok h (HB b)"
  shows "list_all (\<lambda>f. f h b s = Inr (contents h (HB b) = s)) bytes_eqs" "list_all (\<lambda>f. f h s b = Inr (s = contents h (HB b))) eqs_bytes"
    "list_all (\<lambda>f. f h b s = Inr (Some (lex_order (contents h (HB b)) s))) bytes_cmps"
    "list_all (\<lambda>f. f h s b = Inr (Some (lex_order s (contents h (HB b))))) cmps_bytes"
  using assms by (auto simp: bytes_comparison_defs bytes_reads slice_partial_cmp_def slice_cmp_lex)

lemma bytes_mut_comparisons:
  assumes "handle_ok h (HM m)"
  shows "list_all (\<lambda>f. f h m s = Inr (contents h (HM m) = s)) bytes_mut_eqs"
    "list_all (\<lambda>f. f h s m = Inr (s = contents h (HM m))) eqs_bytes_mut"
    "list_all (\<lambda>f. f h m s = Inr (Some (lex_order (contents h (HM m)) s))) bytes_mut_cmps"
    "list_all (\<lambda>f. f h s m = Inr (Some (lex_order s (contents h (HM m))))) cmps_bytes_mut"
  using assms by (auto simp: bytes_mut_comparison_defs bytes_mut_reads slice_partial_cmp_def slice_cmp_lex)

lemma handle_comparisons:
  assumes "handle_ok h (HB b)" "handle_ok h (HB b')" "handle_ok h (HM m)" "handle_ok h (HM m')"
  shows "bytes_eq h b b' = Inr (contents h (HB b) = contents h (HB b'))"
    "bytes_cmp h b b' = Inr (lex_order (contents h (HB b)) (contents h (HB b')))"
    "bytes_partial_cmp h b b' = Inr (Some (lex_order (contents h (HB b)) (contents h (HB b'))))"
    "bytes_mut_eq h m m' = Inr (contents h (HM m) = contents h (HM m'))"
    "bytes_mut_cmp h m m' = Inr (lex_order (contents h (HM m)) (contents h (HM m')))"
    "bytes_mut_partial_cmp h m m' = Inr (Some (lex_order (contents h (HM m)) (contents h (HM m'))))"
    "bytes_eq_bytes_mut h b m = Inr (contents h (HB b) = contents h (HM m))"
    "bytes_mut_eq_bytes h m b = Inr (contents h (HM m) = contents h (HB b))"
  using assms
  by (auto simp: bytes_comparison_defs bytes_mut_comparison_defs bytes_eq_bytes_mut_def bytes_mut_eq_bytes_def bytes_reads
      bytes_mut_reads slice_cmp_lex)

end
