(* ===== verification/Bytes_Fmt.thy ===== *)
theory Bytes_Fmt
  imports Bytes_Mut_Buf Bytes_Traits Fmt
begin

text \<open>
  Formatting of \<open>Bytes\<close> and \<open>BytesMut\<close> (\<^verbatim>\<open>fmt_impl!\<close> of \<^verbatim>\<open>fmt/debug.rs\<close> and \<^verbatim>\<open>fmt/hex.rs\<close>), and \<open>BytesMut\<close> as a sink
  of text (\<open>impl fmt::Write for BytesMut\<close>, \<^verbatim>\<open>bytes_mut.rs\<close>).
\<close>

section \<open>Formatting handles\<close>

text \<open>\<open>fmt_impl!\<close>: a handle is formatted as \<open>BytesRef(self.as_ref())\<close>.\<close>

definition fmt_impl ::
  "('s fmt_write \<Rightarrow> u8 list \<Rightarrow> 's \<Rightarrow> (fmt_result \<times> 's) res) \<Rightarrow> (heap \<Rightarrow> 't \<Rightarrow> u8 list res) \<Rightarrow>
    's fmt_write \<Rightarrow> heap \<Rightarrow> 't \<Rightarrow> 's \<Rightarrow> (fmt_result \<times> 's) res" where
  "fmt_impl tr as_ref W h self f = res_bind (as_ref h self) (\<lambda>s. tr W s f)"

definition bytes_debug :: "'s fmt_write \<Rightarrow> heap \<Rightarrow> bytes \<Rightarrow> 's \<Rightarrow> (fmt_result \<times> 's) res" where
  "bytes_debug = fmt_impl bytes_ref_debug bytes_as_ref"

definition bytes_mut_debug :: "'s fmt_write \<Rightarrow> heap \<Rightarrow> bytes_mut \<Rightarrow> 's \<Rightarrow> (fmt_result \<times> 's) res" where
  "bytes_mut_debug = fmt_impl bytes_ref_debug bytes_mut_as_ref"

definition bytes_lower_hex :: "'s fmt_write \<Rightarrow> heap \<Rightarrow> bytes \<Rightarrow> 's \<Rightarrow> (fmt_result \<times> 's) res" where
  "bytes_lower_hex = fmt_impl bytes_ref_lower_hex bytes_as_ref"

definition bytes_mut_lower_hex :: "'s fmt_write \<Rightarrow> heap \<Rightarrow> bytes_mut \<Rightarrow> 's \<Rightarrow> (fmt_result \<times> 's) res" where
  "bytes_mut_lower_hex = fmt_impl bytes_ref_lower_hex bytes_mut_as_ref"

definition bytes_upper_hex :: "'s fmt_write \<Rightarrow> heap \<Rightarrow> bytes \<Rightarrow> 's \<Rightarrow> (fmt_result \<times> 's) res" where
  "bytes_upper_hex = fmt_impl bytes_ref_upper_hex bytes_as_ref"

definition bytes_mut_upper_hex :: "'s fmt_write \<Rightarrow> heap \<Rightarrow> bytes_mut \<Rightarrow> 's \<Rightarrow> (fmt_result \<times> 's) res" where
  "bytes_mut_upper_hex = fmt_impl bytes_ref_upper_hex bytes_mut_as_ref"

section \<open>BytesMut as a sink\<close>

definition as_bytes :: "string \<Rightarrow> u8 list" where
  "as_bytes = map (\<lambda>c. of_nat (of_char c))"

definition bytes_mut_write_str :: "allocator \<Rightarrow> mut_state fmt_write" where
  "bytes_mut_write_str alloc = (\<lambda>(self, h) s.
     if bytes_mut_remaining_mut self \<ge> length (as_bytes s) then
       res_bind (bytes_mut_put_slice alloc h self (as_bytes s)) (\<lambda>(self, h). Inr (Ok (), self, h))
     else Inr (Err (), self, h))"

text \<open>\<open>write_fmt(args)\<close>: \<open>fmt::write\<close> passes the pieces of the arguments on, up to the first error.\<close>

definition bytes_mut_write_fmt :: "allocator \<Rightarrow> string list \<Rightarrow> mut_state \<Rightarrow> (fmt_result \<times> mut_state) res" where
  "bytes_mut_write_fmt alloc args = write_pieces (bytes_mut_write_str alloc) args"

definition mut_text :: "mut_state \<Rightarrow> string" where
  "mut_text s = map as_char (mut_view s)"

lemma as_char_of_nat [simp]: "as_char (of_nat (of_char c)) = c"
  using of_char_mod_256 [of c, where 'a = nat] by (simp add: as_char_def unat_of_nat del: of_char_mod_256)

lemma as_bytes_text [simp]: "map as_char (as_bytes s) = s" "length (as_bytes s) = length s"
  by (induction s) (simp_all add: as_bytes_def)

context allocator_laws
begin

text \<open>
  \<open>write_str\<close> answers with the error exactly when the text does not fit into \<open>isize::MAX\<close> bytes;
  otherwise it appends the text, or panics as growing a buffer beyond \<open>2^60\<close> bytes may.
\<close>

lemma write_str_ok:
  assumes ok: "mut_ok h0 hs vs (m, h)"
  shows "if bm_len m + length s \<le> isize_max
    then (\<exists>f'. bytes_mut_write_str alloc (m, h) s = Inr (Ok (), f') \<and> mut_ok h0 hs vs f' \<and>
        mut_view f' = mut_view (m, h) @ as_bytes s) \<or>
      too_large (bytes_mut_write_str alloc (m, h) s) \<and> \<not> moderate h m (length s)
    else bytes_mut_write_str alloc (m, h) s = Inr (Err (), m, h)"
proof (cases "bm_len m + length s \<le> isize_max")
  case True
  then have fits: "length (as_bytes s) \<le> bytes_mut_remaining_mut m" by (simp add: bytes_mut_remaining_mut_def)
  from bytes_mut_extend_from_slice_ok [OF mut_ok_fields(1) [OF ok], of "as_bytes s"] consider
      m' h' where "bytes_mut_put_slice alloc h m (as_bytes s) = Inr (m', h')" "became h hs vs (HM m') (contents h (HM m) @ as_bytes s) h'"
    | "too_large (bytes_mut_put_slice alloc h m (as_bytes s))" "\<not> moderate h m (length s)"
    by (auto simp: appended_def bytes_mut_put_slice_def)
  then show ?thesis
  proof cases
    case 1
    with mut_ok_became [OF ok 1(2)] True fits show ?thesis by (simp add: bytes_mut_write_str_def mut_view_def)
  next
    case 2
    with True fits show ?thesis by (auto simp: bytes_mut_write_str_def too_large_def capacity_overflow_def)
  qed
next
  case False
  then show ?thesis using mut_ok_fields(3,4) [OF ok] by (simp add: bytes_mut_write_str_def bytes_mut_remaining_mut_def)
qed

lemma mut_sink: "fmt_sink (bytes_mut_write_str alloc) (mut_ok h0 hs vs) mut_text"
proof unfold_locales
  fix f s assume f: "mut_ok h0 hs vs f"
  obtain m h where mh: "f = (m, h)" by (cases f)
  from write_str_ok [of h0 hs vs m h s] f mh
  show "(\<exists>p. bytes_mut_write_str alloc f s = Inl (Panic p)) \<or>
    (\<exists>f'. mut_ok h0 hs vs f' \<and> (bytes_mut_write_str alloc f s = Inr (Ok (), f') \<and> mut_text f' = mut_text f @ s \<or>
      bytes_mut_write_str alloc f s = Inr (Err (), f') \<and> mut_text f' = mut_text f))"
    by (auto simp: mut_text_def too_large_def capacity_overflow_def split: if_splits)
qed

end

interpretation bump_sink: fmt_sink "bytes_mut_write_str bump" "mut_ok h0 hs vs" mut_text for h0 hs vs
  by (rule bump.mut_sink)

lemma handle_fmt:
  assumes "bytes_inv h hs vs"
  shows "HB b \<in># hs \<Longrightarrow> bytes_debug W h b f = bytes_ref_debug W (contents h (HB b)) f"
    "HM m \<in># hs \<Longrightarrow> bytes_mut_debug W h m f = bytes_ref_debug W (contents h (HM m)) f"
    "HB b \<in># hs \<Longrightarrow> bytes_lower_hex W h b f = bytes_ref_lower_hex W (contents h (HB b)) f"
    "HM m \<in># hs \<Longrightarrow> bytes_mut_lower_hex W h m f = bytes_ref_lower_hex W (contents h (HM m)) f"
    "HB b \<in># hs \<Longrightarrow> bytes_upper_hex W h b f = bytes_ref_upper_hex W (contents h (HB b)) f"
    "HM m \<in># hs \<Longrightarrow> bytes_mut_upper_hex W h m f = bytes_ref_upper_hex W (contents h (HM m)) f"
  using read_contents [OF bytes_invD(3) [OF assms]]
  by (simp_all add: fmt_impl_def bytes_debug_def bytes_mut_debug_def bytes_lower_hex_def bytes_mut_lower_hex_def bytes_upper_hex_def
      bytes_mut_upper_hex_def bytes_as_ref_def bytes_mut_as_ref_def as_slice_def bytes_mut_as_slice_def)

end
