(* ===== verification/Bytes_Put.thy ===== *)
theory Bytes_Put
  imports Bytes_Mut_Buf
begin

text \<open>
  The operations that go from any \<open>Buf\<close> to \<open>Bytes\<close> and \<open>BytesMut\<close>: \<open>BytesMut::put\<close>
  (\<^verbatim>\<open>bytes_mut.rs\<close>) and \<open>copy_to_bytes\<close> of the trait, of \<open>Take\<close> and of \<open>Chain\<close>
  (\<^verbatim>\<open>buf_impl.rs\<close>, \<^verbatim>\<open>take.rs\<close>, \<^verbatim>\<open>chain.rs\<close>). The methods call each other through the trait:
  \<open>put\<close> calls \<open>copy_to_bytes\<close> of its source and the provided \<open>copy_to_bytes\<close> calls \<open>put\<close>.
\<close>

section \<open>Sources\<close>

text \<open>
  A \<open>Buf\<close> that may hold handles to the heap: the required methods, \<open>copy_to_bytes\<close> and what
  dropping it does. A mutable reference to a source is a source whose drop does nothing.
\<close>

record 's heap_buf =
  hb_core :: "('s \<times> heap) buf_core"
  hb_copy_to_bytes :: "heap \<Rightarrow> 's \<Rightarrow> usize \<Rightarrow> (bytes \<times> 's \<times> heap) res"
  hb_drop :: "heap \<Rightarrow> 's \<Rightarrow> ('s \<times> heap) res"

definition by_ref :: "'s heap_buf \<Rightarrow> 's heap_buf" where
  "by_ref S = S\<lparr>hb_drop := \<lambda>h s. Inr (s, h)\<rparr>"

section \<open>BytesMut::put\<close>

definition bytes_mut_put_step ::
  "allocator \<Rightarrow> ('s \<times> heap) buf_core \<Rightarrow> bytes_mut \<times> 's \<times> heap \<Rightarrow> (bytes_mut \<times> 's \<times> heap) res" where
  "bytes_mut_put_step alloc C = (\<lambda>(self, src, h).
     let s = chunk C (src, h); l = length s in
     res_bind (bytes_mut_extend_from_slice alloc h self s) (\<lambda>(self, h).
     res_bind (advance C (src, h) l) (\<lambda>(src, h).
     Inr (self, src, h))))"

text \<open>The match on \<open>src_copy.try_into_mut()\<close>: assigning to \<open>*self\<close> drops the old handle, and \<open>bytes\<close> is dropped at the end of its arm.\<close>

definition absorb :: "allocator \<Rightarrow> heap \<Rightarrow> bytes_mut \<Rightarrow> bytes \<Rightarrow> (bytes_mut \<times> heap) res" where
  "absorb alloc h self src_copy =
     res_bind (try_into_mut alloc h src_copy) (\<lambda>(r, h).
     case r of
       Ok bytes_mut \<Rightarrow> res_bind (bytes_mut_drop h self) (\<lambda>h. Inr (bytes_mut, h))
     | Err bytes \<Rightarrow>
         res_bind (as_slice h bytes) (\<lambda>s.
         res_bind (bytes_mut_extend_from_slice alloc h self s) (\<lambda>(self, h).
         res_bind (bytes_drop h bytes) (\<lambda>h. Inr (self, h)))))"

definition bytes_mut_put ::
  "allocator \<Rightarrow> 's heap_buf \<Rightarrow> heap \<Rightarrow> bytes_mut \<Rightarrow> 's \<Rightarrow> (bytes_mut \<times> 's \<times> heap) res" where
  "bytes_mut_put alloc S h self src =
     (let C = hb_core S in
      if \<not> has_remaining C (src, h) then
        res_bind (hb_drop S h src) (\<lambda>(src, h). Inr (self, src, h))
      else if bm_cap self = 0 then
        res_bind (hb_copy_to_bytes S h src (remaining C (src, h))) (\<lambda>(src_copy, src, h).
        res_bind (hb_drop S h src) (\<lambda>(src, h).
        res_bind (absorb alloc h self src_copy) (\<lambda>(self, h). Inr (self, src, h))))
      else
        res_bind (reserve alloc h self (remaining C (src, h))) (\<lambda>(self, h).
        res_bind (rust_while (\<lambda>(self, src, h). has_remaining C (src, h)) (bytes_mut_put_step alloc C) (self, src, h))
          (\<lambda>(self, src, h).
        res_bind (hb_drop S h src) (\<lambda>(src, h). Inr (self, src, h)))))"

section \<open>copy_to_bytes\<close>

text \<open>\<open>Take\<close> over the state of its source and the heap\<close>

definition take_with_heap :: "'s take_adapter \<times> heap \<Rightarrow> ('s \<times> heap) take_adapter" where
  "take_with_heap = (\<lambda>(t, h). \<lparr>take_inner = (take_inner t, h), take_limit = take_limit t\<rparr>)"

definition heap_take_core :: "('s \<times> heap) buf_core \<Rightarrow> ('s take_adapter \<times> heap) buf_core" where
  "heap_take_core C =
     \<lparr>remaining = (\<lambda>x. take_remaining C (take_with_heap x)), chunk = (\<lambda>x. take_chunk C (take_with_heap x)),
      advance = (\<lambda>x cnt. res_bind (take_advance C (take_with_heap x) cnt) (\<lambda>t.
        Inr (\<lparr>take_inner = fst (take_inner t), take_limit = take_limit t\<rparr>, snd (take_inner t))))\<rparr>"

definition take_copy_to_bytes ::
  "'s heap_buf \<Rightarrow> heap \<Rightarrow> 's take_adapter \<Rightarrow> usize \<Rightarrow> (bytes \<times> 's take_adapter \<times> heap) res" where
  "take_copy_to_bytes S h self len =
     res_bind (rust_assert (len \<le> remaining (heap_take_core (hb_core S)) (self, h)) ''`len` greater than remaining'') (\<lambda>_.
     res_bind (hb_copy_to_bytes S h (take_inner self) len) (\<lambda>(r, inner, h).
     res_bind (usize_sub (take_limit self) len) (\<lambda>lim.
     Inr (r, \<lparr>take_inner = inner, take_limit = lim\<rparr>, h))))"

definition heap_take :: "'s heap_buf \<Rightarrow> 's take_adapter heap_buf" where
  "heap_take S =
     \<lparr>hb_core = heap_take_core (hb_core S), hb_copy_to_bytes = take_copy_to_bytes S,
      hb_drop = (\<lambda>h t. res_bind (hb_drop S h (take_inner t)) (\<lambda>(s, h). Inr (t\<lparr>take_inner := s\<rparr>, h)))\<rparr>"

text \<open>
  The provided method. \<open>S\<close> is the implementation of the trait by \<open>Self\<close>, so it holds the
  \<open>copy_to_bytes\<close> that the inner \<open>put\<close> would call.
\<close>

definition copy_to_bytes_default ::
  "allocator \<Rightarrow> 's heap_buf \<Rightarrow> heap \<Rightarrow> 's \<Rightarrow> usize \<Rightarrow> (bytes \<times> 's \<times> heap) res" where
  "copy_to_bytes_default alloc S h self len =
     (let available = remaining (hb_core S) (self, h) in
      if available < len then panic_advance \<lparr>requested = len, available = available\<rparr>
      else
        res_bind (with_capacity alloc h len) (\<lambda>(ret, h).
        res_bind (bytes_mut_put alloc (heap_take (by_ref S)) h ret \<lparr>take_inner = self, take_limit = len\<rparr>) (\<lambda>(ret, t, h).
        res_bind (freeze alloc h ret) (\<lambda>(b, h). Inr (b, take_inner t, h)))))"

definition chain_copy_to_bytes ::
  "allocator \<Rightarrow> 'a heap_buf \<Rightarrow> 'b heap_buf \<Rightarrow> heap \<Rightarrow> ('a, 'b) chain \<Rightarrow> usize \<Rightarrow> (bytes \<times> ('a, 'b) chain \<times> heap) res" where
  "chain_copy_to_bytes alloc A B h self len =
     (let a_rem = remaining (hb_core A) (chain_a self, h) in
      if a_rem \<ge> len then
        res_bind (hb_copy_to_bytes A h (chain_a self) len) (\<lambda>(r, a, h). Inr (r, self\<lparr>chain_a := a\<rparr>, h))
      else if a_rem = 0 then
        res_bind (hb_copy_to_bytes B h (chain_b self) len) (\<lambda>(r, b, h). Inr (r, self\<lparr>chain_b := b\<rparr>, h))
      else
        res_bind (rust_assert (len - a_rem \<le> remaining (hb_core B) (chain_b self, h)) ''`len` greater than remaining'') (\<lambda>_.
        res_bind (with_capacity alloc h len) (\<lambda>(ret, h).
        res_bind (bytes_mut_put alloc (by_ref A) h ret (chain_a self)) (\<lambda>(ret, a, h).
        res_bind (bytes_mut_put alloc (heap_take (by_ref B)) h ret \<lparr>take_inner = chain_b self, take_limit = len - a_rem\<rparr>)
          (\<lambda>(ret, t, h).
        res_bind (freeze alloc h ret) (\<lambda>(r, h).
        Inr (r, \<lparr>chain_a = a, chain_b = take_inner t\<rparr>, h)))))))"

text \<open>The sources of the crate itself: slices, \<open>Bytes\<close> and \<open>BytesMut\<close>, by value\<close>

definition slice_source :: "allocator \<Rightarrow> u8 list heap_buf" where
  "slice_source alloc =
     (let S = \<lparr>hb_core = \<lparr>remaining = (\<lambda>(s, h). remaining slice_core s), chunk = (\<lambda>(s, h). chunk slice_core s),
                advance = (\<lambda>(s, h) cnt. res_bind (advance slice_core s cnt) (\<lambda>s. Inr (s, h)))\<rparr>,
              hb_copy_to_bytes = (\<lambda>h s len. Inl Diverges), hb_drop = (\<lambda>h s. Inr (s, h))\<rparr> in
      S\<lparr>hb_copy_to_bytes := copy_to_bytes_default alloc S\<rparr>)"

text \<open>\<open>None\<close> is a \<open>Bytes\<close> that has been dropped; the type system allows no operation on it.\<close>

definition bytes_source :: "allocator \<Rightarrow> bytes option heap_buf" where
  "bytes_source alloc =
     \<lparr>hb_core = \<lparr>remaining = (\<lambda>(b, h). case b of Some b \<Rightarrow> b_len b | None \<Rightarrow> 0),
        chunk = (\<lambda>(b, h). case b of Some b \<Rightarrow> contents h (HB b) | None \<Rightarrow> []),
        advance = (\<lambda>(b, h) cnt. case b of
            Some b \<Rightarrow> res_bind (bytes_advance h b cnt) (\<lambda>b. Inr (Some b, h)) | None \<Rightarrow> Inr (None, h))\<rparr>,
      hb_copy_to_bytes = (\<lambda>h b len. case b of
          Some b \<Rightarrow> res_bind (bytes_copy_to_bytes alloc h b len) (\<lambda>(r, b, h). Inr (r, Some b, h))
        | None \<Rightarrow> Inr (bytes_new, None, h)),
      hb_drop = (\<lambda>h b. case b of Some b \<Rightarrow> res_bind (bytes_drop h b) (\<lambda>h. Inr (None, h)) | None \<Rightarrow> Inr (None, h))\<rparr>"

section \<open>The contract of a source\<close>

text \<open>
  The handles that a source owns, the bytes it still has to give, and the bytes it holds but does
  not give (those behind the limit of a \<open>Take\<close>). An operation keeps the invariant of all
  handles, disturbs none that the source does not own, and owns no more handles afterwards.
\<close>

definition src_moved :: "('s \<Rightarrow> handle multiset) \<Rightarrow> heap \<Rightarrow> handle multiset \<Rightarrow> addr set \<Rightarrow> 's \<Rightarrow> 's \<Rightarrow> heap \<Rightarrow> bool" where
  "src_moved owns h hs vs s s' h' \<longleftrightarrow>
     bytes_inv h' (owns s' + hs) vs \<and> undisturbed h hs vs h' \<and> size (owns s') \<le> size (owns s)"

abbreviation few :: "handle multiset \<Rightarrow> bool" where
  "few hs \<equiv> size hs < 2 ^ 62"

locale heap_reader =
  fixes S :: "'s heap_buf" and owns :: "'s \<Rightarrow> handle multiset"
    and view :: "heap \<Rightarrow> 's \<Rightarrow> u8 list" and rest :: "heap \<Rightarrow> 's \<Rightarrow> u8 list"
  assumes src_remaining: "bytes_inv h (owns s + hs) vs \<Longrightarrow> remaining (hb_core S) (s, h) = length (view h s)"
    and src_chunk: "bytes_inv h (owns s + hs) vs \<Longrightarrow> prefix (chunk (hb_core S) (s, h)) (view h s)"
    and src_nonempty: "bytes_inv h (owns s + hs) vs \<Longrightarrow> view h s \<noteq> [] \<Longrightarrow> chunk (hb_core S) (s, h) \<noteq> []"
    and src_frame: "undisturbed h (owns s) {} h' \<Longrightarrow> view h' s = view h s"
    and rest_frame: "undisturbed h (owns s) {} h' \<Longrightarrow> rest h' s = rest h s"
    and src_advance: "bytes_inv h (owns s + hs) vs \<Longrightarrow> few (owns s + hs) \<Longrightarrow> n \<le> length (view h s) \<Longrightarrow>
      \<exists>s' h'. advance (hb_core S) (s, h) n = Inr (s', h') \<and> src_moved owns h hs vs s s' h' \<and>
        view h' s' = drop n (view h s) \<and> rest h' s' = rest h s"
    and src_drop: "bytes_inv h (owns s + hs) vs \<Longrightarrow> few (owns s + hs) \<Longrightarrow>
      \<exists>s' h'. hb_drop S h s = Inr (s', h') \<and> src_moved owns h hs vs s s' h' \<and> length (view h' s') \<le> length (view h s)"

text \<open>What \<open>copy_to_bytes(n)\<close> gives: the first \<open>n\<close> bytes, and the source has the others left.\<close>

definition copied ::
  "('s \<Rightarrow> handle multiset) \<Rightarrow> (heap \<Rightarrow> 's \<Rightarrow> u8 list) \<Rightarrow> heap \<Rightarrow> handle multiset \<Rightarrow> addr set \<Rightarrow> 's \<Rightarrow> usize \<Rightarrow>
    (bytes \<times> 's \<times> heap) res \<Rightarrow> bool" where
  "copied owns view h hs vs s n r \<longleftrightarrow>
     (\<exists>b s' h'. r = Inr (b, s', h') \<and> bytes_inv h' (add_mset (HB b) (owns s' + hs)) vs \<and>
        undisturbed h hs vs h' \<and> size (owns s') \<le> size (owns s) \<and>
        contents h' (HB b) = take n (view h s) \<and> view h' s' = drop n (view h s))"

locale heap_source = heap_reader +
  assumes src_copy_to_bytes: "bytes_inv h (owns s + hs) vs \<Longrightarrow> Suc (size (owns s + hs)) < 2 ^ 62 \<Longrightarrow> n \<le> length (view h s) \<Longrightarrow> n \<le> isize_max \<Longrightarrow>
      copied owns view h hs vs s n (hb_copy_to_bytes S h s n)"

lemma undisturbed_some: "undisturbed h hs vs h' \<Longrightarrow> set_mset hs' \<subseteq> set_mset hs \<Longrightarrow> vs' \<subseteq> vs \<Longrightarrow> undisturbed h hs' vs' h'"
  by (auto simp: undisturbed_def)

text \<open>A \<open>put\<close> that has moved everything, and one that left the source as its drop leaves it\<close>

definition put_ends ::
  "('s \<Rightarrow> handle multiset) \<Rightarrow> (heap \<Rightarrow> 's \<Rightarrow> u8 list) \<Rightarrow> heap \<Rightarrow> handle multiset \<Rightarrow> addr set \<Rightarrow> bytes_mut \<Rightarrow> 's \<Rightarrow>
    (bytes_mut \<times> 's \<times> heap) res \<Rightarrow> bool" where
  "put_ends owns view h hs vs m s r \<longleftrightarrow> (\<exists>m' s' h'. r = Inr (m', s', h') \<and> bytes_inv h' (add_mset (HM m') (owns s' + hs)) vs \<and>
     undisturbed h hs vs h' \<and> size (owns s') \<le> size (owns s) \<and>
     contents h' (HM m') = contents h (HM m) @ view h s \<and> view h' s' = [])"

definition put_fills ::
  "'s heap_buf \<Rightarrow> ('s \<Rightarrow> handle multiset) \<Rightarrow> (heap \<Rightarrow> 's \<Rightarrow> u8 list) \<Rightarrow> (heap \<Rightarrow> 's \<Rightarrow> u8 list) \<Rightarrow> heap \<Rightarrow> handle multiset \<Rightarrow> addr set \<Rightarrow>
    bytes_mut \<Rightarrow> 's \<Rightarrow> (bytes_mut \<times> 's \<times> heap) res \<Rightarrow> bool" where
  "put_fills S owns view rest h hs vs m s r \<longleftrightarrow> put_ends owns view h hs vs m s r \<and>
     (\<exists>m' s' h' s1 h1. r = Inr (m', s', h') \<and> hb_drop S h1 s1 = Inr (s', h') \<and> rest h1 s1 = rest h s \<and>
        bm_cap m' = bm_cap m \<and> bm_len m' = bm_len m + length (view h s))"

locale heap_fill = allocator_laws alloc + heap_reader S owns view rest
  for alloc and S :: "'s heap_buf" and owns view rest
begin

lemma put_step_ok:
  assumes inv: "bytes_inv h (add_mset (HM m) (owns s + hs)) vs" and few: "few (add_mset (HM m) (owns s + hs))"
    and fit: "bm_len m + length (view h s) \<le> bm_cap m" and more: "has_remaining (hb_core S) (s, h)"
  shows "\<exists>m' s' h' n. bytes_mut_put_step alloc (hb_core S) (m, s, h) = Inr (m', s', h') \<and> 0 < n \<and> n \<le> length (view h s) \<and>
    bytes_inv h' (add_mset (HM m') (owns s' + hs)) vs \<and> undisturbed h hs vs h' \<and> size (owns s') \<le> size (owns s) \<and>
    contents h' (HM m') = contents h (HM m) @ take n (view h s) \<and> view h' s' = drop n (view h s) \<and>
    rest h' s' = rest h s \<and> bm_len m' = bm_len m + n \<and> bm_cap m' = bm_cap m"
proof -
  have inv_s: "bytes_inv h (owns s + add_mset (HM m) hs) vs" using inv by simp
  let ?c = "chunk (hb_core S) (s, h)"
  have "view h s \<noteq> []" using more src_remaining [OF inv_s] by (auto simp: has_remaining_def)
  then have c: "?c \<noteq> []" "prefix ?c (view h s)" using src_nonempty [OF inv_s] src_chunk [OF inv_s] by auto
  then have n: "0 < length ?c" "length ?c \<le> length (view h s)" "take (length ?c) (view h s) = ?c"
    by (auto simp: prefix_length_le prefix_def)
  have "bm_len m + length ?c \<le> bm_cap m" using fit n(2) by simp
  then obtain h1 where h1: "bytes_mut_extend_from_slice alloc h m ?c = Inr (m\<lparr>bm_len := bm_len m + length ?c\<rparr>, h1)"
    "became h (owns s + hs) vs (HM (m\<lparr>bm_len := bm_len m + length ?c\<rparr>)) (contents h (HM m) @ ?c) h1"
    using append_fits [OF inv] by blast
  let ?m = "m\<lparr>bm_len := bm_len m + length ?c\<rparr>"
  have inv1: "bytes_inv h1 (owns s + add_mset (HM ?m) hs) vs" and un1: "undisturbed h (owns s + hs) vs h1"
    and c1: "contents h1 (HM ?m) = contents h (HM m) @ ?c" using h1(2) by (simp_all add: became_def)
  have v1: "view h1 s = view h s" by (rule src_frame) (rule undisturbed_some [OF un1]; auto)
  have r1: "rest h1 s = rest h s" by (rule rest_frame) (rule undisturbed_some [OF un1]; auto)
  have "few (owns s + add_mset (HM ?m) hs)" using few by simp
  from src_advance [OF inv1 this, of "length ?c"] n(2) v1 obtain s' h2 where
    s': "advance (hb_core S) (s, h1) (length ?c) = Inr (s', h2)" "src_moved owns h1 (add_mset (HM ?m) hs) vs s s' h2"
      "view h2 s' = drop (length ?c) (view h s)" "rest h2 s' = rest h s" using r1 by auto
  have "undisturbed h hs vs h2"
    by (rule undisturbed_trans [OF undisturbed_some [OF un1] undisturbed_some]) (use s'(2) in \<open>auto simp: src_moved_def\<close>)
  moreover have "contents h2 (HM ?m) = contents h (HM m) @ ?c" using s'(2) c1 by (simp add: src_moved_def undisturbed_def)
  ultimately show ?thesis using h1(1) s' n
    by (intro exI [of _ ?m] exI [of _ s'] exI [of _ h2] exI [of _ "length ?c"])
      (auto simp: bytes_mut_put_step_def Let_def src_moved_def)
qed

lemma put_loop_ok:
  assumes inv: "bytes_inv h (add_mset (HM m) (owns s + hs)) vs" and few: "few (add_mset (HM m) (owns s + hs))"
    and fit: "bm_len m + length (view h s) \<le> bm_cap m"
  shows "\<exists>m' s' h'. rust_while (\<lambda>(m, s, h). has_remaining (hb_core S) (s, h)) (bytes_mut_put_step alloc (hb_core S)) (m, s, h) =
      Inr (m', s', h') \<and> bytes_inv h' (add_mset (HM m') (owns s' + hs)) vs \<and> undisturbed h hs vs h' \<and>
    size (owns s') \<le> size (owns s) \<and> contents h' (HM m') = contents h (HM m) @ view h s \<and> view h' s' = [] \<and>
    rest h' s' = rest h s \<and> bm_cap m' = bm_cap m \<and> bm_len m' = bm_len m + length (view h s)"
proof -
  let ?all = "contents h (HM m) @ view h s"
  let ?P = "\<lambda>(m', s', h'). bytes_inv h' (add_mset (HM m') (owns s' + hs)) vs \<and> undisturbed h hs vs h' \<and>
    size (owns s') \<le> size (owns s) \<and> contents h' (HM m') @ view h' s' = ?all \<and> rest h' s' = rest h s \<and> bm_cap m' = bm_cap m \<and>
    bm_len m' + length (view h' s') = bm_len m + length (view h s)"
  have "\<exists>t. rust_while (\<lambda>(m, s, h). has_remaining (hb_core S) (s, h)) (bytes_mut_put_step alloc (hb_core S)) (m, s, h) = Inr t \<and>
    ?P t \<and> \<not> (case t of (m, s, h) \<Rightarrow> has_remaining (hb_core S) (s, h))"
  proof (rule rust_while_rule [where m = "\<lambda>(m, s, h). length (view h s)"])
    show "?P (m, s, h)" using inv by simp
    fix t assume t: "?P t" "case t of (m, s, h) \<Rightarrow> has_remaining (hb_core S) (s, h)"
    obtain m1 s1 h1 where t_eq: "t = (m1, s1, h1)" by (cases t)
    have "few (add_mset (HM m1) (owns s1 + hs))" using t(1) few by (simp add: t_eq)
    moreover have "bm_len m1 + length (view h1 s1) \<le> bm_cap m1" using t(1) fit by (simp add: t_eq)
    ultimately obtain m2 s2 h2 n where "bytes_mut_put_step alloc (hb_core S) (m1, s1, h1) = Inr (m2, s2, h2)" "0 < n" "n \<le> length (view h1 s1)"
      "bytes_inv h2 (add_mset (HM m2) (owns s2 + hs)) vs" "undisturbed h1 hs vs h2" "size (owns s2) \<le> size (owns s1)"
      "contents h2 (HM m2) = contents h1 (HM m1) @ take n (view h1 s1)" "view h2 s2 = drop n (view h1 s1)"
      "rest h2 s2 = rest h1 s1" "bm_len m2 = bm_len m1 + n" "bm_cap m2 = bm_cap m1"
      using put_step_ok [of h1 m1 s1 hs vs] t by (auto simp: t_eq)
    with t(1) undisturbed_trans [of h hs vs h1 h2] show "\<exists>t'. bytes_mut_put_step alloc (hb_core S) t = Inr t' \<and> ?P t' \<and>
        (case t' of (m, s, h) \<Rightarrow> length (view h s)) < (case t of (m, s, h) \<Rightarrow> length (view h s))"
      by (intro exI [of _ "(m2, s2, h2)"]) (auto simp: t_eq)
  qed
  then obtain m' s' h' where r: "rust_while (\<lambda>(m, s, h). has_remaining (hb_core S) (s, h)) (bytes_mut_put_step alloc (hb_core S)) (m, s, h) = Inr (m', s', h')"
    "?P (m', s', h')" "\<not> has_remaining (hb_core S) (s', h')" by auto
  have "bytes_inv h' (owns s' + add_mset (HM m') hs) vs" using r(2) by simp
  from src_remaining [OF this] r(3) have "view h' s' = []" by (simp add: has_remaining_def)
  with r show ?thesis by auto
qed

lemma drop_empty:
  assumes inv: "bytes_inv h (add_mset x (owns s + hs)) vs" and few: "few (add_mset x (owns s + hs))" and v: "view h s = []"
  obtains s' h' where "hb_drop S h s = Inr (s', h')" "bytes_inv h' (add_mset x (owns s' + hs)) vs"
    "undisturbed h (add_mset x hs) vs h'" "size (owns s') \<le> size (owns s)" "view h' s' = []"
proof -
  have "bytes_inv h (owns s + add_mset x hs) vs" "few (owns s + add_mset x hs)" using inv few by simp_all
  from src_drop [OF this] v that show thesis by (auto simp: src_moved_def)
qed

lemma put_loop_drop:
  assumes inv: "bytes_inv h (add_mset (HM m) (owns s + hs)) vs" and few: "few (add_mset (HM m) (owns s + hs))"
    and fit: "bm_len m + length (view h s) \<le> bm_cap m"
  shows "put_fills S owns view rest h hs vs m s (res_bind (rust_while (\<lambda>(m, s, h). has_remaining (hb_core S) (s, h)) (bytes_mut_put_step alloc (hb_core S)) (m, s, h))
    (\<lambda>(m, s, h). res_bind (hb_drop S h s) (\<lambda>(s, h). Inr (m, s, h))))"
proof -
  from put_loop_ok [OF assms] obtain m1 s1 h1 where
    r: "rust_while (\<lambda>(m, s, h). has_remaining (hb_core S) (s, h)) (bytes_mut_put_step alloc (hb_core S)) (m, s, h) = Inr (m1, s1, h1)"
      "bytes_inv h1 (add_mset (HM m1) (owns s1 + hs)) vs" "undisturbed h hs vs h1" "size (owns s1) \<le> size (owns s)"
      "contents h1 (HM m1) = contents h (HM m) @ view h s" "view h1 s1 = []"
      "rest h1 s1 = rest h s" "bm_cap m1 = bm_cap m" "bm_len m1 = bm_len m + length (view h s)" by blast
  have "few (add_mset (HM m1) (owns s1 + hs))" using few r(4) by simp
  with r(2,6) obtain s2 h2 where "hb_drop S h1 s1 = Inr (s2, h2)" "bytes_inv h2 (add_mset (HM m1) (owns s2 + hs)) vs"
    "undisturbed h1 (add_mset (HM m1) hs) vs h2" "size (owns s2) \<le> size (owns s1)" "view h2 s2 = []"
    using drop_empty [of h1 "HM m1" s1 hs vs] by blast
  with r undisturbed_trans [OF r(3), of h2] show ?thesis
    by (auto simp: put_fills_def put_ends_def undisturbed_def)
qed

lemma put_nothing:
  assumes inv: "bytes_inv h (add_mset (HM m) (owns s + hs)) vs" and few: "few (add_mset (HM m) (owns s + hs))" and v: "view h s = []"
  shows "put_fills S owns view rest h hs vs m s (bytes_mut_put alloc S h m s)"
proof -
  have "bytes_inv h (owns s + add_mset (HM m) hs) vs" using inv by simp
  from src_remaining [OF this] v have "\<not> has_remaining (hb_core S) (s, h)" by (simp add: has_remaining_def)
  moreover obtain s' h' where "hb_drop S h s = Inr (s', h')" "bytes_inv h' (add_mset (HM m) (owns s' + hs)) vs"
    "undisturbed h (add_mset (HM m) hs) vs h'" "size (owns s') \<le> size (owns s)" "view h' s' = []"
    using drop_empty [OF assms] by blast
  ultimately show ?thesis using v by (auto simp: put_fills_def put_ends_def bytes_mut_put_def undisturbed_def)
qed

text \<open>Into a handle with the capacity, nothing is allocated and nothing can fail.\<close>

lemma put_fits:
  assumes inv: "bytes_inv h (add_mset (HM m) (owns s + hs)) vs" and few: "few (add_mset (HM m) (owns s + hs))"
    and fit: "bm_len m + length (view h s) \<le> bm_cap m"
  shows "put_fills S owns view rest h hs vs m s (bytes_mut_put alloc S h m s)"
proof (cases "view h s = []")
  case False
  have "bytes_inv h (owns s + add_mset (HM m) hs) vs" using inv by simp
  note rem = src_remaining [OF this]
  have "length (view h s) \<le> bm_cap m - bm_len m" "bm_len m \<le> bm_cap m" "bm_cap m \<noteq> 0" using fit False by (cases "view h s"; simp)+
  then have "bytes_mut_put alloc S h m s =
      res_bind (rust_while (\<lambda>(m, s, h). has_remaining (hb_core S) (s, h)) (bytes_mut_put_step alloc (hb_core S)) (m, s, h))
        (\<lambda>(m, s, h). res_bind (hb_drop S h s) (\<lambda>(s, h). Inr (m, s, h)))"
    using rem False by (simp add: bytes_mut_put_def has_remaining_def reserve_def usize_sub_def Let_def)
  with put_loop_drop [OF inv few fit] show ?thesis by simp
qed (rule put_nothing [OF inv few])

end

context allocator_laws
begin

lemma absorb_ok:
  assumes inv: "bytes_inv h (add_mset (HB b) (add_mset (HM m) hs)) vs" and few: "Suc (size hs) < 2 ^ 63 - 1" and cap: "bm_cap m = 0"
  shows "(\<exists>m' h'. absorb alloc h m b = Inr (m', h') \<and> became h hs vs (HM m') (contents h (HM m) @ contents h (HB b)) h') \<or>
    too_large (absorb alloc h m b)"
proof -
  have few': "size (add_mset (HM m) hs) < 2 ^ 63 - 1" using few by simp
  show ?thesis using inv few'
  proof (cases rule: try_into_mut_ok)
    case (mut m' h1)
    have ok: "handle_ok h (HM m)" using bytes_invD(3) [OF inv] by simp
    then have empty: "contents h (HM m) = []" using cap length_contents [OF ok] by (simp add: handle_ok_def)
    from mut have "bytes_inv h1 (add_mset (HM m) (add_mset (HM m') hs)) vs" by (simp add: became_def add_mset_commute)
    from bytes_mut_drop_ok [OF this] mut empty show ?thesis by (auto simp: absorb_def became_def dropped_def undisturbed_def)
  next
    case refused
    have inv': "bytes_inv h (add_mset (HM m) (add_mset (HB b) hs)) vs" using inv by (simp add: add_mset_commute)
    have "as_slice h b = Inr (contents h (HB b))" using read_contents(1) bytes_invD(3) [OF inv, of "HB b"] by (simp add: as_slice_def)
    then have absorb: "absorb alloc h m b = res_bind (bytes_mut_extend_from_slice alloc h m (contents h (HB b)))
        (\<lambda>(m, h). res_bind (bytes_drop h b) (\<lambda>h. Inr (m, h)))" using refused(1) by (simp add: absorb_def)
    from bytes_mut_extend_from_slice_ok [OF inv', of "contents h (HB b)"] consider
        m' h1 where "bytes_mut_extend_from_slice alloc h m (contents h (HB b)) = Inr (m', h1)"
          "became h (add_mset (HB b) hs) vs (HM m') (contents h (HM m) @ contents h (HB b)) h1"
      | "too_large (bytes_mut_extend_from_slice alloc h m (contents h (HB b)))" unfolding appended_def by blast
    then show ?thesis
    proof cases
      case 1
      then have "bytes_inv h1 (add_mset (HB b) (add_mset (HM m') hs)) vs" by (simp add: became_def add_mset_commute)
      from bytes_drop_ok [OF this] few 1 show ?thesis by (auto simp: absorb became_def dropped_def undisturbed_def)
    next
      case 2
      then show ?thesis by (auto simp: absorb too_large_def capacity_overflow_def)
    qed
  qed
qed

end

locale heap_put = heap_fill alloc S owns view rest + heap_source S owns view rest
  for alloc and S :: "'s heap_buf" and owns view rest
begin

text \<open>With a capacity of nothing the memory of the source is taken over, or copied when it is shared.\<close>

lemma put_reuse:
  assumes inv: "bytes_inv h (add_mset (HM m) (owns s + hs)) vs" and few: "Suc (size (add_mset (HM m) (owns s + hs))) < 2 ^ 62"
    and v: "view h s \<noteq> []" "length (view h s) \<le> isize_max" and cap: "bm_cap m = 0"
  shows "put_ends owns view h hs vs m s (bytes_mut_put alloc S h m s) \<or> too_large (bytes_mut_put alloc S h m s)"
proof -
  have inv0: "bytes_inv h (owns s + add_mset (HM m) hs) vs" and few0: "Suc (size (owns s + add_mset (HM m) hs)) < 2 ^ 62" using inv few by simp_all
  note rem = src_remaining [OF inv0]
  from src_copy_to_bytes [OF inv0 few0 le_refl v(2), unfolded copied_def] obtain b s1 h1 where
    b: "hb_copy_to_bytes S h s (length (view h s)) = Inr (b, s1, h1)"
      "bytes_inv h1 (add_mset (HB b) (owns s1 + add_mset (HM m) hs)) vs" "undisturbed h (add_mset (HM m) hs) vs h1"
      "size (owns s1) \<le> size (owns s)" "contents h1 (HB b) = view h s" "view h1 s1 = []" by auto
  have "few (add_mset (HB b) (owns s1 + add_mset (HM m) hs))" using few b(4) by simp
  from drop_empty [OF b(2) this b(6)] obtain s2 h2 where
    d: "hb_drop S h1 s1 = Inr (s2, h2)" "bytes_inv h2 (add_mset (HB b) (owns s2 + add_mset (HM m) hs)) vs"
      "undisturbed h1 (add_mset (HB b) (add_mset (HM m) hs)) vs h2" "size (owns s2) \<le> size (owns s1)" "view h2 s2 = []" by blast
  have inv2: "bytes_inv h2 (add_mset (HB b) (add_mset (HM m) (owns s2 + hs))) vs" using d(2) by simp
  have small: "Suc (size (owns s2 + hs)) < 2 ^ 63 - 1" using few b(4) d(4) by simp
  have put: "bytes_mut_put alloc S h m s = res_bind (absorb alloc h2 m b) (\<lambda>(m, h). Inr (m, s2, h))"
    using rem v(1) cap b(1) d(1) by (simp add: bytes_mut_put_def has_remaining_def)
  have un2: "undisturbed h (add_mset (HM m) hs) vs h2" and c2: "contents h2 (HB b) = view h s"
    using b(3,5) d(3) by (auto simp: undisturbed_def)
  from absorb_ok [OF inv2 small cap] consider
      m' h3 where "absorb alloc h2 m b = Inr (m', h3)" "became h2 (owns s2 + hs) vs (HM m') (contents h2 (HM m) @ contents h2 (HB b)) h3"
    | "too_large (absorb alloc h2 m b)" by blast
  then show ?thesis
  proof cases
    case 1
    then have un3: "undisturbed h2 (owns s2 + hs) vs h3" by (simp add: became_def)
    have "view h3 s2 = []" using src_frame [of h2 s2 h3] undisturbed_some [OF un3] d(5) by simp
    then show ?thesis using put 1 c2 un2 b(4) d(4) by (auto simp: put_ends_def became_def undisturbed_def)
  next
    case 2
    then show ?thesis using put by (auto simp: too_large_def capacity_overflow_def)
  qed
qed

lemma put_ok:
  assumes inv: "bytes_inv h (add_mset (HM m) (owns s + hs)) vs" and few: "Suc (size (add_mset (HM m) (owns s + hs))) < 2 ^ 62"
    and v: "length (view h s) \<le> isize_max"
  shows "put_ends owns view h hs vs m s (bytes_mut_put alloc S h m s) \<or>
    too_large (bytes_mut_put alloc S h m s) \<and> (bm_cap m = 0 \<or> \<not> moderate h m (length (view h s)))"
proof -
  have inv0: "bytes_inv h (owns s + add_mset (HM m) hs) vs" using inv by simp
  note rem = src_remaining [OF inv0]
  consider "view h s = []" | "view h s \<noteq> []" "bm_cap m = 0" | (grow) "view h s \<noteq> []" "bm_cap m \<noteq> 0" by blast
  then show ?thesis
  proof cases
    case grow
    show ?thesis using inv
    proof (cases rule: reserve_ok [where additional = "length (view h s)"])
      case (ok m1 h1)
      then have inv1: "bytes_inv h1 (add_mset (HM m1) (owns s + hs)) vs" and un: "undisturbed h (owns s + hs) vs h1"
        and c: "contents h1 (HM m1) = contents h (HM m)" by (simp_all add: became_def)
      have v1: "view h1 s = view h s" by (rule src_frame) (rule undisturbed_some [OF un]; auto)
      have "few (add_mset (HM m1) (owns s + hs))" using few by simp
      from put_loop_drop [OF inv1 this] ok(3,4) v1 have
        "put_fills S owns view rest h1 hs vs m1 s (res_bind (rust_while (\<lambda>(m, s, h). has_remaining (hb_core S) (s, h)) (bytes_mut_put_step alloc (hb_core S)) (m1, s, h1))
          (\<lambda>(m, s, h). res_bind (hb_drop S h s) (\<lambda>(s, h). Inr (m, s, h))))" by simp
      then have "put_ends owns view h1 hs vs m1 s (bytes_mut_put alloc S h m s)" unfolding put_fills_def
        using rem grow ok(1) by (simp add: bytes_mut_put_def has_remaining_def Let_def)
      then show ?thesis using c v1 undisturbed_trans [OF undisturbed_some [OF un]] by (fastforce simp: put_ends_def)
    next
      case too_large
      moreover from this(1) obtain e where "reserve alloc h m (length (view h s)) = Inl e" "too_large (Inl e :: (bytes_mut \<times> 's \<times> heap) res)"
        by (auto simp: too_large_def capacity_overflow_def)
      ultimately show ?thesis using rem grow by (auto simp: bytes_mut_put_def has_remaining_def)
    qed
  qed (use put_nothing [OF inv] put_reuse [OF inv few _ v] few in \<open>auto simp: put_fills_def\<close>)
qed

end

end
