(* ===== verification/Bytes_Sources.thy ===== *)
theory Bytes_Sources
  imports Bytes_Put
begin

text \<open>
  The sources meet the contract: a mutable reference and a \<open>Take\<close> of a source are sources, the
  provided \<open>copy_to_bytes\<close> copies what it should, \<open>Chain\<close> copies across its two parts, and
  slices, \<open>Bytes\<close> and \<open>BytesMut\<close> are sources.
\<close>

section \<open>References and Take\<close>

lemma by_ref_fields [simp]:
  "hb_core (by_ref S) = hb_core S" "hb_copy_to_bytes (by_ref S) = hb_copy_to_bytes S" "hb_drop (by_ref S) h s = Inr (s, h)"
  by (simp_all add: by_ref_def)

lemma heap_reader_by_ref: "heap_reader S owns view rest \<Longrightarrow> heap_reader (by_ref S) owns view rest"
  by (simp add: heap_reader_def src_moved_def)

lemma heap_source_by_ref: "heap_source S owns view rest \<Longrightarrow> heap_source (by_ref S) owns view rest"
  by (simp add: heap_source_def heap_source_axioms_def heap_reader_by_ref)

definition take_owns :: "('s \<Rightarrow> handle multiset) \<Rightarrow> 's take_adapter \<Rightarrow> handle multiset" where
  "take_owns owns t = owns (take_inner t)"

definition take_gives :: "(heap \<Rightarrow> 's \<Rightarrow> u8 list) \<Rightarrow> heap \<Rightarrow> 's take_adapter \<Rightarrow> u8 list" where
  "take_gives view h t = take (take_limit t) (view h (take_inner t))"

definition take_rest :: "(heap \<Rightarrow> 's \<Rightarrow> u8 list) \<Rightarrow> heap \<Rightarrow> 's take_adapter \<Rightarrow> u8 list" where
  "take_rest view h t = drop (take_limit t) (view h (take_inner t))"

lemmas take_defs = heap_take_core_def take_remaining_def take_chunk_def take_advance_def take_with_heap_def rust_assert_def

lemma heap_take_fields [simp]:
  "hb_core (heap_take S) = heap_take_core (hb_core S)" "hb_copy_to_bytes (heap_take S) = take_copy_to_bytes S"
  "hb_drop (heap_take S) h t = res_bind (hb_drop S h (take_inner t)) (\<lambda>(s, h). Inr (t\<lparr>take_inner := s\<rparr>, h))"
  by (simp_all add: heap_take_def)

context heap_reader
begin

lemma take_reader: "heap_reader (heap_take S) (take_owns owns) (take_gives view) (take_rest view)"
proof unfold_locales
  fix h h' and t :: "'s take_adapter"
  assume "undisturbed h (take_owns owns t) {} h'"
  then have "view h' (take_inner t) = view h (take_inner t)" by (intro src_frame) (simp add: take_owns_def)
  then show "take_gives view h' t = take_gives view h t" "take_rest view h' t = take_rest view h t"
    by (simp_all add: take_gives_def take_rest_def)
next
  fix h hs vs and t :: "'s take_adapter"
  assume "bytes_inv h (take_owns owns t + hs) vs"
  then have inv: "bytes_inv h (owns (take_inner t) + hs) vs" by (simp add: take_owns_def)
  show "remaining (hb_core (heap_take S)) (t, h) = length (take_gives view h t)"
    using src_remaining [OF inv] by (simp add: take_gives_def take_defs)
  from src_chunk [OF inv] obtain ys where ys: "view h (take_inner t) = chunk (hb_core S) (take_inner t, h) @ ys" by (auto simp: prefix_def)
  then show "prefix (chunk (hb_core (heap_take S)) (t, h)) (take_gives view h t)"
    by (simp add: take_gives_def take_defs min_def Let_def)
  show "take_gives view h t \<noteq> [] \<Longrightarrow> chunk (hb_core (heap_take S)) (t, h) \<noteq> []"
    using src_nonempty [OF inv] by (auto simp: take_gives_def take_defs min_def Let_def)
  assume few: "few (take_owns owns t + hs)"
  then have few: "few (owns (take_inner t) + hs)" by (simp add: take_owns_def)
  show "\<exists>t' h'. hb_drop (heap_take S) h t = Inr (t', h') \<and> src_moved (take_owns owns) h hs vs t t' h' \<and>
      length (take_gives view h' t') \<le> length (take_gives view h t)"
    using src_drop [OF inv few] by (fastforce simp: src_moved_def take_owns_def take_gives_def)
  fix n assume n: "n \<le> length (take_gives view h t)"
  then have "n \<le> length (view h (take_inner t))" "n \<le> take_limit t" by (simp_all add: take_gives_def)
  with src_advance [OF inv few this(1)] show "\<exists>t' h'. advance (hb_core (heap_take S)) (t, h) n = Inr (t', h') \<and>
      src_moved (take_owns owns) h hs vs t t' h' \<and> take_gives view h' t' = drop n (take_gives view h t) \<and>
      take_rest view h' t' = take_rest view h t"
    by (fastforce simp: take_defs usize_sub_def src_moved_def take_owns_def take_gives_def take_rest_def drop_take)
qed

end

context heap_source
begin

lemma take_source: "heap_source (heap_take S) (take_owns owns) (take_gives view) (take_rest view)"
proof -
  have "copied (take_owns owns) (take_gives view) h hs vs t n (take_copy_to_bytes S h t n)"
    if "bytes_inv h (owns (take_inner t) + hs) vs" "Suc (size (owns (take_inner t) + hs)) < 2 ^ 62"
      "n \<le> length (take_gives view h t)" "n \<le> isize_max" for h hs vs t n
  proof -
    from that(3) have n: "n \<le> length (view h (take_inner t))" "n \<le> take_limit t" by (simp_all add: take_gives_def)
    with src_copy_to_bytes [OF that(1,2) n(1) that(4)] src_remaining [OF that(1)] show ?thesis
      by (auto simp: copied_def take_copy_to_bytes_def take_defs usize_sub_def take_owns_def take_gives_def drop_take min_def)
  qed
  then show ?thesis by (simp add: heap_source_def heap_source_axioms_def take_reader take_owns_def)
qed

end

section \<open>The provided copy_to_bytes\<close>

context heap_fill
begin

lemma take_fill: "heap_fill alloc (heap_take (by_ref S)) (take_owns owns) (take_gives view) (take_rest view)"
  using heap_reader.take_reader [OF heap_reader_by_ref [OF heap_reader_axioms]]
  by (simp add: heap_fill_def allocator_laws_axioms)

lemma put_take_fits:
  assumes inv: "bytes_inv h (add_mset (HM m) (owns s + hs)) vs" and few: "few (add_mset (HM m) (owns s + hs))"
    and n: "n \<le> length (view h s)" "bm_len m + n \<le> bm_cap m"
  obtains m' t h' where
    "bytes_mut_put alloc (heap_take (by_ref S)) h m \<lparr>take_inner = s, take_limit = n\<rparr> = Inr (m', t, h')"
    "bytes_inv h' (add_mset (HM m') (owns (take_inner t) + hs)) vs" "undisturbed h hs vs h'" "size (owns (take_inner t)) \<le> size (owns s)"
    "contents h' (HM m') = contents h (HM m) @ take n (view h s)" "view h' (take_inner t) = drop n (view h s)"
proof -
  let ?t = "\<lparr>take_inner = s, take_limit = n\<rparr>"
  have "put_fills (heap_take (by_ref S)) (take_owns owns) (take_gives view) (take_rest view) h hs vs m ?t
      (bytes_mut_put alloc (heap_take (by_ref S)) h m ?t)"
    using inv few n by (intro heap_fill.put_fits [OF take_fill]) (simp_all add: take_owns_def take_gives_def)
  then obtain m' t h' where r: "bytes_mut_put alloc (heap_take (by_ref S)) h m ?t = Inr (m', t, h')"
    "bytes_inv h' (add_mset (HM m') (owns (take_inner t) + hs)) vs" "undisturbed h hs vs h'" "size (owns (take_inner t)) \<le> size (owns s)"
    "contents h' (HM m') = contents h (HM m) @ take n (view h s)" "take_gives view h' t = []" "take_rest view h' t = drop n (view h s)"
    by (auto simp: put_fills_def put_ends_def take_owns_def take_gives_def take_rest_def)
  have "view h' (take_inner t) = take_gives view h' t @ take_rest view h' t" by (simp add: take_gives_def take_rest_def)
  with r that show thesis by simp
qed

lemma copy_to_bytes_default_ok:
  assumes inv: "bytes_inv h (owns s + hs) vs" and few: "Suc (size (owns s + hs)) < 2 ^ 62"
    and n: "n \<le> length (view h s)" "n \<le> isize_max"
  shows "copied owns view h hs vs s n (copy_to_bytes_default alloc S h s n)"
proof -
  from with_capacity_ok [OF inv n(2)] obtain m h1 where m: "with_capacity alloc h n = Inr (m, h1)"
    "became h (owns s + hs) vs (HM m) [] h1" "bm_cap m = n" by blast
  then have inv1: "bytes_inv h1 (add_mset (HM m) (owns s + hs)) vs" and un1: "undisturbed h (owns s + hs) vs h1"
    and c1: "contents h1 (HM m) = []" by (simp_all add: became_def)
  have v1: "view h1 s = view h s" by (rule src_frame) (rule undisturbed_some [OF un1]; auto)
  have "bm_len m = 0" using length_contents [OF bytes_invD(3) [OF inv1, of "HM m"]] c1 by simp
  then have fit: "n \<le> length (view h1 s)" "bm_len m + n \<le> bm_cap m" using n(1) v1 m(3) by simp_all
  have "few (add_mset (HM m) (owns s + hs))" using few by simp
  from put_take_fits [OF inv1 this fit] obtain m' t h2 where
    p: "bytes_mut_put alloc (heap_take (by_ref S)) h1 m \<lparr>take_inner = s, take_limit = n\<rparr> = Inr (m', t, h2)"
      "bytes_inv h2 (add_mset (HM m') (owns (take_inner t) + hs)) vs" "undisturbed h1 hs vs h2" "size (owns (take_inner t)) \<le> size (owns s)"
      "contents h2 (HM m') = take n (view h s)" "view h2 (take_inner t) = drop n (view h s)"
    using c1 v1 by auto
  from freeze_ok [OF p(2)] obtain b h3 where b: "freeze alloc h2 m' = Inr (b, h3)"
    "became h2 (owns (take_inner t) + hs) vs (HB b) (take n (view h s)) h3" using p(5) by auto
  then have un3: "undisturbed h2 (owns (take_inner t) + hs) vs h3" by (simp add: became_def)
  have "view h3 (take_inner t) = drop n (view h s)" using p(6) src_frame [of h2 "take_inner t" h3] undisturbed_some [OF un3] by simp
  moreover have "undisturbed h hs vs h3" using un1 p(3) un3 by (auto simp: undisturbed_def)
  moreover have "copy_to_bytes_default alloc S h s n = Inr (b, take_inner t, h3)"
    using m(1) p(1) b(1) src_remaining [OF inv] n(1) by (simp add: copy_to_bytes_default_def)
  ultimately show ?thesis using b(2) p(4) by (simp add: copied_def became_def)
qed

end

section \<open>Chain\<close>

definition chain_owns :: "('a \<Rightarrow> handle multiset) \<Rightarrow> ('b \<Rightarrow> handle multiset) \<Rightarrow> ('a, 'b) chain \<Rightarrow> handle multiset" where
  "chain_owns ownsa ownsb c = ownsa (chain_a c) + ownsb (chain_b c)"

definition chain_gives :: "(heap \<Rightarrow> 'a \<Rightarrow> u8 list) \<Rightarrow> (heap \<Rightarrow> 'b \<Rightarrow> u8 list) \<Rightarrow> heap \<Rightarrow> ('a, 'b) chain \<Rightarrow> u8 list" where
  "chain_gives va vb h c = va h (chain_a c) @ vb h (chain_b c)"

locale two_sources = a: heap_put alloc A ownsa va resta + b: heap_put alloc B ownsb vb restb
  for alloc and A :: "'a heap_buf" and ownsa va resta and B :: "'b heap_buf" and ownsb vb restb
begin

text \<open>Across the boundary: all of the first part, then what is missing from the second\<close>

lemma chain_copy_across:
  assumes inv: "bytes_inv h (ownsa s + (ownsb t + hs)) vs" and few: "Suc (size (ownsa s + (ownsb t + hs))) < 2 ^ 62"
    and n: "length (va h s) < n" "va h s \<noteq> []" "n - length (va h s) \<le> length (vb h t)" "n \<le> isize_max"
  shows "copied (chain_owns ownsa ownsb) (chain_gives va vb) h hs vs \<lparr>chain_a = s, chain_b = t\<rparr> n
    (chain_copy_to_bytes alloc A B h \<lparr>chain_a = s, chain_b = t\<rparr> n)"
proof -
  let ?k = "n - length (va h s)"
  from a.with_capacity_ok [OF inv n(4)] obtain m h1 where m: "with_capacity alloc h n = Inr (m, h1)"
    "became h (ownsa s + (ownsb t + hs)) vs (HM m) [] h1" "bm_cap m = n" by blast
  then have inv1: "bytes_inv h1 (add_mset (HM m) (ownsa s + (ownsb t + hs))) vs" and un1: "undisturbed h (ownsa s + (ownsb t + hs)) vs h1"
    and c1: "contents h1 (HM m) = []" by (simp_all add: became_def)
  have v1: "va h1 s = va h s" "vb h1 t = vb h t"
    using a.src_frame [OF undisturbed_some [OF un1], of s] b.src_frame [OF undisturbed_some [OF un1], of t] by auto
  have len1: "bm_len m = 0" using length_contents [OF bytes_invD(3) [OF inv1, of "HM m"]] c1 by simp
  have few1: "few (add_mset (HM m) (ownsa s + (ownsb t + hs)))" using few by simp
  have "heap_fill alloc (by_ref A) ownsa va resta"
    using heap_reader_by_ref [OF a.heap_reader_axioms] by (simp add: heap_fill_def a.allocator_laws_axioms)
  from heap_fill.put_fits [OF this inv1 few1] len1 m(3) v1 n(1)
  have "put_fills (by_ref A) ownsa va resta h1 (ownsb t + hs) vs m s (bytes_mut_put alloc (by_ref A) h1 m s)" by simp
  then obtain m2 s2 h2 where p: "bytes_mut_put alloc (by_ref A) h1 m s = Inr (m2, s2, h2)"
    "bytes_inv h2 (add_mset (HM m2) (ownsa s2 + (ownsb t + hs))) vs" "undisturbed h1 (ownsb t + hs) vs h2"
    "size (ownsa s2) \<le> size (ownsa s)" "contents h2 (HM m2) = va h s" "va h2 s2 = []" "bm_cap m2 = n" "bm_len m2 = length (va h s)"
    using c1 v1 m(3) len1 by (auto simp: put_fills_def put_ends_def)
  have v2: "vb h2 t = vb h t" using b.src_frame [OF undisturbed_some [OF p(3)], of t] v1 by simp
  have inv2: "bytes_inv h2 (add_mset (HM m2) (ownsb t + (ownsa s2 + hs))) vs" using p(2) by (simp add: ac_simps)
  have few2: "few (add_mset (HM m2) (ownsb t + (ownsa s2 + hs)))" using few p(4) by simp
  obtain m3 tk h3 where q: "bytes_mut_put alloc (heap_take (by_ref B)) h2 m2 \<lparr>take_inner = t, take_limit = ?k\<rparr> = Inr (m3, tk, h3)"
    "bytes_inv h3 (add_mset (HM m3) (ownsb (take_inner tk) + (ownsa s2 + hs))) vs" "undisturbed h2 (ownsa s2 + hs) vs h3"
    "size (ownsb (take_inner tk)) \<le> size (ownsb t)" "contents h3 (HM m3) = va h s @ take ?k (vb h t)"
    "vb h3 (take_inner tk) = drop ?k (vb h t)"
    using b.put_take_fits [OF inv2 few2, of ?k] n(1,3) p(5,7,8) v2 by auto
  have inv3: "bytes_inv h3 (add_mset (HM m3) (ownsa s2 + (ownsb (take_inner tk) + hs))) vs" using q(2) by (simp add: ac_simps)
  from a.freeze_ok [OF inv3] obtain b h4 where b: "freeze alloc h3 m3 = Inr (b, h4)"
    "bytes_inv h4 (add_mset (HB b) (ownsa s2 + (ownsb (take_inner tk) + hs))) vs" "contents h4 (HB b) = va h s @ take ?k (vb h t)"
    "undisturbed h3 (ownsa s2 + (ownsb (take_inner tk) + hs)) vs h4" using q(5) by (auto simp: became_def)
  have "va h3 s2 = []" using a.src_frame [OF undisturbed_some [OF q(3)], of s2] p(6) by simp
  then have "va h4 s2 = []" "vb h4 (take_inner tk) = drop ?k (vb h t)"
    using a.src_frame [OF undisturbed_some [OF b(4)], of s2] b.src_frame [OF undisturbed_some [OF b(4)], of "take_inner tk"] q(6) by auto
  moreover have "undisturbed h hs vs h4" using un1 p(3) q(3) b(4) by (auto simp: undisturbed_def)
  moreover have "chain_copy_to_bytes alloc A B h \<lparr>chain_a = s, chain_b = t\<rparr> n = Inr (b, \<lparr>chain_a = s2, chain_b = take_inner tk\<rparr>, h4)"
  proof -
    have "bytes_inv h (ownsb t + (ownsa s + hs)) vs" using inv by (simp add: ac_simps)
    from a.src_remaining [OF inv] b.src_remaining [OF this] n m(1) p(1) q(1) b(1) show ?thesis
      by (simp add: chain_copy_to_bytes_def rust_assert_def)
  qed
  ultimately show ?thesis using b(2,3) p(4) q(4) n(1) by (simp add: copied_def chain_owns_def chain_gives_def ac_simps)
qed

lemma chain_copy_to_bytes_ok:
  assumes inv: "bytes_inv h (chain_owns ownsa ownsb c + hs) vs" and few: "Suc (size (chain_owns ownsa ownsb c + hs)) < 2 ^ 62"
    and n: "n \<le> length (chain_gives va vb h c)" "n \<le> isize_max"
  shows "copied (chain_owns ownsa ownsb) (chain_gives va vb) h hs vs c n (chain_copy_to_bytes alloc A B h c n)"
proof -
  obtain s t where c: "c = \<lparr>chain_a = s, chain_b = t\<rparr>" by (cases c) simp
  have invs: "bytes_inv h (ownsa s + (ownsb t + hs)) vs" "bytes_inv h (ownsb t + (ownsa s + hs)) vs"
    and fews: "Suc (size (ownsa s + (ownsb t + hs))) < 2 ^ 62" "Suc (size (ownsb t + (ownsa s + hs))) < 2 ^ 62"
    using inv few by (simp_all add: c chain_owns_def ac_simps)
  note rem = a.src_remaining [OF invs(1)]
  consider (first) "n \<le> length (va h s)" | (second) "length (va h s) < n" "va h s = []" | (both) "length (va h s) < n" "va h s \<noteq> []" by linarith
  then show ?thesis
  proof cases
    case first
    from a.src_copy_to_bytes [OF invs(1) fews(1) first n(2)] obtain b s' h' where
      r: "hb_copy_to_bytes A h s n = Inr (b, s', h')" "bytes_inv h' (add_mset (HB b) (ownsa s' + (ownsb t + hs))) vs"
        "undisturbed h (ownsb t + hs) vs h'" "size (ownsa s') \<le> size (ownsa s)" "contents h' (HB b) = take n (va h s)" "va h' s' = drop n (va h s)"
      by (auto simp: copied_def)
    have "vb h' t = vb h t" using b.src_frame [OF undisturbed_some [OF r(3)], of t] by simp
    with r first rem undisturbed_some [OF r(3), of hs vs] show ?thesis
      by (simp add: c copied_def chain_copy_to_bytes_def chain_owns_def chain_gives_def ac_simps)
  next
    case second
    then have "n \<le> length (vb h t)" using n(1) by (simp add: c chain_gives_def)
    from b.src_copy_to_bytes [OF invs(2) fews(2) this n(2)] obtain b t' h' where
      r: "hb_copy_to_bytes B h t n = Inr (b, t', h')" "bytes_inv h' (add_mset (HB b) (ownsb t' + (ownsa s + hs))) vs"
        "undisturbed h (ownsa s + hs) vs h'" "size (ownsb t') \<le> size (ownsb t)" "contents h' (HB b) = take n (vb h t)" "vb h' t' = drop n (vb h t)"
      by (auto simp: copied_def)
    have "va h' s = va h s" using a.src_frame [OF undisturbed_some [OF r(3)], of s] by simp
    with r second rem undisturbed_some [OF r(3), of hs vs] show ?thesis
      by (simp add: c copied_def chain_copy_to_bytes_def chain_owns_def chain_gives_def ac_simps)
  next
    case both
    with chain_copy_across [OF invs(1) fews(1)] n show ?thesis by (simp add: c chain_gives_def)
  qed
qed

end

section \<open>Slices, Bytes and BytesMut\<close>

text \<open>\<open>BytesMut\<close> by value; \<open>None\<close> once it is dropped\<close>

definition mut_source :: "allocator \<Rightarrow> bytes_mut option heap_buf" where
  "mut_source alloc =
     \<lparr>hb_core = \<lparr>remaining = (\<lambda>(m, h). case m of Some m \<Rightarrow> remaining (bytes_mut_core alloc) (m, h) | None \<Rightarrow> 0),
        chunk = (\<lambda>(m, h). case m of Some m \<Rightarrow> chunk (bytes_mut_core alloc) (m, h) | None \<Rightarrow> []),
        advance = (\<lambda>(m, h) cnt. case m of
            Some m \<Rightarrow> res_bind (bytes_mut_advance alloc h m cnt) (\<lambda>(m, h). Inr (Some m, h)) | None \<Rightarrow> Inr (None, h))\<rparr>,
      hb_copy_to_bytes = (\<lambda>h m len. case m of
          Some m \<Rightarrow> res_bind (bytes_mut_copy_to_bytes alloc h m len) (\<lambda>(r, m, h). Inr (r, Some m, h))
        | None \<Rightarrow> Inr (bytes_new, None, h)),
      hb_drop = (\<lambda>h m. case m of Some m \<Rightarrow> res_bind (bytes_mut_drop h m) (\<lambda>h. Inr (None, h)) | None \<Rightarrow> Inr (None, h))\<rparr>"

definition held :: "('t \<Rightarrow> handle) \<Rightarrow> 't option \<Rightarrow> handle multiset" where
  "held f s = (case s of Some x \<Rightarrow> {#f x#} | None \<Rightarrow> {#})"

definition held_bytes :: "('t \<Rightarrow> handle) \<Rightarrow> heap \<Rightarrow> 't option \<Rightarrow> u8 list" where
  "held_bytes f h s = (case s of Some x \<Rightarrow> contents h (f x) | None \<Rightarrow> [])"

lemma held_simps [simp]:
  "held f (Some x) = {#f x#}" "held f None = {#}" "held_bytes f h (Some x) = contents h (f x)" "held_bytes f h None = []"
  by (simp_all add: held_def held_bytes_def)

lemma held_frame: "undisturbed h (held f s) {} h' \<Longrightarrow> held_bytes f h' s = held_bytes f h s"
  by (cases s) (auto simp: undisturbed_def)

abbreviation nothing :: "heap \<Rightarrow> 's \<Rightarrow> u8 list" where
  "nothing h s \<equiv> []"

context allocator_laws
begin

lemma slice_fill: "hb_core S = hb_core (slice_source alloc) \<Longrightarrow> hb_drop S = hb_drop (slice_source alloc) \<Longrightarrow>
    heap_fill alloc S (\<lambda>s. {#}) (\<lambda>h s. s) nothing"
  by unfold_locales (auto simp: slice_source_def src_moved_def slice_core_def slice_advance_def slice_from_def)

lemma slice_put: "heap_put alloc (slice_source alloc) (\<lambda>s. {#}) (\<lambda>h s. s) nothing"
proof -
  let ?S = "(slice_source alloc)\<lparr>hb_copy_to_bytes := \<lambda>h s len. Inl Diverges\<rparr>"
  have "heap_fill alloc ?S (\<lambda>s. {#}) (\<lambda>h s. s) nothing" by (rule slice_fill) simp_all
  note ok = heap_fill.copy_to_bytes_default_ok [OF this]
  have "hb_copy_to_bytes (slice_source alloc) = copy_to_bytes_default alloc ?S" by (simp add: slice_source_def Let_def)
  with ok slice_fill [of "slice_source alloc"] show ?thesis
    by (simp add: heap_put_def heap_source_def heap_source_axioms_def heap_fill_def)
qed

text \<open>A handle by value, from what the operations do on the handle\<close>

lemma held_put:
  fixes S :: "'t option heap_buf" and f :: "'t \<Rightarrow> handle"
  assumes none: "\<And>h. remaining (hb_core S) (None, h) = 0" "\<And>h. chunk (hb_core S) (None, h) = []"
      "\<And>h n. advance (hb_core S) (None, h) n = Inr (None, h)" "\<And>h n. hb_copy_to_bytes S h None n = Inr (bytes_new, None, h)"
      "\<And>h. hb_drop S h None = Inr (None, h)"
    and some: "\<And>h x hs vs. bytes_inv h (add_mset (f x) hs) vs \<Longrightarrow> remaining (hb_core S) (Some x, h) = length (contents h (f x))"
      "\<And>h x. chunk (hb_core S) (Some x, h) = contents h (f x)"
    and advances: "\<And>h x hs vs n. bytes_inv h (add_mset (f x) hs) vs \<Longrightarrow> n \<le> length (contents h (f x)) \<Longrightarrow>
      \<exists>x' h'. advance (hb_core S) (Some x, h) n = Inr (Some x', h') \<and> became h hs vs (f x') (drop n (contents h (f x))) h'"
    and copies: "\<And>h x hs vs n. bytes_inv h (add_mset (f x) hs) vs \<Longrightarrow> size hs < 2 ^ 63 - 1 \<Longrightarrow> n \<le> length (contents h (f x)) \<Longrightarrow>
      \<exists>b x' h'. hb_copy_to_bytes S h (Some x) n = Inr (b, Some x', h') \<and>
        parted h hs vs (HB b) (take n (contents h (f x))) (f x') (drop n (contents h (f x))) h'"
    and drops: "\<And>h x hs vs. bytes_inv h (add_mset (f x) hs) vs \<Longrightarrow> size hs < 2 ^ 63 - 1 \<Longrightarrow>
      \<exists>h'. hb_drop S h (Some x) = Inr (None, h') \<and> dropped h hs vs h'"
  shows "heap_put alloc S (held f) (held_bytes f) nothing"
proof unfold_locales
  fix h hs vs and s :: "'t option"
  assume inv: "bytes_inv h (held f s + hs) vs"
  show "remaining (hb_core S) (s, h) = length (held_bytes f h s)" using inv some(1) none(1) by (cases s) simp_all
  show "prefix (chunk (hb_core S) (s, h)) (held_bytes f h s)" "held_bytes f h s \<noteq> [] \<Longrightarrow> chunk (hb_core S) (s, h) \<noteq> []"
    by (cases s; simp add: some(2) none(2))+
  show "\<exists>s' h'. advance (hb_core S) (s, h) n = Inr (s', h') \<and> src_moved (held f) h hs vs s s' h' \<and>
      held_bytes f h' s' = drop n (held_bytes f h s) \<and> [] = []" if "n \<le> length (held_bytes f h s)" for n
    using inv that advances [of h _ hs vs n] none(3) by (cases s) (force simp: src_moved_def became_def)+
  show "\<exists>s' h'. hb_drop S h s = Inr (s', h') \<and> src_moved (held f) h hs vs s s' h' \<and>
      length (held_bytes f h' s') \<le> length (held_bytes f h s)" if "few (held f s + hs)"
    using inv that drops [of h _ hs vs] none(5) by (cases s) (force simp: src_moved_def dropped_def)+
  show "copied (held f) (held_bytes f) h hs vs s n (hb_copy_to_bytes S h s n)"
    if "Suc (size (held f s + hs)) < 2 ^ 62" "n \<le> length (held_bytes f h s)" for n
    using inv that copies [of h _ hs vs n] none(4) by (cases s) (force simp: copied_def parted_def bytes_new_ok)+
qed (use held_frame in simp_all)

lemma bytes_put: "heap_put alloc (bytes_source alloc) (held HB) (held_bytes HB) nothing"
proof (rule held_put)
  fix h hs vs b n
  assume inv: "bytes_inv h (add_mset (HB b) hs) vs"
  then have len: "length (contents h (HB b)) = b_len b" using length_contents bytes_invD(3) [OF inv, of "HB b"] by simp
  then show "remaining (hb_core (bytes_source alloc)) (Some b, h) = length (contents h (HB b))" by (simp add: bytes_source_def)
  show "\<exists>b' h'. advance (hb_core (bytes_source alloc)) (Some b, h) n = Inr (Some b', h') \<and> became h hs vs (HB b') (drop n (contents h (HB b))) h'"
    if "n \<le> length (contents h (HB b))" using bytes_advance_ok [OF inv, of n] that len by (auto simp: bytes_source_def became_def)
  assume few: "size hs < 2 ^ 63 - 1"
  then show "\<exists>h'. hb_drop (bytes_source alloc) h (Some b) = Inr (None, h') \<and> dropped h hs vs h'"
    using bytes_drop_ok [OF inv] by (auto simp: bytes_source_def)
  show "\<exists>r b' h'. hb_copy_to_bytes (bytes_source alloc) h (Some b) n = Inr (r, Some b', h') \<and>
      parted h hs vs (HB r) (take n (contents h (HB b))) (HB b') (drop n (contents h (HB b))) h'" if "n \<le> length (contents h (HB b))"
    using split_to_ok [OF inv few, of n] that len by (auto simp: bytes_source_def bytes_copy_to_bytes_def)
qed (simp_all add: bytes_source_def)

lemma mut_put: "heap_put alloc (mut_source alloc) (held HM) (held_bytes HM) nothing"
proof (rule held_put)
  fix h hs vs m n
  assume inv: "bytes_inv h (add_mset (HM m) hs) vs"
  then have len: "length (contents h (HM m)) = bm_len m" using length_contents bytes_invD(3) [OF inv, of "HM m"] by simp
  then show "remaining (hb_core (mut_source alloc)) (Some m, h) = length (contents h (HM m))"
    by (simp add: mut_source_def bytes_mut_core_def)
  show "\<exists>m' h'. advance (hb_core (mut_source alloc)) (Some m, h) n = Inr (Some m', h') \<and> became h hs vs (HM m') (drop n (contents h (HM m))) h'"
    if "n \<le> length (contents h (HM m))" using bytes_mut_advance_ok [OF inv, of n] that len by (auto simp: mut_source_def)
  assume few: "size hs < 2 ^ 63 - 1"
  show "\<exists>h'. hb_drop (mut_source alloc) h (Some m) = Inr (None, h') \<and> dropped h hs vs h'"
    using bytes_mut_drop_ok [OF inv] by (auto simp: mut_source_def)
  show "\<exists>r m' h'. hb_copy_to_bytes (mut_source alloc) h (Some m) n = Inr (r, Some m', h') \<and>
      parted h hs vs (HB r) (take n (contents h (HM m))) (HM m') (drop n (contents h (HM m))) h'" if "n \<le> length (contents h (HM m))"
    using bytes_mut_copy_to_bytes_ok [OF inv few, of n] that len by (auto simp: mut_source_def)
qed (simp_all add: mut_source_def bytes_mut_core_def)

end

text \<open>The contracts for one allocator\<close>

interpretation slice_put: heap_put bump "slice_source bump" "\<lambda>s. {#}" "\<lambda>h s. s" nothing
  by (rule bump.slice_put)

interpretation bytes_put: heap_put bump "bytes_source bump" "held HB" "held_bytes HB" nothing
  by (rule bump.bytes_put)

interpretation mut_put: heap_put bump "mut_source bump" "held HM" "held_bytes HM" nothing
  by (rule bump.mut_put)

interpretation slice_then_bytes: two_sources bump "slice_source bump" "\<lambda>s. {#}" "\<lambda>h s. s" nothing "bytes_source bump" "held HB" "held_bytes HB" nothing
  ..

end
