(* ===== verification/Bytes_Iter.thy ===== *)
theory Bytes_Iter
  imports Bytes_Sources Bytes_Traits
begin

text \<open>
  Building \<open>Bytes\<close> and \<open>BytesMut\<close> from iterators: \<open>Extend\<close> and \<open>FromIterator\<close>
  (\<^verbatim>\<open>bytes.rs\<close>, \<^verbatim>\<open>bytes_mut.rs\<close>).
\<close>

section \<open>Iterators\<close>

text \<open>
  An iterator that ends: the items it yields, and the lower bound of its \<open>size_hint\<close>, which need
  not be right. A \<open>for\<close> loop runs its body on the items in order.
\<close>

record 'a rust_iter =
  it_lower :: usize
  it_items :: "'a list"

fun for_each :: "('a \<Rightarrow> 's \<Rightarrow> 's res) \<Rightarrow> 'a list \<Rightarrow> 's \<Rightarrow> 's res" where
  "for_each f [] s = Inr s"
| "for_each f (x # xs) s = res_bind (f x s) (for_each f xs)"

section \<open>Extend\<close>

definition bytes_mut_extend :: "allocator \<Rightarrow> heap \<Rightarrow> bytes_mut \<Rightarrow> u8 rust_iter \<Rightarrow> (bytes_mut \<times> heap) res" where
  "bytes_mut_extend alloc h self iter =
     res_bind (reserve alloc h self (it_lower iter)) (\<lambda>(self, h).
     for_each (\<lambda>b s. put_u8 (bytes_mut_buf_mut alloc) s b) (it_items iter) (self, h))"

text \<open>\<open>iter.copied()\<close> yields what the references point to.\<close>

definition bytes_mut_extend_refs :: "allocator \<Rightarrow> heap \<Rightarrow> bytes_mut \<Rightarrow> u8 rust_iter \<Rightarrow> (bytes_mut \<times> heap) res" where
  "bytes_mut_extend_refs alloc h self iter = bytes_mut_extend alloc h self iter"

text \<open>Each \<open>Bytes\<close> is dropped at the end of its turn.\<close>

definition extend_with :: "allocator \<Rightarrow> bytes \<Rightarrow> bytes_mut \<times> heap \<Rightarrow> (bytes_mut \<times> heap) res" where
  "extend_with alloc bytes = (\<lambda>(self, h).
     res_bind (bytes_deref h bytes) (\<lambda>s.
     res_bind (bytes_mut_extend_from_slice alloc h self s) (\<lambda>(self, h).
     res_bind (bytes_drop h bytes) (\<lambda>h. Inr (self, h)))))"

definition bytes_mut_extend_bytes :: "allocator \<Rightarrow> heap \<Rightarrow> bytes_mut \<Rightarrow> bytes rust_iter \<Rightarrow> (bytes_mut \<times> heap) res" where
  "bytes_mut_extend_bytes alloc h self iter =
     for_each (extend_with alloc) (it_items iter) (self, h)"

section \<open>FromIterator\<close>

text \<open>
  \<open>Vec::push\<close>, and \<open>Vec::from_iter\<close> as the standard library has it for an iterator of which it
  knows nothing more: no allocation before the first item, then room for the hint.
\<close>

definition vec_push :: "allocator \<Rightarrow> u8 \<Rightarrow> hvec \<times> heap \<Rightarrow> (hvec \<times> heap) res" where
  "vec_push alloc x = (\<lambda>(v, h). vec_extend_from_slice alloc h v [x])"

definition vec_from_iter :: "allocator \<Rightarrow> heap \<Rightarrow> u8 rust_iter \<Rightarrow> (hvec \<times> heap) res" where
  "vec_from_iter alloc h iter =
     (if it_items iter = [] then Inr (vec_new, h)
      else
        res_bind (vec_with_capacity alloc h (max 8 (saturating_add (it_lower iter) 1))) (\<lambda>s.
        for_each (vec_push alloc) (it_items iter) s))"

definition bytes_from_iter :: "allocator \<Rightarrow> heap \<Rightarrow> u8 rust_iter \<Rightarrow> (bytes \<times> heap) res" where
  "bytes_from_iter alloc h into_iter =
     res_bind (vec_from_iter alloc h into_iter) (\<lambda>(v, h). from_vec alloc h v)"

definition bytes_mut_from_iter :: "allocator \<Rightarrow> heap \<Rightarrow> u8 rust_iter \<Rightarrow> (bytes_mut \<times> heap) res" where
  "bytes_mut_from_iter alloc h into_iter =
     res_bind (vec_from_iter alloc h into_iter) (\<lambda>(v, h).
     res_bind (bytes_mut_from_vec v) (\<lambda>m. Inr (m, h)))"

definition bytes_mut_from_iter_refs :: "allocator \<Rightarrow> heap \<Rightarrow> u8 rust_iter \<Rightarrow> (bytes_mut \<times> heap) res" where
  "bytes_mut_from_iter_refs alloc h into_iter = bytes_mut_from_iter alloc h into_iter"

section \<open>A vector that is being built\<close>

definition building :: "heap \<Rightarrow> handle multiset \<Rightarrow> addr set \<Rightarrow> u8 list \<Rightarrow> hvec \<times> heap \<Rightarrow> bool" where
  "building h0 hs vs bs = (\<lambda>(v, h). vec_ok h v bs \<and> bytes_inv h hs (vec_buf v \<union> vs) \<and> vec_buf v \<inter> vs = {} \<and> undisturbed h0 hs vs h)"

lemma too_large_bind: "too_large r \<Longrightarrow> too_large (res_bind r f)"
  by (auto simp: too_large_def capacity_overflow_def)

lemma put_u8_mut: "put_u8 (bytes_mut_buf_mut alloc) (m, h) x = bytes_mut_extend_from_slice alloc h m [x]"
  by (simp add: put_u8_def bytes_mut_buf_mut_def bytes_mut_put_slice_def)

context allocator_laws
begin

lemma vec_extend_ok:
  assumes "building h0 hs vs bs0 (v, h)" "length bs0 + length bs \<le> 2 ^ 61"
  shows "\<exists>s. vec_extend_from_slice alloc h v bs = Inr s \<and> building h0 hs vs (bs0 @ bs) s"
proof -
  have v: "vec_ok h v bs0" "bytes_inv h hs (vec_buf v \<union> vs)" "vec_buf v \<inter> vs = {}" "undisturbed h0 hs vs h"
    using assms(1) by (simp_all add: building_def)
  have len: "hv_len v = length bs0" "hv_len v \<le> hv_cap v" using v(1) by (auto simp: vec_ok_def dest: heap_read_length)
  have vs: "vec_buf v \<union> vs - vec_buf v = vs" using v(3) by auto
  have fits: "\<exists>s. vec_extend_from_slice alloc h v bs = Inr s \<and> building h0 hs vs (bs0 @ bs) s"
    if "building h0 hs vs bs0 (v, h)" "hv_len v + length bs \<le> hv_cap v" for v h
  proof -
    have w: "vec_ok h v bs0" "bytes_inv h hs (vec_buf v \<union> vs)" "vec_buf v \<inter> vs = {}" "undisturbed h0 hs vs h"
      using that(1) by (simp_all add: building_def)
    have "vec_buf v \<union> vs - vec_buf v = vs" using w(3) by auto
    with vec_append_ok [OF w(2,1) Un_upper1 that(2)] w(3) undisturbed_trans [OF w(4)] show ?thesis
      by (fastforce simp: building_def)
  qed
  show ?thesis
  proof (cases "hv_len v + length bs \<le> hv_cap v")
    case True
    with fits assms(1) show ?thesis by blast
  next
    case False
    show ?thesis using v(2,1) Un_upper1
    proof (cases rule: vec_reserve_ok [where additional = "length bs"])
      case overflow
      with False len assms(2) show ?thesis by simp
    next
      case (grown v' h')
      have b: "building h0 hs vs bs0 (v', h')" using grown undisturbed_trans [OF v(4)] vs by (simp add: building_def)
      have "length bs \<le> hv_cap v' - hv_len v'" using grown(3,4) by linarith
      then have "vec_reserve alloc h' v' (length bs) = Inr (v', h')" by (simp add: vec_reserve_def)
      then have "vec_extend_from_slice alloc h v bs = vec_extend_from_slice alloc h' v' bs" using grown(1) by (simp add: vec_extend_from_slice_def)
      with fits [OF b] grown(3,4) show ?thesis by simp
    qed
  qed
qed

lemma pushes_ok:
  "building h0 hs vs bs0 s \<Longrightarrow> length bs0 + length bs \<le> 2 ^ 61 \<Longrightarrow>
    \<exists>s'. for_each (vec_push alloc) bs s = Inr s' \<and> building h0 hs vs (bs0 @ bs) s'"
proof (induction bs arbitrary: bs0 s)
  case (Cons x bs)
  obtain v h where s: "s = (v, h)" by (cases s)
  from vec_extend_ok [of h0 hs vs bs0 v h "[x]"] Cons.prems obtain s1 where
    "vec_push alloc x s = Inr s1" "building h0 hs vs (bs0 @ [x]) s1" by (auto simp: s vec_push_def)
  with Cons.IH [of "bs0 @ [x]" s1] Cons.prems(2) show ?case by simp
qed simp

lemma vec_from_iter_ok:
  assumes inv: "bytes_inv h hs vs" and len: "length (it_items iter) \<le> 2 ^ 61" "it_lower iter < isize_max"
  shows "\<exists>s. vec_from_iter alloc h iter = Inr s \<and> building h hs vs (it_items iter) s"
proof (cases "it_items iter = []")
  case True
  then show ?thesis using inv vec_new_ok by (simp add: vec_from_iter_def building_def vec_new_def)
next
  case False
  have "max 8 (saturating_add (it_lower iter) 1) \<le> isize_max" using len(2) by (simp add: saturating_add_def isize_max_def)
  from vec_with_capacity_ok [OF inv this] obtain v h' where
    "vec_with_capacity alloc h (max 8 (saturating_add (it_lower iter) 1)) = Inr (v, h')" "building h hs vs [] (v, h')"
    by (auto simp: building_def)
  with pushes_ok [of h hs vs "[]" "(v, h')"] len(1) False show ?thesis by (auto simp: vec_from_iter_def)
qed

lemma built:
  assumes "building h hs vs bs (v, h1)"
  shows "\<exists>b h'. from_vec alloc h1 v = Inr (b, h') \<and> became h hs vs (HB b) bs h'"
    "\<exists>m. bytes_mut_from_vec v = Inr m \<and> became h hs vs (HM m) bs h1"
proof -
  have v: "vec_ok h1 v bs" "bytes_inv h1 hs (vec_buf v \<union> vs)" "undisturbed h hs vs h1" "vec_buf v \<union> vs - vec_buf v = vs"
    using assms by (auto simp: building_def)
  from from_vec_ok [OF v(2,1) Un_upper1] v(4) undisturbed_trans [OF v(3)]
  show "\<exists>b h'. from_vec alloc h1 v = Inr (b, h') \<and> became h hs vs (HB b) bs h'" by (fastforce simp: became_def)
  from bytes_mut_from_vec_ok [OF v(2,1) Un_upper1] v(3,4)
  show "\<exists>m. bytes_mut_from_vec v = Inr m \<and> became h hs vs (HM m) bs h1" by (fastforce simp: became_def)
qed

lemma from_iter_ok:
  assumes "bytes_inv h hs vs" "length (it_items iter) \<le> 2 ^ 61" "it_lower iter < isize_max"
  shows "\<exists>b h'. bytes_from_iter alloc h iter = Inr (b, h') \<and> became h hs vs (HB b) (it_items iter) h'"
    "\<exists>m h'. bytes_mut_from_iter alloc h iter = Inr (m, h') \<and> became h hs vs (HM m) (it_items iter) h'"
proof -
  from vec_from_iter_ok [OF assms] obtain v h1 where v: "vec_from_iter alloc h iter = Inr (v, h1)" "building h hs vs (it_items iter) (v, h1)" by auto
  with built [OF v(2)] show "\<exists>b h'. bytes_from_iter alloc h iter = Inr (b, h') \<and> became h hs vs (HB b) (it_items iter) h'"
    "\<exists>m h'. bytes_mut_from_iter alloc h iter = Inr (m, h') \<and> became h hs vs (HM m) (it_items iter) h'"
    by (auto simp: bytes_from_iter_def bytes_mut_from_iter_def)
qed

text \<open>Byte by byte: without room each byte may grow the buffer, with room none does.\<close>

lemma puts_ok:
  "bytes_inv h (add_mset (HM m) hs) vs \<Longrightarrow>
    (\<exists>m' h'. for_each (\<lambda>b s. put_u8 (bytes_mut_buf_mut alloc) s b) bs (m, h) = Inr (m', h') \<and>
      became h hs vs (HM m') (contents h (HM m) @ bs) h') \<or>
    too_large (for_each (\<lambda>b s. put_u8 (bytes_mut_buf_mut alloc) s b) bs (m, h)) \<and> \<not> bm_len m + length bs \<le> bm_cap m"
proof (induction bs arbitrary: m h)
  case (Cons x bs)
  show ?case
  proof (cases "bm_len m + length (x # bs) \<le> bm_cap m")
    case True
    then have "bm_len m + length [x] \<le> bm_cap m" by simp
    then obtain h1 where
      h1: "bytes_mut_extend_from_slice alloc h m [x] = Inr (m\<lparr>bm_len := bm_len m + length [x]\<rparr>, h1)"
        "became h hs vs (HM (m\<lparr>bm_len := bm_len m + length [x]\<rparr>)) (contents h (HM m) @ [x]) h1"
      using append_fits [OF Cons.prems] by blast
    with Cons.IH [of h1 "m\<lparr>bm_len := bm_len m + length [x]\<rparr>"] True show ?thesis
      by (auto simp: put_u8_mut became_def undisturbed_def)
  next
    case False
    from bytes_mut_extend_from_slice_ok [OF Cons.prems, of "[x]"] consider
        m1 h1 where "bytes_mut_extend_from_slice alloc h m [x] = Inr (m1, h1)" "became h hs vs (HM m1) (contents h (HM m) @ [x]) h1"
      | "too_large (bytes_mut_extend_from_slice alloc h m [x])" by (auto simp: appended_def)
    then show ?thesis
    proof cases
      case 1
      with Cons.IH [of h1 m1] False show ?thesis by (auto simp: put_u8_mut became_def undisturbed_def)
    next
      case 2
      with False show ?thesis by (simp add: put_u8_mut too_large_bind)
    qed
  qed
qed (simp add: became_def)

lemma bytes_mut_extend_ok:
  assumes inv: "bytes_inv h (add_mset (HM m) hs) vs"
  shows "(\<exists>m' h'. bytes_mut_extend alloc h m iter = Inr (m', h') \<and> became h hs vs (HM m') (contents h (HM m) @ it_items iter) h') \<or>
    too_large (bytes_mut_extend alloc h m iter) \<and> \<not> (length (it_items iter) \<le> it_lower iter \<and> moderate h m (it_lower iter))"
  using inv
proof (cases rule: reserve_ok [where additional = "it_lower iter"])
  case (ok m1 h1)
  then have "bytes_inv h1 (add_mset (HM m1) hs) vs" by (simp add: became_def)
  from puts_ok [OF this, of "it_items iter"] ok show ?thesis
    by (auto simp: bytes_mut_extend_def became_def undisturbed_def)
next
  case too_large
  then show ?thesis by (simp add: bytes_mut_extend_def too_large_bind)
qed

lemma extend_with_ok:
  assumes inv: "bytes_inv h (add_mset (HM m) (add_mset (HB b) hs)) vs" and few: "Suc (size hs) < 2 ^ 63 - 1"
  shows "(\<exists>m' h'. extend_with alloc b (m, h) = Inr (m', h') \<and> became h hs vs (HM m') (contents h (HM m) @ contents h (HB b)) h') \<or>
    too_large (extend_with alloc b (m, h))"
proof -
  have "as_slice h b = Inr (contents h (HB b))" using read_contents(1) bytes_invD(3) [OF inv, of "HB b"] by (simp add: as_slice_def)
  then have step: "extend_with alloc b (m, h) = res_bind (bytes_mut_extend_from_slice alloc h m (contents h (HB b))) (\<lambda>(self, h).
      res_bind (bytes_drop h b) (\<lambda>h. Inr (self, h)))" by (simp add: extend_with_def bytes_deref_def)
  from bytes_mut_extend_from_slice_ok [OF inv, of "contents h (HB b)"] consider
      m1 h1 where "bytes_mut_extend_from_slice alloc h m (contents h (HB b)) = Inr (m1, h1)"
        "became h (add_mset (HB b) hs) vs (HM m1) (contents h (HM m) @ contents h (HB b)) h1"
    | "too_large (bytes_mut_extend_from_slice alloc h m (contents h (HB b)))" by (auto simp: appended_def)
  then show ?thesis
  proof cases
    case 1
    then have "bytes_inv h1 (add_mset (HB b) (add_mset (HM m1) hs)) vs" by (simp add: became_def add_mset_commute)
    from bytes_drop_ok [OF this] few 1 show ?thesis by (auto simp: step became_def dropped_def undisturbed_def)
  next
    case 2
    then show ?thesis by (simp add: step too_large_bind)
  qed
qed

lemma extend_bytes_ok:
  "bytes_inv h (add_mset (HM m) (image_mset HB (mset bs) + hs)) vs \<Longrightarrow> length bs + size hs < 2 ^ 63 - 1 \<Longrightarrow>
    (\<exists>m' h'. for_each (extend_with alloc) bs (m, h) = Inr (m', h') \<and>
      became h hs vs (HM m') (contents h (HM m) @ concat (map (\<lambda>b. contents h (HB b)) bs)) h') \<or>
    too_large (for_each (extend_with alloc) bs (m, h))"
proof (induction bs arbitrary: m h)
  case (Cons b bs)
  have "bytes_inv h (add_mset (HM m) (add_mset (HB b) (image_mset HB (mset bs) + hs))) vs" using Cons.prems(1) by simp
  from extend_with_ok [OF this] Cons.prems(2) consider
      m1 h1 where "extend_with alloc b (m, h) = Inr (m1, h1)"
        "became h (image_mset HB (mset bs) + hs) vs (HM m1) (contents h (HM m) @ contents h (HB b)) h1"
    | "too_large (extend_with alloc b (m, h))" by auto
  then show ?case
  proof cases
    case 1
    have same: "map (\<lambda>b. contents h1 (HB b)) bs = map (\<lambda>b. contents h (HB b)) bs" using 1(2) by (simp add: became_def undisturbed_def)
    with Cons.IH [of h1 m1] 1 Cons.prems(2) show ?thesis unfolding same by (auto simp: became_def undisturbed_def)
  next
    case 2
    then show ?thesis by (simp add: too_large_bind)
  qed
qed (simp add: became_def)

lemma bytes_mut_extend_bytes_ok:
  assumes "bytes_inv h (add_mset (HM m) (image_mset HB (mset (it_items iter)) + hs)) vs"
    "length (it_items iter) + size hs < 2 ^ 63 - 1"
  shows "(\<exists>m' h'. bytes_mut_extend_bytes alloc h m iter = Inr (m', h') \<and>
      became h hs vs (HM m') (contents h (HM m) @ concat (map (\<lambda>b. contents h (HB b)) (it_items iter))) h') \<or>
    too_large (bytes_mut_extend_bytes alloc h m iter)"
  unfolding bytes_mut_extend_bytes_def by (rule extend_bytes_ok [OF assms])

end

end
