(* ===== verification/Serde.thy ===== *)
theory Serde
  imports Bytes_Iter Fmt
begin

text \<open>
  The serde support (\<^verbatim>\<open>serde.rs\<close>). The crate serde is not part of the repository: a serializer, a
  deserializer and the access to a sequence are arguments of the definitions. The macro
  \<open>serde_impl!\<close> is a group of definitions over the two constructors that it is called with.
\<close>

section \<open>The interfaces of serde\<close>

record ('s, 'e) seq_access =
  size_hint :: "'s \<Rightarrow> usize option"
  next_element :: "'s \<Rightarrow> (u8 option, 'e) result \<times> 's"

record ('s, 'e, 't) visitor =
  visit_seq :: "('s, 'e) seq_access \<Rightarrow> heap \<Rightarrow> 's \<Rightarrow> (('t, 'e) result \<times> heap) res"
  visit_bytes :: "heap \<Rightarrow> u8 list \<Rightarrow> (('t, 'e) result \<times> heap) res"
  visit_byte_buf :: "heap \<Rightarrow> hvec \<Rightarrow> (('t, 'e) result \<times> heap) res"
  visit_str :: "heap \<Rightarrow> u8 list \<Rightarrow> (('t, 'e) result \<times> heap) res"
  visit_string :: "heap \<Rightarrow> hvec \<Rightarrow> (('t, 'e) result \<times> heap) res"

section \<open>The visitor\<close>

definition expecting :: "'f fmt_write \<Rightarrow> 'f \<Rightarrow> (fmt_result \<times> 'f) res" where
  "expecting W formatter = W formatter ''byte array''"

text \<open>
  \<open>while let Some(value) = seq.next_element()? { values.push(value); }\<close>: the loop goes on while
  \<open>Visiting\<close>, and ends at the end of the sequence or with its error.
\<close>

datatype 'e visit = Visiting | Visited | Failed 'e

definition visit_step ::
  "allocator \<Rightarrow> ('s, 'e) seq_access \<Rightarrow> hvec \<times> 's \<times> 'e visit \<times> heap \<Rightarrow> (hvec \<times> 's \<times> 'e visit \<times> heap) res" where
  "visit_step alloc Q = (\<lambda>(values, seq, _, h).
     case next_element Q seq of
       (Ok (Some value), seq) \<Rightarrow> res_bind (vec_push alloc value (values, h)) (\<lambda>(values, h). Inr (values, seq, Visiting, h))
     | (Ok None, seq) \<Rightarrow> Inr (values, seq, Visited, h)
     | (Err e, seq) \<Rightarrow> Inr (values, seq, Failed e, h))"

definition visitor_seq ::
  "allocator \<Rightarrow> (heap \<Rightarrow> hvec \<Rightarrow> ('t \<times> heap) res) \<Rightarrow> ('s, 'e) seq_access \<Rightarrow> heap \<Rightarrow> 's \<Rightarrow> (('t, 'e) result \<times> heap) res" where
  "visitor_seq alloc of_vec Q h seq =
     (let len = min (case size_hint Q seq of Some n \<Rightarrow> n | None \<Rightarrow> 0) 4096 in
      res_bind (vec_with_capacity alloc h len) (\<lambda>(values, h).
      res_bind (rust_while (\<lambda>(_, _, st, _). st = Visiting) (visit_step alloc Q) (values, seq, Visiting, h)) (\<lambda>(values, seq, st, h).
      case st of
        Failed e \<Rightarrow> res_bind (vec_drop h values) (\<lambda>h. Inr (Err e, h))
      | _ \<Rightarrow> res_bind (of_vec h values) (\<lambda>(t, h). Inr (Ok t, h)))))"

definition visitor_bytes :: "(heap \<Rightarrow> u8 list \<Rightarrow> ('t \<times> heap) res) \<Rightarrow> heap \<Rightarrow> u8 list \<Rightarrow> (('t, 'e) result \<times> heap) res" where
  "visitor_bytes of_slice h v = res_bind (of_slice h v) (\<lambda>(t, h). Inr (Ok t, h))"

definition visitor_byte_buf :: "(heap \<Rightarrow> hvec \<Rightarrow> ('t \<times> heap) res) \<Rightarrow> heap \<Rightarrow> hvec \<Rightarrow> (('t, 'e) result \<times> heap) res" where
  "visitor_byte_buf of_vec h v = res_bind (of_vec h v) (\<lambda>(t, h). Inr (Ok t, h))"

text \<open>A \<open>str\<close> and a \<open>String\<close> are their UTF-8 bytes, so \<open>as_bytes\<close> and \<open>into_bytes\<close> leave them as they are.\<close>

definition visitor_str :: "(heap \<Rightarrow> u8 list \<Rightarrow> ('t \<times> heap) res) \<Rightarrow> heap \<Rightarrow> u8 list \<Rightarrow> (('t, 'e) result \<times> heap) res" where
  "visitor_str of_slice h v = res_bind (of_slice h v) (\<lambda>(t, h). Inr (Ok t, h))"

definition visitor_string :: "(heap \<Rightarrow> hvec \<Rightarrow> ('t \<times> heap) res) \<Rightarrow> heap \<Rightarrow> hvec \<Rightarrow> (('t, 'e) result \<times> heap) res" where
  "visitor_string of_vec h v = res_bind (of_vec h v) (\<lambda>(t, h). Inr (Ok t, h))"

definition serde_visitor ::
  "allocator \<Rightarrow> (heap \<Rightarrow> u8 list \<Rightarrow> ('t \<times> heap) res) \<Rightarrow> (heap \<Rightarrow> hvec \<Rightarrow> ('t \<times> heap) res) \<Rightarrow> ('s, 'e, 't) visitor" where
  "serde_visitor alloc of_slice of_vec =
     \<lparr>visit_seq = visitor_seq alloc of_vec, visit_bytes = visitor_bytes of_slice,
      visit_byte_buf = visitor_byte_buf of_vec, visit_str = visitor_str of_slice, visit_string = visitor_string of_vec\<rparr>"

section \<open>Bytes and BytesMut\<close>

definition BytesVisitor :: "allocator \<Rightarrow> ('s, 'e, bytes) visitor" where
  "BytesVisitor alloc = serde_visitor alloc (bytes_copy_from_slice alloc) (from_vec alloc)"

definition BytesMutVisitor :: "allocator \<Rightarrow> ('s, 'e, bytes_mut) visitor" where
  "BytesMutVisitor alloc = serde_visitor alloc (bytes_mut_from_slice alloc)
     (\<lambda>h v. res_bind (bytes_mut_from_vec v) (\<lambda>m. Inr (m, h)))"

text \<open>\<open>serialize_bytes\<close> is the method of the serializer.\<close>

definition bytes_serialize :: "(u8 list \<Rightarrow> 'r) \<Rightarrow> heap \<Rightarrow> bytes \<Rightarrow> 'r res" where
  "bytes_serialize serialize_bytes h self = res_bind (bytes_deref h self) (\<lambda>s. Inr (serialize_bytes s))"

definition bytes_mut_serialize :: "(u8 list \<Rightarrow> 'r) \<Rightarrow> heap \<Rightarrow> bytes_mut \<Rightarrow> 'r res" where
  "bytes_mut_serialize serialize_bytes h self = res_bind (bytes_mut_deref h self) (\<lambda>s. Inr (serialize_bytes s))"

text \<open>\<open>deserialize_byte_buf\<close> is the method of the deserializer: it calls back one of the visitor's methods.\<close>

definition bytes_deserialize :: "allocator \<Rightarrow> (('s, 'e, bytes) visitor \<Rightarrow> heap \<Rightarrow> 'r res) \<Rightarrow> heap \<Rightarrow> 'r res" where
  "bytes_deserialize alloc deserialize_byte_buf h = deserialize_byte_buf (BytesVisitor alloc) h"

definition bytes_mut_deserialize :: "allocator \<Rightarrow> (('s, 'e, bytes_mut) visitor \<Rightarrow> heap \<Rightarrow> 'r res) \<Rightarrow> heap \<Rightarrow> 'r res" where
  "bytes_mut_deserialize alloc deserialize_byte_buf h = deserialize_byte_buf (BytesMutVisitor alloc) h"

section \<open>What a sequence yields\<close>

text \<open>The elements up to the end of the sequence, or up to its first error\<close>

inductive yields :: "('s, 'e) seq_access \<Rightarrow> 's \<Rightarrow> u8 list \<Rightarrow> 'e option \<Rightarrow> bool" for Q where
  yields_end: "next_element Q s = (Ok None, s') \<Longrightarrow> yields Q s [] None"
| yields_error: "next_element Q s = (Err e, s') \<Longrightarrow> yields Q s [] (Some e)"
| yields_more: "next_element Q s = (Ok (Some x), s') \<Longrightarrow> yields Q s' bs r \<Longrightarrow> yields Q s (x # bs) r"

inductive_simps yields_Nil: "yields Q s [] r"
inductive_simps yields_Cons: "yields Q s (x # bs) r"

definition visit_of :: "'e option \<Rightarrow> 'e visit" where
  "visit_of r = (case r of None \<Rightarrow> Visited | Some e \<Rightarrow> Failed e)"

context allocator_laws
begin

lemma visit_loop:
  assumes "yields Q s bs r" "building h0 hs vs bs0 (v, h)" "length bs0 + length bs \<le> 2 ^ 61"
  shows "\<exists>v' s' h'. rust_while (\<lambda>(_, _, st, _). st = Visiting) (visit_step alloc Q) (v, s, Visiting, h) = Inr (v', s', visit_of r, h') \<and>
    building h0 hs vs (bs0 @ bs) (v', h')"
  using assms
proof (induction arbitrary: bs0 v h)
  case (yields_more s x s' bs r)
  from vec_extend_ok [OF yields_more.prems(1), of "[x]"] yields_more.prems(2) obtain v1 h1 where
    "vec_push alloc x (v, h) = Inr (v1, h1)" "building h0 hs vs (bs0 @ [x]) (v1, h1)" by (auto simp: vec_push_def)
  with yields_more.IH [of "bs0 @ [x]" v1 h1] yields_more.hyps(1) yields_more.prems(2) show ?case
    by (subst rust_while_unfold) (simp add: visit_step_def)
qed (subst rust_while_unfold, simp add: visit_step_def visit_of_def)+

end

text \<open>
  What \<open>serde_impl!\<close> relies on: the two constructors copy a slice and take over a vector. The value
  of a sequence is then its elements; when the sequence fails, so does the visit, and nothing stays
  allocated.
\<close>

locale serde_impl = allocator_laws alloc
  for alloc and of_slice :: "heap \<Rightarrow> u8 list \<Rightarrow> ('t \<times> heap) res" and of_vec :: "heap \<Rightarrow> hvec \<Rightarrow> ('t \<times> heap) res" and f :: "'t \<Rightarrow> handle" +
  assumes of_slice_ok: "bytes_inv h hs vs \<Longrightarrow> length bs \<le> isize_max \<Longrightarrow> \<exists>t h'. of_slice h bs = Inr (t, h') \<and> became h hs vs (f t) bs h'"
    and of_vec_ok: "building h hs vs bs (v, h1) \<Longrightarrow> \<exists>t h'. of_vec h1 v = Inr (t, h') \<and> became h hs vs (f t) bs h'"
begin

lemma visitor_seq_ok:
  assumes inv: "bytes_inv h hs vs" and seq: "yields Q s bs r" "length bs \<le> 2 ^ 61"
  shows "case r of
      None \<Rightarrow> \<exists>t h'. visitor_seq alloc of_vec Q h s = Inr (Ok t, h') \<and> became h hs vs (f t) bs h'
    | Some e \<Rightarrow> \<exists>h'. visitor_seq alloc of_vec Q h s = Inr (Err e, h') \<and> dropped h hs vs h'"
proof -
  let ?n = "min (case size_hint Q s of Some n \<Rightarrow> n | None \<Rightarrow> 0) 4096"
  have "?n \<le> isize_max" by (simp add: isize_max_def min_le_iff_disj)
  from vec_with_capacity_ok [OF inv this] obtain v h1 where
    v: "vec_with_capacity alloc h ?n = Inr (v, h1)" "building h hs vs [] (v, h1)" by (auto simp: building_def)
  from visit_loop [OF seq(1) v(2)] seq(2) obtain v' s' h' where
    l: "rust_while (\<lambda>(_, _, st, _). st = Visiting) (visit_step alloc Q) (v, s, Visiting, h1) = Inr (v', s', visit_of r, h')"
      "building h hs vs bs (v', h')" by auto
  show ?thesis
  proof (cases r)
    case None
    with v(1) l of_vec_ok [OF l(2)] show ?thesis by (auto simp: visitor_seq_def visit_of_def Let_def)
  next
    case (Some e)
    have w: "vec_ok h' v' bs" "bytes_inv h' hs (vec_buf v' \<union> vs)" "undisturbed h hs vs h'" "vec_buf v' \<union> vs - vec_buf v' = vs"
      using l(2) by (auto simp: building_def)
    from vec_drop_ok [OF w(2,1) Un_upper1] w(4) obtain h2 where "vec_drop h' v' = Inr h2" "bytes_inv h2 hs vs" "undisturbed h' hs vs h2" by auto
    with Some v(1) l(1) undisturbed_trans [OF w(3)] show ?thesis by (simp add: visitor_seq_def visit_of_def Let_def dropped_def)
  qed
qed

lemma visitor_slice_ok:
  assumes "bytes_inv h hs vs" "length bs \<le> isize_max"
  shows "\<exists>t h'. visitor_bytes of_slice h bs = Inr (Ok t, h') \<and> became h hs vs (f t) bs h'"
    "\<exists>t h'. visitor_str of_slice h bs = Inr (Ok t, h') \<and> became h hs vs (f t) bs h'"
  using of_slice_ok [OF assms] by (auto simp: visitor_bytes_def visitor_str_def)

lemma visitor_vec_ok:
  assumes "building h hs vs bs (v, h1)"
  shows "\<exists>t h'. visitor_byte_buf of_vec h1 v = Inr (Ok t, h') \<and> became h hs vs (f t) bs h'"
    "\<exists>t h'. visitor_string of_vec h1 v = Inr (Ok t, h') \<and> became h hs vs (f t) bs h'"
  using of_vec_ok [OF assms] by (auto simp: visitor_byte_buf_def visitor_string_def)

end

context allocator_laws
begin

lemma bytes_serde: "serde_impl alloc (bytes_copy_from_slice alloc) (from_vec alloc) HB"
  by unfold_locales (use bytes_copy_from_slice_ok built(1) in \<open>fastforce simp: became_def\<close>)+

lemma bytes_mut_serde:
  "serde_impl alloc (bytes_mut_from_slice alloc) (\<lambda>h v. res_bind (bytes_mut_from_vec v) (\<lambda>m. Inr (m, h))) HM"
  by unfold_locales (use bytes_mut_from_slice_ok built(2) in \<open>fastforce\<close>)+

end

interpretation bytes_serde: serde_impl bump "bytes_copy_from_slice bump" "from_vec bump" HB
  by (rule bump.bytes_serde)

interpretation bytes_mut_serde: serde_impl bump "bytes_mut_from_slice bump" "\<lambda>h v. res_bind (bytes_mut_from_vec v) (\<lambda>m. Inr (m, h))" HM
  by (rule bump.bytes_mut_serde)

end
