(* ===== verification/Handle_Theorems.thy ===== *)
theory Handle_Theorems
  imports Bytes_Mut_Theorems Buf_Access Bytes_Fmt Serde
begin

text \<open>
  The properties of \<open>Bytes\<close> and \<open>BytesMut\<close> as implementations of traits: moving bytes between any
  source and the handles, comparing, reading, writing and formatting, and serde.
\<close>

section \<open>Moving bytes\<close>

text \<open>
  C23. \<open>BytesMut::put\<close> of any lawful source (a slice, a \<open>Bytes\<close>, a \<open>BytesMut\<close>, a \<open>Take\<close> or a
  reference to one) appends everything the source has and leaves it empty, whether the memory of
  the source is taken over, copied chunk by chunk into spare capacity or after growing; no other
  handle is disturbed. It can fail only by the panic for a capacity overflow, and not when the handle
  has capacity and the sizes are at most \<open>2^60\<close> bytes.
\<close>

theorem put_appends_source:
  assumes "heap_put alloc S owns view kept" "bytes_inv h (add_mset (HM m) (owns s + hs)) vs"
    and "size (owns s + hs) < 2 ^ 62 - 2" "length (view h s) \<le> isize_max"
  shows "case bytes_mut_put alloc S h m s of
      Inr (m', s', h') \<Rightarrow> contents h' (HM m') = contents h (HM m) @ view h s \<and> view h' s' = [] \<and>
        bytes_inv h' (add_mset (HM m') (owns s' + hs)) vs \<and> undisturbed h hs vs h'
    | Inl e \<Rightarrow> e \<in> {Panic (Expect_failed ''overflow''), Panic (Expect_failed ''capacity overflow'')} \<and>
        \<not> (0 < bm_cap m \<and> bm_len m + length (view h s) \<le> 2 ^ 60 \<and>
           (\<forall>cs. h (blk (bm_ptr m)) = Some (Buffer cs) \<longrightarrow> length cs \<le> 2 ^ 60))"
proof -
  have "Suc (size (add_mset (HM m) (owns s + hs))) < 2 ^ 62" using assms(3) by simp
  from heap_put.put_ok [OF assms(1,2) this assms(4)] show ?thesis
    by (auto simp: put_ends_def too_large_def capacity_overflow_def moderate_def)
qed

theorem put_appends_source_witness:
  "\<exists>m' s' h'. bytes_mut_put bump (slice_source bump) mut_heap example_mut [1, 2] = Inr (m', s', h') \<and>
    contents h' (HM m') = [7, 8, 9, 1, 2] \<and> s' = []"
  using put_appends_source [OF bump.slice_put, where h = mut_heap and m = example_mut and s = "[1, 2]" and hs = "{#}" and vs = "{}"]
    mut_block [of "blk (bm_ptr example_mut)"]
  by (simp add: example_mut_fields example_mut_inv isize_max_def split: sum.splits prod.splits)

text \<open>
  C27. \<open>copy_to_bytes(n)\<close> returns a handle with exactly the next \<open>n\<close> bytes and leaves the source with
  the others, for the method that the trait provides, for \<open>Take\<close>, and for \<open>Chain\<close> on either side of and
  across its boundary; no other handle is disturbed. Beyond what is left, the provided method and
  \<open>Take\<close> panic before they touch anything.
\<close>

theorem copy_to_bytes_takes_prefix:
  assumes two: "two_sources alloc A ownsa va ra B ownsb vb rb" and inv: "bytes_inv h (ownsa s + (ownsb t + hs)) vs"
    and few: "size (ownsa s + (ownsb t + hs)) < 2 ^ 62 - 1" and n: "n \<le> isize_max"
  shows "(n \<le> length (va h s) + length (vb h t) \<longrightarrow>
      copied (chain_owns ownsa ownsb) (chain_gives va vb) h hs vs (chain_new s t) n (chain_copy_to_bytes alloc A B h (chain_new s t) n)) \<and>
    (if n \<le> length (va h s)
     then copied ownsa va h (ownsb t + hs) vs s n (copy_to_bytes_default alloc A h s n)
     else copy_to_bytes_default alloc A h s n = panic_advance \<lparr>requested = n, available = length (va h s)\<rparr>) \<and>
    (if n \<le> min (length (va h s)) lim
     then copied (take_owns ownsa) (take_gives va) h (ownsb t + hs) vs (take_new s lim) n (take_copy_to_bytes A h (take_new s lim) n)
     else take_copy_to_bytes A h (take_new s lim) n = Inl (Panic (Assert_failed ''`len` greater than remaining'')))"
proof -
  have few': "Suc (size (ownsa s + (ownsb t + hs))) < 2 ^ 62" using few by simp
  have A: "heap_put alloc A ownsa va ra" using two by (simp add: two_sources_def)
  then have src: "heap_source A ownsa va ra" and fill: "heap_fill alloc A ownsa va ra" by (simp_all add: heap_put_def)
  then have rem: "remaining (hb_core A) (s, h) = length (va h s)"
    using inv by (intro heap_reader.src_remaining [of A ownsa va ra]) (simp_all add: heap_source_def)
  have "copied (chain_owns ownsa ownsb) (chain_gives va vb) h hs vs (chain_new s t) n (chain_copy_to_bytes alloc A B h (chain_new s t) n)"
    if "n \<le> length (va h s) + length (vb h t)"
    using inv few' that n by (intro two_sources.chain_copy_to_bytes_ok [OF two])
      (simp_all add: chain_new_def chain_owns_def chain_gives_def ac_simps)
  moreover have "copied ownsa va h (ownsb t + hs) vs s n (copy_to_bytes_default alloc A h s n)" if "n \<le> length (va h s)"
    using heap_fill.copy_to_bytes_default_ok [OF fill inv few' that n] .
  moreover have "copied (take_owns ownsa) (take_gives va) h (ownsb t + hs) vs (take_new s lim) n (take_copy_to_bytes A h (take_new s lim) n)"
    if "n \<le> min (length (va h s)) lim"
    using heap_source.src_copy_to_bytes [OF heap_source.take_source [OF src], of h "take_new s lim" "ownsb t + hs" vs n] inv few' that n
    by (simp add: take_owns_def take_gives_def take_new_def)
  ultimately show ?thesis using rem
    by (auto simp: copy_to_bytes_default_def take_copy_to_bytes_def take_defs take_new_def)
qed

theorem copy_to_bytes_takes_prefix_witness:
  "\<exists>b c h'. chain_copy_to_bytes bump (slice_source bump) (bytes_source bump) example_heap (chain_new [1, 2] (Some example_bytes)) 4 = Inr (b, c, h') \<and>
    contents h' (HB b) = [1, 2, 7, 8]"
  using copy_to_bytes_takes_prefix [OF slice_then_bytes.two_sources_axioms, where h = example_heap and s = "[1, 2]" and
      t = "Some example_bytes" and hs = "{#}" and vs = "{}" and n = 4 and lim = 0]
  by (auto simp: example_inv isize_max_def copied_def chain_gives_def chain_new_def)

section \<open>Comparisons\<close>

text \<open>
  C31. Every \<open>==\<close>, \<open>cmp\<close> and \<open>partial_cmp\<close> of \<open>Bytes\<close> and \<open>BytesMut\<close>, with each other and with
  slices, vectors, strings and references to them, on either side, is equality and the
  lexicographic order of the bytes, whatever the handles look like inside; except that
  \<open>Vec<u8>::partial_cmp(&BytesMut)\<close> and \<open><&str>::partial_cmp(&BytesMut)\<close> return the reverse of it.
\<close>

theorem comparisons_lexicographic:
  assumes "bytes_inv h hs vs" "{HB b, HB b', HM m, HM m'} \<subseteq> set_mset hs"
  defines "B \<equiv> contents h (HB b)" and "B' \<equiv> contents h (HB b')" and "M \<equiv> contents h (HM m)" and "M' \<equiv> contents h (HM m')"
  shows "bytes_eq h b b' = Inr (B = B') \<and> bytes_cmp h b b' = Inr (lex_order B B') \<and> bytes_partial_cmp h b b' = Inr (Some (lex_order B B')) \<and>
    bytes_mut_eq h m m' = Inr (M = M') \<and> bytes_mut_cmp h m m' = Inr (lex_order M M') \<and> bytes_mut_partial_cmp h m m' = Inr (Some (lex_order M M')) \<and>
    bytes_eq_bytes_mut h b m = Inr (B = M) \<and> bytes_mut_eq_bytes h m b = Inr (M = B) \<and>
    list_all (\<lambda>eq. eq h b s = Inr (B = s)) bytes_eqs \<and> list_all (\<lambda>eq. eq h s b = Inr (s = B)) eqs_bytes \<and>
    list_all (\<lambda>cmp. cmp h b s = Inr (Some (lex_order B s))) bytes_cmps \<and> list_all (\<lambda>cmp. cmp h s b = Inr (Some (lex_order s B))) cmps_bytes \<and>
    list_all (\<lambda>eq. eq h m s = Inr (M = s)) bytes_mut_eqs \<and> list_all (\<lambda>eq. eq h s m = Inr (s = M)) eqs_bytes_mut \<and>
    list_all (\<lambda>cmp. cmp h m s = Inr (Some (lex_order M s))) bytes_mut_cmps \<and> list_all (\<lambda>cmp. cmp h s m = Inr (Some (lex_order s M))) cmps_bytes_mut \<and>
    vec_partial_cmp_bytes_mut h s m = Inr (Some (reverse (lex_order s M))) \<and>
    ref_str_partial_cmp_bytes_mut h s m = Inr (Some (reverse (lex_order s M)))"
proof -
  have ok: "handle_ok h (HB b)" "handle_ok h (HB b')" "handle_ok h (HM m)" "handle_ok h (HM m')"
    using assms(2) bytes_invD(3) [OF assms(1)] by simp_all
  have "vec_partial_cmp_bytes_mut h s m = Inr (Some (lex_order M s))" "ref_str_partial_cmp_bytes_mut h s m = Inr (Some (lex_order M s))"
    using bytes_mut_comparisons(3) [OF ok(3), of s]
    by (simp_all add: bytes_mut_cmps_def vec_partial_cmp_bytes_mut_def ref_str_partial_cmp_bytes_mut_def M_def)
  then show ?thesis unfolding B_def B'_def M_def M'_def reverse_lex_order
    using handle_comparisons [OF ok] bytes_comparisons [OF ok(1)] bytes_mut_comparisons [OF ok(3)] by (intro conjI) simp_all
qed

theorem comparisons_lexicographic_witness:
  "vec_partial_cmp_bytes_mut mut_heap [1] example_mut = Inr (Some Greater) \<and> lex_order [1] [7, 8, 9] = Less"
proof -
  have "bytes_inv mut_heap {#HB bytes_new, HM example_mut#} {}" using example_mut_inv(1) by simp
  moreover have "lex_order [1] [7, 8, 9] = Less" by (simp add: lex_order_def)
  ultimately show ?thesis
    using comparisons_lexicographic [of mut_heap "{#HB bytes_new, HM example_mut#}" "{}" bytes_new bytes_new example_mut example_mut "[1]"]
    by (simp add: example_mut_inv(2))
qed

section \<open>Readers, writers and sinks\<close>

text \<open>
  C32. \<open>Bytes\<close> is a lawful \<open>Buf\<close>, and \<open>BytesMut\<close> is a lawful \<open>Buf\<close>, a lawful \<open>BufMut\<close> and a lawful
  sink of formatted text: their methods meet the contracts under which the typed reads and writes, the
  adapters and the formatting are proved, and keep the invariant of all handles. \<open>write_str\<close> returns
  the error, and changes nothing, exactly when the bytes would be more than \<open>isize::MAX\<close>; otherwise
  it appends the text, or panics with a capacity overflow, which buffers and results of at most
  \<open>2^60\<close> bytes exclude.
\<close>

theorem handles_are_lawful:
  assumes "allocator_laws alloc"
  shows "buf_complete (bytes_buf h) (\<lambda>b. bytes_inv h (add_mset (HB b) hs) vs) (\<lambda>b. contents h (HB b)) \<and>
    buf_complete (bytes_mut_buf alloc) (mut_ok h hs vs) mut_view \<and>
    buf_mut_contract (bytes_mut_buf_mut alloc) (mut_ok h hs vs) mut_view mut_room \<and>
    fmt_sink (bytes_mut_write_str alloc) (mut_ok h hs vs) mut_text \<and>
    (\<forall>m g s. mut_ok h hs vs (m, g) \<longrightarrow>
      (if bm_len m + length s \<le> isize_max
       then (\<exists>f'. bytes_mut_write_str alloc (m, g) s = Inr (Ok (), f') \<and> mut_ok h hs vs f' \<and>
           mut_view f' = mut_view (m, g) @ as_bytes s) \<or>
         too_large (bytes_mut_write_str alloc (m, g) s) \<and> \<not> moderate g m (length s)
       else bytes_mut_write_str alloc (m, g) s = Inr (Err (), m, g)))"
  using allocator_laws.mut_reader [OF assms] allocator_laws.mut_writer [OF assms] allocator_laws.mut_sink [OF assms]
    allocator_laws.write_str_ok [OF assms] bytes_reader.buf_complete_axioms
  by (intro conjI allI impI)

theorem handles_are_lawful_witness:
  "(\<exists>s'. put_u8 (bytes_mut_buf_mut bump) (example_mut, mut_heap) 5 = Inr s' \<and> mut_view s' = [7, 8, 9, 5]) \<and>
   (\<exists>s'. bytes_mut_write_str bump (example_mut, mut_heap) ''ab'' = Inr (Ok (), s') \<and> mut_view s' = [7, 8, 9, 97, 98])"
proof -
  note lawful = handles_are_lawful [OF bump.allocator_laws_axioms, of mut_heap "{#}" "{}"]
  then have M: "buf_mut_contract (bytes_mut_buf_mut bump) (mut_ok mut_heap {#} {}) mut_view mut_room" by blast
  have ok: "mut_ok mut_heap {#} {} (example_mut, mut_heap)" "mut_room (example_mut, mut_heap) = 1" "mut_view (example_mut, mut_heap) = [7, 8, 9]"
    using example_mut_inv by (simp_all add: mut_ok_def mut_room_def mut_view_def example_mut_fields)
  with buf_mut_contract.typed_puts_write(1) [OF M, of 5]
  have put: "\<exists>s'. put_u8 (bytes_mut_buf_mut bump) (example_mut, mut_heap) 5 = Inr s' \<and> mut_view s' = [7, 8, 9, 5]"
    by (fastforce simp: writes_def written_def)
  have fits: "bm_len example_mut + length ''ab'' \<le> isize_max" by (simp add: example_mut_fields isize_max_def)
  have moderate: "moderate mut_heap example_mut (length ''ab'')"
    using mut_block [of "blk (bm_ptr example_mut)"] by (simp add: moderate_def example_mut_fields)
  have bytes: "as_bytes ''ab'' = [97, 98]" by (simp add: as_bytes_def)
  from lawful [THEN conjunct2, THEN conjunct2, THEN conjunct2, THEN conjunct2, rule_format, OF ok(1), of "''ab''"]
  have "\<exists>s'. bytes_mut_write_str bump (example_mut, mut_heap) ''ab'' = Inr (Ok (), s') \<and>
      mut_view s' = [7, 8, 9, 97, 98]"
    using fits moderate ok(3) bytes by auto
  with put show ?thesis by blast
qed

section \<open>Serde\<close>

text \<open>
  C34. Deserializing from a sequence: when the sequence ends, \<open>visit_seq\<close> returns a value with exactly
  its elements, which serializes to them again; when it fails, \<open>visit_seq\<close> returns the error of the
  sequence and has freed what it collected. The size hint has no influence, and it always returns.
\<close>

theorem deserialize_sequence:
  assumes alloc: "allocator_laws alloc" and "bytes_inv h hs vs" "yields Q s bs r" "length bs \<le> 2 ^ 61"
  shows "case r of
      None \<Rightarrow> (\<exists>b h'. visit_seq (BytesVisitor alloc) Q h s = Inr (Ok b, h') \<and> bytes_serialize (\<lambda>x. x) h' b = Inr bs \<and>
          bytes_inv h' (add_mset (HB b) hs) vs \<and> undisturbed h hs vs h') \<and>
        (\<exists>m h'. visit_seq (BytesMutVisitor alloc) Q h s = Inr (Ok m, h') \<and> bytes_mut_serialize (\<lambda>x. x) h' m = Inr bs \<and>
          bytes_inv h' (add_mset (HM m) hs) vs \<and> undisturbed h hs vs h')
    | Some e \<Rightarrow> (\<exists>h'. visit_seq (BytesVisitor alloc) Q h s = Inr (Err e, h') \<and> bytes_inv h' hs vs \<and> undisturbed h hs vs h') \<and>
        (\<exists>h'. visit_seq (BytesMutVisitor alloc) Q h s = Inr (Err e, h') \<and> bytes_inv h' hs vs \<and> undisturbed h hs vs h')"
proof -
  note b = serde_impl.visitor_seq_ok [OF allocator_laws.bytes_serde [OF alloc] assms(2,3,4)]
  note m = serde_impl.visitor_seq_ok [OF allocator_laws.bytes_mut_serde [OF alloc] assms(2,3,4)]
  have reads: "bytes_serialize (\<lambda>x. x) h' b = Inr bs" if "became h hs vs (HB b) bs h'" for b h'
    using that bytes_reads bytes_invD(3) [of h' "add_mset (HB b) hs" vs "HB b"] by (simp add: bytes_serialize_def bytes_deref_def became_def)
  have reads_mut: "bytes_mut_serialize (\<lambda>x. x) h' m = Inr bs" if "became h hs vs (HM m) bs h'" for m h'
    using that bytes_mut_reads bytes_invD(3) [of h' "add_mset (HM m) hs" vs "HM m"]
    by (simp add: bytes_mut_serialize_def bytes_mut_deref_def bytes_mut_as_ref_def bytes_mut_as_slice_def became_def)
  show ?thesis
  proof (cases r)
    case None
    with b m reads reads_mut show ?thesis by (fastforce simp: BytesVisitor_def BytesMutVisitor_def serde_visitor_def became_def)
  next
    case (Some e)
    with b m show ?thesis by (simp add: BytesVisitor_def BytesMutVisitor_def serde_visitor_def dropped_def)
  qed
qed

definition list_access :: "(u8 list, string) seq_access" where
  "list_access = \<lparr>size_hint = (\<lambda>s. Some (length s)),
     next_element = (\<lambda>s. case s of [] \<Rightarrow> (Ok None, []) | x # xs \<Rightarrow> if x = 0 then (Err ''zero'', xs) else (Ok (Some x), xs))\<rparr>"

theorem deserialize_sequence_witness:
  "(\<exists>b h'. visit_seq (BytesVisitor bump) list_access Map.empty [1, 2] = Inr (Ok b, h') \<and> bytes_serialize (\<lambda>x. x) h' b = Inr [1, 2]) \<and>
   (\<exists>h'. visit_seq (BytesVisitor bump) list_access Map.empty [1, 0] = Inr (Err ''zero'', h'))"
proof -
  have inv: "bytes_inv Map.empty {#} {}"
    by (auto simp: bytes_inv_def separate_def no_leak_def bounded_def cells_of_def)
  have "yields list_access [1, 2] [1, 2] None" "yields list_access [1, 0] [1] (Some ''zero'')"
    by (simp_all add: yields_Nil yields_Cons list_access_def)
  from deserialize_sequence [OF bump.allocator_laws_axioms inv this(1)] deserialize_sequence [OF bump.allocator_laws_axioms inv this(2)]
  show ?thesis by simp blast
qed

end
