(* ===== verification/Spec2Isabelle.thy ===== *)
theory Spec2Isabelle
  imports Sdk Buf_Mut_Theorems Handle_Theorems
begin

text \<open>
  Verification of the Dilithium lock for CKB and of the \<open>bytes\<close> crate it is built with.

  \<^bold>\<open>The program.\<close> The repository has an on-chain lock script in Rust
  (\<^verbatim>\<open>contracts/dillithium-lock\<close>), which unlocks a cell when the witness carries an ML-DSA-65
  public key whose hash is in the script arguments and a signature of the transaction hash; a
  TypeScript SDK (\<^verbatim>\<open>sdk\<close>) that derives the arguments and builds the witness; and a patched
  copy of the \<open>bytes\<close> crate (\<^verbatim>\<open>patches/bytes\<close>), whose atomics are replaced for the
  single-threaded \<open>riscv64\<close> target and on which the CKB types rest. Nearly all the Rust code
  of the repository is that crate.

  \<^bold>\<open>The theories.\<close>
  \<^item> \<open>Prelude\<close>: machine types, panics and other faults, sequencing, \<open>while\<close> loops with a
    total-correctness rule, slices and checked arithmetic.
  \<^item> \<open>Endian\<close>: byte-order conversions and their round trips.
  \<^item> \<open>Lock\<close>: \<^verbatim>\<open>main.rs\<close>. \<open>parse_witness\<close> and \<open>program_entry\<close> with every early
    return; what they accept, that they never fault, and an inductive specification
    \<open>lock_verdict\<close> of the verdict that \<open>program_entry\<close> refines.
  \<^item> \<open>Sdk\<close>: \<^verbatim>\<open>witness.ts\<close> and \<^verbatim>\<open>hash.ts\<close>. The builder and the parser of the witness
    against each other and against the contract.
  \<^item> \<open>Buf\<close>: the trait \<open>Buf\<close> (\<^verbatim>\<open>buf_impl.rs\<close>) as a record of operations, all typed
    reads, and the contract of the trait as locales (\<open>buf_core_contract\<close>,
    \<open>buf_contract\<close>, \<open>buf_vectored\<close>, \<open>buf_complete\<close>).
  \<^item> \<open>Buf_Impls\<close>: slices, cursors and ring buffers, as interpretations of the contract.
  \<^item> \<open>Buf_Adapters\<close>: \<open>Chain\<close>, \<open>Take\<close>, \<open>IntoIter\<close>, \<open>Reader\<close>
    (\<^verbatim>\<open>chain.rs\<close>, \<^verbatim>\<open>take.rs\<close>, \<^verbatim>\<open>iter.rs\<close>, \<^verbatim>\<open>reader.rs\<close>). \<open>Chain\<close> keeps the contract
    of the reads for any parts and that of \<open>chunks_vectored\<close> when its first part is complete; \<open>Take\<close>
    keeps both but is not complete, and what a \<open>Chain\<close> behind a \<open>Take\<close> returns is stated exactly.
  \<^item> \<open>Buf_Theorems\<close>: the properties of reading.
  \<^item> \<open>Buf_Mut\<close>: the trait \<open>BufMut\<close> (\<^verbatim>\<open>buf_mut.rs\<close>) and \<open>UninitSlice\<close>, all typed
    writes, and the contract as \<open>buf_mut_core_contract\<close> and \<open>buf_mut_contract\<close>.
  \<^item> \<open>Buf_Mut_Impls\<close>: slices, uninitialised slices, vectors, \<open>Limit\<close>, \<open>Chain\<close>,
    \<open>Writer\<close>.
  \<^item> \<open>Buf_Mut_Theorems\<close>: the properties of writing, and that reading inverts writing.
  \<^item> \<open>Atomics\<close>: the patch, \<^verbatim>\<open>loom.rs\<close>: atomics as plain cells.
  \<^item> \<open>Heap\<close>: pointers, blocks and raw memory operations, with undefined behaviour as a fault; the
    allocator as the locale \<open>allocator_laws\<close>.
  \<^item> \<open>Bytes\<close>: \<^verbatim>\<open>bytes.rs\<close>: handles, the six vtables, constructors and methods.
  \<^item> \<open>Bytes_Mut\<close>: \<^verbatim>\<open>bytes_mut.rs\<close>: the tagged data word, sharing, splitting and joining,
    growing, writing, and the conversions between \<open>Bytes\<close>, \<open>BytesMut\<close> and vectors.
  \<^item> \<open>Bytes_Inv\<close>: the invariant of all live handles of both types (reference counts, no sharing
    between owners, no two handles on a byte that one of them may write, no leaks).
  \<^item> \<open>Bytes_Frame\<close>, \<open>Bytes_Moves\<close>: what keeps the invariant: changes that a handle cannot see,
    and the moves of which all operations are made (recounting, reslicing, acquiring, releasing,
    writing).
  \<^item> \<open>Bytes_Ops\<close>, \<open>Bytes_Vec\<close>, \<open>Bytes_Slice\<close>: clone, drop and uniqueness; conversions from
    and into vectors; views, and \<open>Bytes\<close> as an interpretation of the contract of \<open>Buf\<close>.
  \<^item> \<open>Bytes_Mut_Tags\<close>, \<open>Bytes_Mut_Ops\<close>, \<open>Bytes_Mut_Grow\<close>, \<open>Bytes_Mut_Reserve\<close>, \<open>Bytes_Mut_Write\<close>,
    \<open>Bytes_Mut_Conv\<close>: the bits of the data word; promotion, splitting, freezing; \<open>reserve\<close> of an
    unshared vector; all other ways of \<open>reserve\<close> and \<open>try_reclaim\<close>; writing; joining and conversions.
  \<^item> \<open>Bytes_Machine\<close>: runs of arbitrary operations on handles of both types, a specification
    without memory and the simulation between them. A run starts with the static data of the program;
    owners in a run are vectors.
  \<^item> \<open>Bytes_Theorems\<close>, \<open>Bytes_Mut_Theorems\<close>: the properties of \<open>Bytes\<close> and of \<open>BytesMut\<close>.
  \<^item> \<open>Bytes_Traits\<close>: the views, hashing, conversions and comparisons of both handles, each with the
    delegation of its \<open>impl\<close>, against the lexicographic order of the bytes.
  \<^item> \<open>Bytes_Mut_Buf\<close>: \<open>BytesMut\<close> as \<open>Buf\<close> and \<open>BufMut\<close>, as interpretations of both contracts.
  \<^item> \<open>Bytes_Put\<close>, \<open>Bytes_Sources\<close>: \<open>BytesMut::put\<close> and the three \<open>copy_to_bytes\<close>, which call each
    other through the trait. The contract of a source that may own handles is the locale
    \<open>heap_reader\<close>, extended by \<open>heap_source\<close>; \<open>heap_fill\<close>, \<open>heap_put\<close> and \<open>two_sources\<close> prove the
    operations over it, interpreted on slices, \<open>Bytes\<close> and \<open>BytesMut\<close>.
  \<^item> \<open>Bytes_Iter\<close>: \<open>Extend\<close> and \<open>FromIterator\<close>.
  \<^item> \<open>Fmt\<close>, \<open>Bytes_Fmt\<close>: \<^verbatim>\<open>fmt\<close>: what \<open>{:?}\<close>, \<open>{:x}\<close> and \<open>{:X}\<close> print over any sink of text (locale
    \<open>fmt_sink\<close>), read back by parsers; \<open>BytesMut\<close> as such a sink.
  \<^item> \<open>Serde\<close>: \<^verbatim>\<open>serde.rs\<close>: the visitors over the two constructors of each type (locale \<open>serde_impl\<close>).
  \<^item> \<open>Buf_Access\<close>: constructors and accessors of the adapters (locale \<open>borrows\<close>) and the indices of
    \<open>UninitSlice\<close>.
  \<^item> \<open>Handle_Theorems\<close>: the properties of both handles as implementations of traits.

  \<^bold>\<open>How state and effects are modelled.\<close> A computation that can panic returns
  \<^typ>\<open>'a res\<close>, with the reason in the left summand. A method on \<open>&mut self\<close> returns the new
  \<open>self\<close>. A trait is a record of its methods; provided methods are definitions over it. A
  mutable borrow is its contents together with the function that ends it. Memory cells are options,
  \<^const>\<open>None\<close> while uninitialised. \<open>usize\<close> is \<^typ>\<open>nat\<close> with the overflow checks
  written out; other integers are words.

  \<^bold>\<open>Bounds and termination.\<close> No fuel is used. Loops are \<^const>\<open>rust_while\<close>, whose value is
  \<^const>\<open>Diverges\<close> when they do not end, and every loop is proved to end by a measure. A
  vector is lawful up to the \<open>bound\<close> its allocator serves (\<open>vec_alloc\<close>). Growing a \<open>BytesMut\<close> is
  proved to return for buffers and requests of at most \<open>2^60\<close> bytes, since the code doubles
  capacities, and to panic otherwise if it does not return. Runs have fewer than \<open>2^63\<close> operations,
  so that no reference count overflows.

  \<^bold>\<open>Parameters.\<close> The CKB syscalls, \<open>blake2b_ref\<close> and \<open>fips204\<close> are fields of
  \<open>lock_env\<close>; the allocator is an argument; \<open>hashPubkey\<close> of the WASM module is an argument; the growth policy of
  \<open>Vec\<close> is an argument; \<open>as_ref\<close> of an owner is an argument of \<open>from_owner\<close>, which calls it after
  boxing the owner, and the owner is known by the block of memory that its \<open>Drop\<close> frees, as the
  documentation of \<open>from_owner\<close> has it; the serializers, deserializers and sequences of serde are arguments, and a
  sequence is described by what it yields (\<open>yields\<close>); a sink of text is an argument.

  \<^bold>\<open>Not modelled.\<close> The rest of the SDK (wallet, CLI, addresses, RPC), which is I/O around
  external services; tests and benchmarks; \<open>AsMut\<close> and \<open>BorrowMut\<close> and the iterators of borrowed
  handles, which only borrow the slice; what unwinding drops after a panic, except for
  one of \<open>as_ref\<close> in \<open>from_owner\<close>; owners whose bytes lie in the box itself, such as arrays (the
  bytes of an owner are always a block of their own); in which portions
  \<open>core::fmt\<close> passes on the text of one \<open>write!\<close>; the atomics of targets with threads.
\<close>

end
